(* ===== verification/Kernel_Prelude.thy ===== *)
theory Kernel_Prelude
  imports Main "HOL-Library.Word"
begin

text \<open>
  Shared vocabulary of the development: the machine integer types of the kernel, the outcome of a
  Rust function that may panic, the theorem collections the component theories feed, and generic
  facts about 64-bit words, circular indices and state machines.
\<close>

unbundle bit_operations_syntax

section \<open>Machine integers\<close>

type_synonym u8 = "8 word"
type_synonym u16 = "16 word"
type_synonym u32 = "32 word"
type_synonym u64 = "64 word"
type_synonym usize = "64 word"

named_theorems mem_simps
  "reading a memory after a write"
named_theorems asm_simps
  "symbolic execution of the naked assembly blocks"
named_theorems frame_simps
  "components of the kernel state an operation leaves alone"

lemma unat_of_nat64: "n < 2 ^ 64 \<Longrightarrow> unat (of_nat n :: u64) = n"
  by (rule of_nat_inverse[OF refl]) simp

lemma of_nat64_eq_0: "n < 2 ^ 64 \<Longrightarrow> (of_nat n :: u64) = 0 \<longleftrightarrow> n = 0"
  using unat_of_nat64[of n] by auto

lemma of_nat64_neq_0: "0 < n \<Longrightarrow> n < 2 ^ 64 \<Longrightarrow> (of_nat n :: u64) \<noteq> 0"
  using of_nat64_eq_0 by blast

lemma of_nat64_inject: "m < 2 ^ 64 \<Longrightarrow> n < 2 ^ 64 \<Longrightarrow> (of_nat m :: u64) = of_nat n \<longleftrightarrow> m = n"
  by (auto dest!: arg_cong[where f = unat] simp: unat_of_nat64)

lemma unat64_bound: "unat (x :: u64) < 2 ^ 64"
  using unsigned_less[of x] by simp

lemma unat64_neg: "(d :: u64) \<noteq> 0 \<Longrightarrow> unat (- d) = 2 ^ 64 - unat d"
  using unat_sub_if_size[of 0 d] by (simp add: size_word.rep_eq unat_gt_0)

lemma unat64_inc: "(w :: u64) + 1 \<noteq> 0 \<Longrightarrow> unat (w + 1) = unat w + 1"
  using unatSuc[of w] by (simp add: add.commute)

lemma word_less_inc: "(w :: u64) + 1 \<noteq> 0 \<Longrightarrow> w < w + 1"
  by (simp add: word_less_nat_alt unat64_inc)

declare unat_of_nat64 [simp]

section \<open>Outcomes of functions that may panic\<close>

text \<open>
  A Rust function whose body may reach \<^verbatim>\<open>panic!\<close>, \<^verbatim>\<open>expect\<close>, \<^verbatim>\<open>unwrap\<close> or an out-of-range index
  returns an \<open>outcome\<close>. The kernel is built with \<^verbatim>\<open>panic = "abort"\<close>, so nothing runs after a panic
  and the state at the panic is not kept.
\<close>

datatype 'a outcome = Ok 'a | Panic string

primrec bindo :: "'a outcome \<Rightarrow> ('a \<Rightarrow> 'b outcome) \<Rightarrow> 'b outcome" where
  "bindo (Ok x) f = f x"
| "bindo (Panic s) f = Panic s"

definition expect :: "string \<Rightarrow> 'a option \<Rightarrow> 'a outcome" where
  "expect msg x = (case x of None \<Rightarrow> Panic msg | Some v \<Rightarrow> Ok v)"

lemma expect_simps [simp]: "expect msg None = Panic msg" "expect msg (Some v) = Ok v"
  by (simp_all add: expect_def)

lemma expect_Ok_iff [simp]: "expect msg x = Ok v \<longleftrightarrow> x = Some v"
  by (simp add: expect_def split: option.splits)

lemma bindo_Ok_iff [simp]: "bindo m f = Ok y \<longleftrightarrow> (\<exists>x. m = Ok x \<and> f x = Ok y)"
  by (cases m) auto

lemma bindo_cong [fundef_cong]:
  "m = m' \<Longrightarrow> (\<And>x. m' = Ok x \<Longrightarrow> f x = f' x) \<Longrightarrow> bindo m f = bindo m' f'"
  by (cases m') auto

section \<open>State machines and their invariants\<close>

text \<open>
  Several components are closed under steps that may come in any order (system calls, interrupts,
  the interleavings of an interrupt with a poll). The reachability argument is made once here:
  an invariant that holds at the start and is kept by each step holds in every reachable state.
\<close>

inductive reach :: "('s \<Rightarrow> bool) \<Rightarrow> ('s \<Rightarrow> 's \<Rightarrow> bool) \<Rightarrow> 's \<Rightarrow> bool"
  for init :: "'s \<Rightarrow> bool" and step :: "'s \<Rightarrow> 's \<Rightarrow> bool" where
  reach_init: "init s \<Longrightarrow> reach init step s"
| reach_step: "reach init step s \<Longrightarrow> step s t \<Longrightarrow> reach init step t"

locale invariant_system =
  fixes init :: "'s \<Rightarrow> bool"
    and step :: "'s \<Rightarrow> 's \<Rightarrow> bool"
    and inv :: "'s \<Rightarrow> bool"
  assumes inv_init: "init s \<Longrightarrow> inv s"
    and inv_step: "inv s \<Longrightarrow> step s t \<Longrightarrow> inv t"
begin

lemma reach_inv: "reach init step s \<Longrightarrow> inv s"
  by (induction rule: reach.induct) (auto intro: inv_init inv_step)

lemma steps_inv: "step\<^sup>*\<^sup>* s t \<Longrightarrow> inv s \<Longrightarrow> inv t"
  by (induction rule: rtranclp_induct) (auto intro: inv_step)

end

section \<open>Circular search\<close>

text \<open>
  \<open>ring_dist n i j\<close> is how far \<open>j\<close> lies after \<open>i\<close> on a ring of \<open>n\<close> slots.
\<close>

definition ring_next :: "nat \<Rightarrow> nat \<Rightarrow> nat" where
  "ring_next n i = (i + 1) mod n"

lemma ring_next_less [simp]: "0 < n \<Longrightarrow> ring_next n i < n"
  by (simp add: ring_next_def)

lemma ring_next_pow_less: "i < n \<Longrightarrow> (ring_next n ^^ k) i = (i + k) mod n"
proof (induction k)
  case (Suc k)
  then show ?case by (simp add: ring_next_def mod_Suc_eq)
qed simp

lemma ring_cover:
  assumes i: "i < n" and j: "j < (n :: nat)"
  shows "\<exists>k. k < n \<and> (i + 1 + k) mod n = j"
proof -
  define k where "k = (if i < j then j - i - 1 else n + j - i - 1)"
  have "k < n" using i j by (auto simp: k_def)
  moreover have "(i + 1 + k) mod n = j"
  proof (cases "i < j")
    case True then show ?thesis using j by (simp add: k_def)
  next
    case False
    then have "i + 1 + k = n + j" using i j by (simp add: k_def)
    then show ?thesis using j by simp
  qed
  ultimately show ?thesis by blast
qed

end
