(* ===== verification/Byte_Memory.thy ===== *)
theory Byte_Memory
  imports Kernel_Prelude
begin

text \<open>
  The memory the kernel reads and writes through raw pointers: one byte per 64-bit virtual address.
  Volatile stores of a \<^verbatim>\<open>u64\<close>, pushes and pops are little-endian accesses of eight bytes;
  \<^verbatim>\<open>write_bytes\<close> and \<^verbatim>\<open>copy_nonoverlapping\<close> act on ranges of bytes. Address arithmetic wraps, as
  the hardware's does.
\<close>

type_synonym memory = "u64 \<Rightarrow> u8"

section \<open>Little-endian words\<close>

primrec read_le :: "nat \<Rightarrow> memory \<Rightarrow> u64 \<Rightarrow> u64" where
  "read_le 0 m a = 0"
| "read_le (Suc k) m a = ucast (m a) OR push_bit 8 (read_le k m (a + 1))"

primrec write_le :: "nat \<Rightarrow> memory \<Rightarrow> u64 \<Rightarrow> u64 \<Rightarrow> memory" where
  "write_le 0 m a v = m"
| "write_le (Suc k) m a v = (write_le k m (a + 1) (drop_bit 8 v))(a := ucast v)"

definition read64 :: "memory \<Rightarrow> u64 \<Rightarrow> u64" where
  "read64 m a = read_le 8 m a"

definition write64 :: "memory \<Rightarrow> u64 \<Rightarrow> u64 \<Rightarrow> memory" where
  "write64 m a v = write_le 8 m a v"

lemma bit_read_le:
  "bit (read_le k m a) n \<longleftrightarrow> n < 64 \<and> n < 8 * k \<and> bit (m (a + of_nat (n div 8))) (n mod 8)"
proof (induction k arbitrary: a n)
  case 0
  then show ?case by simp
next
  case (Suc k)
  show ?case
  proof (cases "n < 8")
    case True
    then show ?thesis by (simp add: bit_simps)
  next
    case False
    then have d: "n div 8 = Suc ((n - 8) div 8)" and m: "n mod 8 = (n - 8) mod 8"
      by (simp_all add: le_div_geq mod_if[of n])
    have "\<not> bit (m a) n" using False by (auto dest: bit_imp_le_length)
    then show ?thesis using False
      by (auto simp add: bit_simps Suc.IH d m add.assoc)
  qed
qed

lemma write_le_other: "k \<le> unat (b - a) \<Longrightarrow> write_le k m a v b = m b"
proof (induction k arbitrary: a v)
  case (Suc k)
  then have ne: "b - a \<noteq> 0" by auto
  have "b - (a + 1) = b - a - 1" by simp
  then have "unat (b - (a + 1)) = unat (b - a) - 1"
    using unat_minus_one[OF ne] by (simp only:)
  then have "k \<le> unat (b - (a + 1))" using Suc.prems by (simp only:)
  then show ?case using ne by (simp add: Suc.IH)
qed simp

lemma write_le_byte:
  "i < k \<Longrightarrow> k \<le> 8 \<Longrightarrow> write_le k m a v (a + of_nat i) = ucast (drop_bit (8 * i) v)"
proof (induction k arbitrary: a v i)
  case (Suc k)
  show ?case
  proof (cases i)
    case 0 then show ?thesis by simp
  next
    case (Suc j)
    have ne: "a + of_nat i \<noteq> a"
      using of_nat64_neq_0[of i] Suc Suc.prems by (simp del: of_nat_Suc)
    have e: "a + of_nat i = a + 1 + of_nat j" using Suc by simp
    have "write_le k m (a + 1) (drop_bit 8 v) (a + 1 + of_nat j)
        = ucast (drop_bit (8 * j) (drop_bit 8 v))"
      using Suc.IH[of j "a + 1" "drop_bit 8 v"] Suc.prems Suc by simp
    then show ?thesis using ne Suc unfolding e by (simp add: algebra_simps)
  qed
qed simp

lemma read64_write64_same [simp, mem_simps]: "read64 (write64 m a v) a = v"
  unfolding read64_def write64_def
  by (rule bit_word_eqI) (simp add: bit_read_le write_le_byte bit_simps)

lemma read_le_cong:
  "(\<And>i. i < k \<Longrightarrow> m (a + of_nat i) = m' (a + of_nat i)) \<Longrightarrow> read_le k m a = read_le k m' a"
  by (rule bit_word_eqI) (auto simp add: bit_read_le)

lemma read64_cong:
  "(\<And>i. i < 8 \<Longrightarrow> m (a + of_nat i) = m' (a + of_nat i)) \<Longrightarrow> read64 m a = read64 m' a"
  unfolding read64_def by (rule read_le_cong)

lemma write64_other: "8 \<le> unat (b - a) \<Longrightarrow> write64 m a v b = m b"
  unfolding write64_def by (rule write_le_other)

lemma unat_add_of_nat:
  "unat (d :: u64) + i < 2 ^ 64 \<Longrightarrow> unat (d + of_nat i) = unat d + i"
  by (simp add: unat_word_ariths unat_of_nat)

lemma read64_write64_other:
  assumes "8 \<le> unat (b - a)" "8 \<le> unat (a - b)"
  shows "read64 (write64 m a v) b = read64 m b"
proof (rule read64_cong)
  fix i :: nat assume i: "i < 8"
  have "b - a \<noteq> 0" using assms(1) by auto
  then have "unat (a - b) = 2 ^ 64 - unat (b - a)"
    using unat64_neg[of "b - a"] by simp
  then have le: "unat (b - a) + i < 2 ^ 64" using assms(2) i by linarith
  have "unat (b + of_nat i - a) = unat ((b - a) + of_nat i)" by (simp add: algebra_simps)
  then have "8 \<le> unat (b + of_nat i - a)"
    using unat_add_of_nat[OF le] assms(1) by simp
  then show "write64 m a v (b + of_nat i) = m (b + of_nat i)" by (rule write64_other)
qed

lemma read64_write64_above:
  assumes "0 < k" "k < 2 ^ 60"
  shows "read64 (write64 m a v) (a + of_nat (8 * k)) = read64 m (a + of_nat (8 * k))"
proof (rule read64_write64_other)
  let ?d = "of_nat (8 * k) :: u64"
  have u: "unat ?d = 8 * k" using assms by (intro unat_of_nat64) simp
  then have nz: "?d \<noteq> 0" using assms(1) by auto
  show "8 \<le> unat (a + ?d - a)" using u assms by simp
  have "unat (a - (a + ?d)) = 2 ^ 64 - 8 * k"
    using unat64_neg[OF nz] u by simp
  then show "8 \<le> unat (a - (a + ?d))" using assms by simp
qed

section \<open>Stack pushes and frames\<close>

text \<open>
  A push decrements the stack pointer by eight and stores below. \<open>frame m p n\<close> is the list of the
  \<open>n\<close> words at \<open>p\<close>, lowest address first, which is the order pops deliver them.
\<close>

fun push64 :: "memory \<times> u64 \<Rightarrow> u64 \<Rightarrow> memory \<times> u64" where
  "push64 (m, sp) v = (write64 m (sp - 8) v, sp - 8)"

definition push_all :: "memory \<times> u64 \<Rightarrow> u64 list \<Rightarrow> memory \<times> u64" where
  "push_all ms vs = foldl push64 ms vs"

definition frame :: "memory \<Rightarrow> u64 \<Rightarrow> nat \<Rightarrow> u64 list" where
  "frame m p n = map (\<lambda>i. read64 m (p + of_nat (8 * i))) [0..<n]"

lemma length_frame [simp]: "length (frame m p n) = n"
  by (simp add: frame_def)

lemma frame_0 [simp]: "frame m p 0 = []"
  by (simp add: frame_def)

lemma frame_Suc: "frame m p (Suc n) = read64 m p # frame m (p + 8) n"
  by (simp add: frame_def upt_conv_Cons map_Suc_upt[symmetric] add.assoc
      del: upt_Suc)

lemma frame_append: "frame m p (k + n) = frame m p k @ frame m (p + of_nat (8 * k)) n"
  by (induction k arbitrary: p) (simp_all add: frame_Suc add.assoc)

lemma frame_nth: "i < n \<Longrightarrow> frame m p n ! i = read64 m (p + of_nat (8 * i))"
  by (simp add: frame_def)

lemma frame_cong:
  "(\<And>i. i < 8 * n \<Longrightarrow> m (p + of_nat i) = m' (p + of_nat i)) \<Longrightarrow> frame m p n = frame m' p n"
proof -
  assume eq: "\<And>i. i < 8 * n \<Longrightarrow> m (p + of_nat i) = m' (p + of_nat i)"
  have "read64 m (p + of_nat (8 * i)) = read64 m' (p + of_nat (8 * i))" if "i < n" for i
  proof (rule read64_cong)
    fix j :: nat assume "j < 8"
    then have "8 * i + j < 8 * n" using that by simp
    from eq[OF this] show "m (p + of_nat (8 * i) + of_nat j) = m' (p + of_nat (8 * i) + of_nat j)"
      by (simp add: add.assoc)
  qed
  then show ?thesis by (simp add: frame_def)
qed

lemma push_all_Nil [simp]: "push_all ms [] = ms"
  by (simp add: push_all_def)

lemma push_all_append [simp]: "push_all ms (us @ vs) = push_all (push_all ms us) vs"
  by (simp add: push_all_def)

lemma push_all_Cons [simp]: "push_all ms (v # vs) = push_all (push64 ms v) vs"
  by (simp add: push_all_def)

lemma push_all_sp: "snd (push_all (m, sp) vs) = sp - of_nat (8 * length vs)"
  by (induction vs arbitrary: m sp) (simp_all add: diff_diff_eq)

lemma frame_write64_below:
  assumes "n < 2 ^ 59"
  shows "frame (write64 m (p - 8) v) p n = frame m p n"
proof -
  have "read64 (write64 m (p - 8) v) (p + of_nat (8 * i)) = read64 m (p + of_nat (8 * i))"
    if "i < n" for i
    using read64_write64_above[of "Suc i" m "p - 8" v] that assms by (simp add: algebra_simps)
  then show ?thesis by (simp add: frame_def)
qed

lemma push_all_frame:
  "length vs < 2 ^ 59 \<Longrightarrow>
   frame (fst (push_all (m, sp) vs)) (sp - of_nat (8 * length vs)) (length vs) = rev vs"
proof (induction vs rule: rev_induct)
  case (snoc v vs)
  obtain m' where st: "push_all (m, sp) vs = (m', sp - of_nat (8 * length vs))"
    using push_all_sp[of m sp vs] by (metis prod.collapse)
  let ?p = "sp - of_nat (8 * length vs)"
  have IH: "frame m' ?p (length vs) = rev vs" using snoc st by simp
  have e: "sp - of_nat (8 * length (vs @ [v])) = ?p - 8" by (simp add: algebra_simps)
  have "frame (write64 m' (?p - 8) v) (?p - 8) (Suc (length vs)) = v # rev vs"
    using frame_write64_below[of "length vs" m' ?p v] snoc.prems IH by (simp add: frame_Suc)
  then show ?case using st unfolding e by simp
qed simp

lemma push_all_other:
  "8 * length vs \<le> unat (x - (sp - of_nat (8 * length vs))) \<Longrightarrow> length vs < 2 ^ 59 \<Longrightarrow>
   fst (push_all (m, sp) vs) x = m x"
proof (induction vs rule: rev_induct)
  case (snoc v vs)
  obtain m' where st: "push_all (m, sp) vs = (m', sp - of_nat (8 * length vs))"
    using push_all_sp[of m sp vs] by (metis prod.collapse)
  let ?p = "sp - of_nat (8 * length vs)"
  let ?d = "x - (?p - 8)"
  have e: "sp - of_nat (8 * length (vs @ [v])) = ?p - 8" by (simp add: algebra_simps)
  have d: "8 * Suc (length vs) \<le> unat ?d" using snoc.prems(1) unfolding e by simp
  have "x - ?p = ?d - 8" by simp
  also have "unat (?d - 8) = unat ?d - 8"
    using d by (subst unat_sub) (simp_all add: word_le_nat_alt)
  finally have "8 * length vs \<le> unat (x - ?p)" using d by simp
  then have "fst (push_all (m, sp) vs) x = m x" using snoc by simp
  moreover have "write64 m' (?p - 8) v x = m' x" using d by (intro write64_other) simp
  ultimately show ?case using st by simp
qed simp

section \<open>Byte ranges\<close>

definition mem_fill :: "memory \<Rightarrow> u64 \<Rightarrow> u8 \<Rightarrow> nat \<Rightarrow> memory" where
  "mem_fill m a b n = (\<lambda>x. if unat (x - a) < n then b else m x)"

definition mem_copy :: "memory \<Rightarrow> u64 \<Rightarrow> u8 list \<Rightarrow> memory" where
  "mem_copy m a bs = (\<lambda>x. if unat (x - a) < length bs then bs ! unat (x - a) else m x)"

lemma mem_fill_at: "i < n \<Longrightarrow> n \<le> 2 ^ 64 \<Longrightarrow> mem_fill m a b n (a + of_nat i) = b"
  by (simp add: mem_fill_def)

lemma mem_fill_other: "n \<le> unat (x - a) \<Longrightarrow> mem_fill m a b n x = m x"
  by (simp add: mem_fill_def)

lemma mem_copy_at: "i < length bs \<Longrightarrow> length bs \<le> 2 ^ 64 \<Longrightarrow> mem_copy m a bs (a + of_nat i) = bs ! i"
  by (simp add: mem_copy_def)

lemma mem_copy_other: "length bs \<le> unat (x - a) \<Longrightarrow> mem_copy m a bs x = m x"
  by (simp add: mem_copy_def)

lemmas mem_range_simps = mem_fill_at mem_fill_other mem_copy_at mem_copy_other

end
