(* ===== verification/Naked_Asm.thy ===== *)
theory Naked_Asm
  imports Byte_Memory
begin

text \<open>
  The instructions the kernel's naked functions and \<^verbatim>\<open>asm!\<close> blocks use, with their effect on the
  registers and the memory, and what the processor itself does on \<^verbatim>\<open>syscall\<close> and on an interrupt.
  An assembly block of the source is a list of instructions; \<open>exec\<close> runs it. A call to a Rust
  function is a state transformer supplied with the instruction.
\<close>

section \<open>Processor state\<close>

datatype reg = RAX | RBX | RCX | RDX | RDI | RSI | RBP | RSP
  | R8 | R9 | R10 | R11 | R12 | R13 | R14 | R15

record cpu =
  regs :: "reg \<Rightarrow> u64"
  rip :: u64
  rflags :: u64
  cs :: u64
  ss :: u64
  cmem :: memory
  msr_star :: u64
  msr_lstar :: u64
  msr_sfmask :: u64
  efer_sce :: bool

datatype instr =
    Push reg
  | Pop reg
  | MovRR reg reg
  | MovImm reg u64
  | Store reg reg
  | Call "cpu \<Rightarrow> cpu"
  | Cli
  | Ret
  | Iretq
  | Sysretq

definition flag_IF :: u64 where
  "flag_IF = 0x200"

fun exec1 :: "instr \<Rightarrow> cpu \<Rightarrow> cpu" where
  "exec1 (Push r) c =
     c\<lparr>cmem := write64 (cmem c) (regs c RSP - 8) (regs c r),
       regs := (regs c)(RSP := regs c RSP - 8)\<rparr>"
| "exec1 (Pop r) c =
     c\<lparr>regs := (regs c)(RSP := regs c RSP + 8, r := read64 (cmem c) (regs c RSP))\<rparr>"
| "exec1 (MovRR d s) c = c\<lparr>regs := (regs c)(d := regs c s)\<rparr>"
| "exec1 (MovImm d v) c = c\<lparr>regs := (regs c)(d := v)\<rparr>"
| "exec1 (Store d s) c = c\<lparr>cmem := write64 (cmem c) (regs c d) (regs c s)\<rparr>"
| "exec1 (Call h) c = h c"
| "exec1 Cli c = c\<lparr>rflags := rflags c AND NOT flag_IF\<rparr>"
| "exec1 Ret c =
     c\<lparr>rip := read64 (cmem c) (regs c RSP), regs := (regs c)(RSP := regs c RSP + 8)\<rparr>"
| "exec1 Iretq c =
     c\<lparr>rip := read64 (cmem c) (regs c RSP),
       cs := read64 (cmem c) (regs c RSP + 8),
       rflags := read64 (cmem c) (regs c RSP + 16),
       regs := (regs c)(RSP := read64 (cmem c) (regs c RSP + 24)),
       ss := read64 (cmem c) (regs c RSP + 32)\<rparr>"
| "exec1 Sysretq c =
     c\<lparr>rip := regs c RCX,
       rflags := (regs c R11 AND 0x3C7FD7) OR 2,
       cs := (drop_bit 48 (msr_star c) + 16) OR 3,
       ss := (drop_bit 48 (msr_star c) + 8) OR 3\<rparr>"

definition exec :: "instr list \<Rightarrow> cpu \<Rightarrow> cpu" where
  "exec is c = fold exec1 is c"

lemma exec_Nil [simp]: "exec [] c = c"
  by (simp add: exec_def)

lemma exec_Cons [simp]: "exec (i # is) c = exec is (exec1 i c)"
  by (simp add: exec_def)

lemma exec_append [simp]: "exec (is @ js) c = exec js (exec is c)"
  by (simp add: exec_def)

section \<open>Runs of pushes and pops\<close>

lemma exec_pushes_regs:
  "RSP \<notin> set rs \<Longrightarrow>
   regs (exec (map Push rs) c) = (regs c)(RSP := regs c RSP - of_nat (8 * length rs))"
  by (induction rs arbitrary: c) (simp_all add: diff_diff_eq)

lemma exec_pushes_mem:
  "RSP \<notin> set rs \<Longrightarrow>
   cmem (exec (map Push rs) c) = fst (push_all (cmem c, regs c RSP) (map (regs c) rs))"
proof (induction rs arbitrary: c)
  case (Cons r rs)
  let ?c = "exec1 (Push r) c"
  have regs: "map (regs ?c) rs = map (regs c) rs" using Cons.prems by auto
  have "cmem (exec (map Push rs) ?c) = fst (push_all (cmem ?c, regs ?c RSP) (map (regs c) rs))"
    using Cons.IH[of ?c] Cons.prems unfolding regs by simp
  then show ?case by simp
qed simp

lemmas exec_pushes = exec_pushes_regs exec_pushes_mem

lemma exec_pops:
  assumes "RSP \<notin> set rs" "distinct rs"
  shows "regs (exec (map Pop rs) c) =
     (\<lambda>r. if r = RSP then regs c RSP + of_nat (8 * length rs)
        else (case map_of (zip rs (frame (cmem c) (regs c RSP) (length rs))) r of
                None \<Rightarrow> regs c r | Some v \<Rightarrow> v))"
  using assms
proof (induction rs arbitrary: c)
  case Nil
  show ?case by (simp add: fun_eq_iff)
next
  case (Cons r rs)
  let ?c = "exec1 (Pop r) c"
  have r: "r \<noteq> RSP" "r \<notin> set rs" using Cons.prems by auto
  have none: "map_of (zip rs ys) r = None" if "length ys = length rs" for ys :: "u64 list"
    using r that by (simp add: map_of_zip_is_None)
  have "regs (exec (map Pop rs) ?c) =
     (\<lambda>q. if q = RSP then regs ?c RSP + of_nat (8 * length rs)
        else (case map_of (zip rs (frame (cmem ?c) (regs ?c RSP) (length rs))) q of
                None \<Rightarrow> regs ?c q | Some v \<Rightarrow> v))"
    using Cons.prems by (intro Cons.IH) simp_all
  moreover have "regs ?c = (regs c)(RSP := regs c RSP + 8, r := read64 (cmem c) (regs c RSP))"
    and "cmem ?c = cmem c" by simp_all
  ultimately show ?case using r unfolding list.map exec_Cons
    by (auto simp: fun_eq_iff frame_Suc none split: option.splits)
qed

lemma pops_keep:
  "cmem (exec (map Pop rs) c) = cmem c"
  "msr_star (exec (map Pop rs) c) = msr_star c"
  by (induction rs arbitrary: c) simp_all

lemma pushes_keep: "msr_star (exec (map Push rs) c) = msr_star c"
  by (induction rs arbitrary: c) simp_all

lemma pops_deliver:
  assumes "RSP \<notin> set rs" "distinct rs"
  shows "map (regs (exec (map Pop rs) c)) rs = frame (cmem c) (regs c RSP) (length rs)"
proof (rule nth_equalityI)
  fix i assume "i < length (map (regs (exec (map Pop rs) c)) rs)"
  then have i: "i < length rs" by simp
  then have "rs ! i \<noteq> RSP" using assms(1) by (metis nth_mem)
  moreover have "map_of (zip rs (frame (cmem c) (regs c RSP) (length rs))) (rs ! i)
      = Some (frame (cmem c) (regs c RSP) (length rs) ! i)"
    using i assms(2) by (simp add: map_of_zip_nth)
  ultimately show "map (regs (exec (map Pop rs) c)) rs ! i
      = frame (cmem c) (regs c RSP) (length rs) ! i"
    using assms i by (simp add: exec_pops)
qed simp

lemma pops_other:
  assumes "RSP \<notin> set rs" "distinct rs"
  shows "regs (exec (map Pop rs) c) RSP = regs c RSP + of_nat (8 * length rs)"
    and "r \<notin> set rs \<Longrightarrow> r \<noteq> RSP \<Longrightarrow> regs (exec (map Pop rs) c) r = regs c r"
  using assms by (auto simp: exec_pops split: option.splits dest!: map_of_SomeD set_zip_leftD)

lemma pushes_frame:
  assumes "RSP \<notin> set rs" "length rs < 2 ^ 59"
  shows "frame (cmem (exec (map Push rs) c)) (regs c RSP - of_nat (8 * length rs)) (length rs)
      = map (regs c) (rev rs)"
  using push_all_frame[of "map (regs c) rs" "cmem c" "regs c RSP"] assms
  by (simp add: exec_pushes rev_map)

lemma push_all_keep_above:
  assumes "length vs + n < 2 ^ 59"
  shows "frame (fst (push_all (m, sp) vs)) sp n = frame m sp n"
proof (rule frame_cong)
  fix i :: nat assume i: "i < 8 * n"
  let ?x = "sp + of_nat i"
  have "?x - (sp - of_nat (8 * length vs)) = of_nat (8 * length vs + i)" by simp
  moreover have "unat (of_nat (8 * length vs + i) :: u64) = 8 * length vs + i"
    using assms i by (intro unat_of_nat64) simp
  ultimately have "8 * length vs \<le> unat (?x - (sp - of_nat (8 * length vs)))"
    by (simp only: le_add1)
  then show "fst (push_all (m, sp) vs) ?x = m ?x"
    using assms by (intro push_all_other) simp_all
qed

lemma pushes_keep_above:
  assumes "RSP \<notin> set rs" "length rs + n < 2 ^ 59"
  shows "frame (cmem (exec (map Push rs) c)) (regs c RSP) n = frame (cmem c) (regs c RSP) n"
  using assms push_all_keep_above[of "map (regs c) rs" n] by (simp add: exec_pushes)

section \<open>What the processor does on its own\<close>

text \<open>
  An interrupt through a gate without an IST entry. From ring 3 the stack is the one in the TSS
  (\<open>rsp0\<close>), otherwise the current one; it is aligned to 16 bytes and receives SS, RSP, RFLAGS, CS,
  RIP and, for some exceptions, an error code.
\<close>

definition hw_interrupt :: "u64 \<Rightarrow> u64 \<Rightarrow> u64 \<Rightarrow> u64 option \<Rightarrow> cpu \<Rightarrow> cpu" where
  "hw_interrupt kcs rsp0 handler err c =
     (let user = (cs c AND 3 = 3);
          top = (if user then rsp0 else regs c RSP) AND NOT 15;
          words = [ss c, regs c RSP, rflags c, cs c, rip c]
                    @ (case err of None \<Rightarrow> [] | Some e \<Rightarrow> [e]);
          (m, sp) = push_all (cmem c, top) words
      in c\<lparr>cmem := m, regs := (regs c)(RSP := sp), rip := handler, cs := kcs,
           ss := (if user then 0 else ss c), rflags := rflags c AND NOT flag_IF\<rparr>)"

text \<open>The \<^verbatim>\<open>syscall\<close> instruction: no stack switch, no memory access.\<close>

definition hw_syscall :: "cpu \<Rightarrow> cpu" where
  "hw_syscall c =
     c\<lparr>regs := (regs c)(RCX := rip c, R11 := rflags c), rip := msr_lstar c,
       rflags := rflags c AND NOT (msr_sfmask c),
       cs := drop_bit 32 (msr_star c) AND 0xFFFC,
       ss := (drop_bit 32 (msr_star c) AND 0xFFFF) + 8\<rparr>"

section \<open>Calls into Rust\<close>

text \<open>
  What an assembly block relies on when it calls a Rust function under the System V ABI: the stack
  pointer and the callee-saved registers come back unchanged, and so do the words the block keeps at
  and above the stack pointer.
\<close>

definition callee_saved :: "reg list" where
  "callee_saved = [RBX, RBP, R12, R13, R14, R15]"

locale sysv_call =
  fixes h :: "cpu \<Rightarrow> cpu"
    and depth :: nat
  assumes call_rsp: "regs (h c) RSP = regs c RSP"
    and call_saved: "r \<in> set callee_saved \<Longrightarrow> regs (h c) r = regs c r"
    and call_frame: "n \<le> depth \<Longrightarrow> frame (cmem (h c)) (regs c RSP) n = frame (cmem c) (regs c RSP) n"
    and call_star: "msr_star (h c) = msr_star c"

text \<open>
  The model of a call to a Rust function of up to three word arguments: the result in RAX, the
  scratch registers and every byte outside the \<open>8 * depth\<close> bytes at the stack pointer arbitrary.
\<close>

definition rust_call :: "(u64 \<Rightarrow> u64 \<Rightarrow> u64 \<Rightarrow> u64) \<Rightarrow> (reg \<Rightarrow> u64) \<Rightarrow> memory \<Rightarrow> nat \<Rightarrow> cpu \<Rightarrow> cpu" where
  "rust_call f junk scratch depth c =
     c\<lparr>regs := (\<lambda>r. if r = RAX then f (regs c RDI) (regs c RSI) (regs c RDX)
                   else if r = RSP \<or> r \<in> set callee_saved then regs c r else junk r),
       cmem := (\<lambda>x. if unat (x - regs c RSP) < 8 * depth then cmem c x else scratch x)\<rparr>"

lemma rust_call_frame:
  assumes "n \<le> depth" "depth < 2 ^ 59"
  shows "frame (cmem (rust_call f junk scratch depth c)) (regs c RSP) n
      = frame (cmem c) (regs c RSP) n"
proof (rule frame_cong)
  fix i :: nat assume "i < 8 * n"
  then have i: "i < 8 * depth" "i < 2 ^ 64" using assms by simp_all
  have "regs c RSP + of_nat i - regs c RSP = (of_nat i :: u64)" by simp
  then have "unat (regs c RSP + of_nat i - regs c RSP) < 8 * depth"
    using unat_of_nat64[OF i(2)] i(1) by simp
  then show "cmem (rust_call f junk scratch depth c) (regs c RSP + of_nat i)
      = cmem c (regs c RSP + of_nat i)"
    by (simp add: rust_call_def)
qed

lemma rust_call_sysv: "depth < 2 ^ 59 \<Longrightarrow> sysv_call (rust_call f junk scratch depth) depth"
proof
  fix c n r
  show "regs (rust_call f junk scratch depth c) RSP = regs c RSP"
    by (simp add: rust_call_def)
  show "r \<in> set callee_saved \<Longrightarrow> regs (rust_call f junk scratch depth c) r = regs c r"
    by (auto simp: rust_call_def callee_saved_def)
  show "msr_star (rust_call f junk scratch depth c) = msr_star c"
    by (simp add: rust_call_def)
qed (rule rust_call_frame)

lemma rust_call_result:
  "regs (rust_call f junk scratch depth c) RAX = f (regs c RDI) (regs c RSI) (regs c RDX)"
  by (simp add: rust_call_def)

end
