(* ===== verification/Entry_Stubs.thy ===== *)
theory Entry_Stubs
  imports Naked_Asm
begin

text \<open>
  The assembly entry and exit paths of the kernel, instruction by instruction: the interrupt wrapper
  of \<^verbatim>\<open>interrupts.rs\<close>, \<^verbatim>\<open>fork_ret\<close>, the first jump into a process of \<^verbatim>\<open>main.rs\<close>, the system call entry,
  \<^verbatim>\<open>switch_context\<close> and \<^verbatim>\<open>jump_to_user_mode\<close>. The lemmas say which words lie where in the saved frame
  and that leaving through the same frame restores the interrupted context exactly.
\<close>

section \<open>The blocks\<close>

definition wrapper_pushes :: "reg list" where
  "wrapper_pushes =
     [RAX, RBX, RCX, RDX, RDI, RSI, RBP, R8, R9, R10, R11, R12, R13, R14, R15]"

definition wrapper_pops :: "reg list" where
  "wrapper_pops =
     [R15, R14, R13, R12, R11, R10, R9, R8, RBP, RSI, RDI, RDX, RCX, RBX, RAX]"

definition handler_wrapper :: "(cpu \<Rightarrow> cpu) \<Rightarrow> instr list" where
  "handler_wrapper inner =
     map Push wrapper_pushes
     @ [MovRR RDI RSP, Call inner, MovRR RSP RAX]
     @ map Pop wrapper_pops
     @ [Iretq]"

definition fork_ret :: "instr list" where
  "fork_ret = map Pop wrapper_pops @ [Iretq]"

definition first_jump :: "u64 \<Rightarrow> instr list" where
  "first_jump first_rsp = [MovImm RSP first_rsp] @ map Pop wrapper_pops @ [Iretq]"

definition syscall_pushes :: "reg list" where
  "syscall_pushes =
     [R11, RCX, RBP, RBX, RDI, RSI, RDX, R10, R8, R9, R12, R13, R14, R15]"

definition syscall_pops :: "reg list" where
  "syscall_pops =
     [R15, R14, R13, R12, R9, R8, R10, RDX, RSI, RDI, RBX, RBP, RCX, R11]"

definition syscall_entry :: "(cpu \<Rightarrow> cpu) \<Rightarrow> instr list" where
  "syscall_entry handler =
     map Push syscall_pushes
     @ [MovRR RDX RSI, MovRR RSI RDI, MovRR RDI RAX, Call handler]
     @ map Pop syscall_pops
     @ [Sysretq]"

definition switch_pushes :: "reg list" where
  "switch_pushes = [RBP, RBX, R12, R13, R14, R15]"

definition switch_pops :: "reg list" where
  "switch_pops = [R15, R14, R13, R12, RBX, RBP]"

definition switch_context :: "instr list" where
  "switch_context =
     map Push switch_pushes
     @ [Store RDI RSP, MovRR RSP RSI]
     @ map Pop switch_pops
     @ [Ret]"

definition umode_pushes :: "reg list" where
  "umode_pushes = [RAX, RBX, RCX, RDX, RBP]"

definition jump_to_user_mode :: "instr list" where
  "jump_to_user_mode =
     [Cli, MovImm RAX 0x2b, MovRR RBX RSI, MovImm RCX 0x202, MovImm RDX 0x33, MovRR RBP RDI]
     @ map Push umode_pushes
     @ [Iretq]"

section \<open>The saved context\<close>

text \<open>
  The context of an interrupted program as the twenty words of its frame, lowest address first.
\<close>

definition saved_ctx :: "cpu \<Rightarrow> u64 list" where
  "saved_ctx c = map (regs c) wrapper_pops @ [rip c, cs c, rflags c, regs c RSP, ss c]"

lemma wrapper_pops_rev: "wrapper_pops = rev wrapper_pushes"
  by (simp add: wrapper_pops_def wrapper_pushes_def)

lemma syscall_pops_rev: "syscall_pops = rev syscall_pushes"
  by (simp add: syscall_pops_def syscall_pushes_def)

lemma wrapper_regs [simp]:
  "RSP \<notin> set wrapper_pops" "distinct wrapper_pops" "length wrapper_pops = 15"
  "RSP \<notin> set wrapper_pushes" "length wrapper_pushes = 15"
  by (simp_all add: wrapper_pops_def wrapper_pushes_def)

lemma syscall_regs [simp]:
  "RSP \<notin> set syscall_pops" "distinct syscall_pops" "length syscall_pops = 14"
  "RSP \<notin> set syscall_pushes" "length syscall_pushes = 14"
  by (simp_all add: syscall_pops_def syscall_pushes_def)

lemma switch_pops_rev: "switch_pops = rev switch_pushes"
  by (simp add: switch_pops_def switch_pushes_def)

lemma switch_regs [simp]:
  "RSP \<notin> set switch_pops" "distinct switch_pops" "length switch_pops = 6"
  "RSP \<notin> set switch_pushes" "length switch_pushes = 6" "RDI \<notin> set switch_pushes"
  by (simp_all add: switch_pops_def switch_pushes_def)

lemma umode_regs [simp]: "RSP \<notin> set umode_pushes" "length umode_pushes = 5"
  by (simp_all add: umode_pushes_def)

lemma all_regs: "set wrapper_pops \<union> {RSP} = UNIV"
proof -
  have "r \<in> set wrapper_pops \<union> {RSP}" for r
    by (cases r) (simp_all add: wrapper_pops_def)
  then show ?thesis by blast
qed

text \<open>Equal saved contexts are equal programs: every register, the pointer and the flags agree.\<close>

lemma saved_ctx_inject:
  assumes "saved_ctx c = saved_ctx c'"
  shows "regs c = regs c'" "rip c = rip c'" "cs c = cs c'" "rflags c = rflags c'" "ss c = ss c'"
proof -
  have tail: "[rip c, cs c, rflags c, regs c RSP, ss c] = [rip c', cs c', rflags c', regs c' RSP, ss c']"
    and hd: "map (regs c) wrapper_pops = map (regs c') wrapper_pops"
    using assms unfolding saved_ctx_def by (simp_all del: map_eq_conv)
  have "regs c r = regs c' r" for r
  proof (cases "r = RSP")
    case False
    then have "r \<in> set wrapper_pops" using all_regs by auto
    then show ?thesis using hd by simp
  qed (use tail in simp)
  then show "regs c = regs c'" by (rule ext)
qed (use assms in \<open>simp_all add: saved_ctx_def\<close>)

section \<open>Leaving through a frame\<close>

lemma restore_frame:
  "saved_ctx (exec (map Pop wrapper_pops @ [Iretq]) c) = frame (cmem c) (regs c RSP) 20"
proof -
  let ?c = "exec (map Pop wrapper_pops) c"
  have rsp: "regs ?c RSP = regs c RSP + 120"
    using pops_other(1)[of wrapper_pops c] by simp
  have "map (regs (exec1 Iretq ?c)) wrapper_pops = map (regs ?c) wrapper_pops"
    by (simp add: wrapper_pops_def)
  also have "\<dots> = frame (cmem c) (regs c RSP) 15"
    using pops_deliver[of wrapper_pops c] by simp
  finally have gprs: "map (regs (exec1 Iretq ?c)) wrapper_pops = frame (cmem c) (regs c RSP) 15" .
  have split: "frame (cmem c) (regs c RSP) 20
      = frame (cmem c) (regs c RSP) 15 @ frame (cmem c) (regs c RSP + 120) 5"
    using frame_append[of "cmem c" "regs c RSP" 15 5] by simp
  have "frame (cmem c) (regs c RSP + 120) 5
      = [rip (exec1 Iretq ?c), cs (exec1 Iretq ?c), rflags (exec1 Iretq ?c),
         regs (exec1 Iretq ?c) RSP, ss (exec1 Iretq ?c)]"
    by (simp add: eval_nat_numeral frame_Suc rsp pops_keep add.assoc)
  then show ?thesis unfolding split saved_ctx_def exec_append exec_Cons exec_Nil gprs by simp
qed

section \<open>Entering through the wrapper\<close>

lemma hw_interrupt_regs:
  "r \<noteq> RSP \<Longrightarrow> regs (hw_interrupt kcs rsp0 hnd err c) r = regs c r"
  by (simp add: hw_interrupt_def Let_def split_beta)

lemma hw_interrupt_star: "msr_star (hw_interrupt kcs rsp0 hnd err c) = msr_star c"
  by (simp add: hw_interrupt_def Let_def split_beta)

lemma wrapper_entry_gprs:
  "frame (cmem (exec (map Push wrapper_pushes) c)) (regs c RSP - 120) 15
     = map (regs c) wrapper_pops"
  using pushes_frame[of wrapper_pushes c] by (simp add: wrapper_pops_rev)

lemma wrapper_entry_frame:
  assumes "n < 2 ^ 58"
  shows "frame (cmem (exec (map Push wrapper_pushes) c)) (regs c RSP - 120) (15 + n)
     = map (regs c) wrapper_pops @ frame (cmem c) (regs c RSP) n"
proof -
  have "frame (cmem (exec (map Push wrapper_pushes) c)) (regs c RSP) n = frame (cmem c) (regs c RSP) n"
    using assms by (intro pushes_keep_above) simp_all
  then show ?thesis
    using frame_append[of "cmem (exec (map Push wrapper_pushes) c)" "regs c RSP - 120" 15 n]
    by (simp add: wrapper_entry_gprs)
qed

lemma hw_interrupt_frame:
  "frame (cmem (hw_interrupt kcs rsp0 hnd err c)) (regs (hw_interrupt kcs rsp0 hnd err c) RSP)
      (case err of None \<Rightarrow> 5 | Some _ \<Rightarrow> 6)
   = (case err of None \<Rightarrow> [] | Some e \<Rightarrow> [e]) @ [rip c, cs c, rflags c, regs c RSP, ss c]"
proof -
  define top where "top = (if cs c AND 3 = 3 then rsp0 else regs c RSP) AND NOT 15"
  define ws where "ws = [ss c, regs c RSP, rflags c, cs c, rip c]
      @ (case err of None \<Rightarrow> [] | Some e \<Rightarrow> [e])"
  have sp: "regs (hw_interrupt kcs rsp0 hnd err c) RSP = top - of_nat (8 * length ws)"
    and m: "cmem (hw_interrupt kcs rsp0 hnd err c) = fst (push_all (cmem c, top) ws)"
    unfolding hw_interrupt_def top_def[symmetric] ws_def[symmetric] Let_def split_beta
    by (simp_all add: push_all_sp)
  have "length ws = (case err of None \<Rightarrow> 5 | Some _ \<Rightarrow> 6)"
    by (simp add: ws_def split: option.split)
  moreover have "length ws < 2 ^ 59" by (simp add: ws_def split: option.split)
  ultimately show ?thesis
    using push_all_frame[of ws "cmem c" top] unfolding sp m
    by (simp add: ws_def split: option.splits)
qed

text \<open>The frame the Rust handler is given a pointer to.\<close>

definition wrapper_frame :: "cpu \<Rightarrow> memory \<times> u64" where
  "wrapper_frame c = (cmem (exec (map Push wrapper_pushes) c), regs c RSP - 120)"

lemma interrupted_frame:
  "wrapper_frame (hw_interrupt kcs rsp0 hnd None c) = (m, p) \<Longrightarrow> frame m p 20 = saved_ctx c"
  using wrapper_entry_frame[of 5 "hw_interrupt kcs rsp0 hnd None c"]
    hw_interrupt_frame[of kcs rsp0 hnd None c]
  by (auto simp: wrapper_frame_def saved_ctx_def hw_interrupt_regs wrapper_pops_def)

context sysv_call
begin

lemma wrapper_exit:
  assumes "depth \<ge> 20"
  shows "\<exists>c1. regs c1 RDI = regs c RSP - 120 \<and> regs c1 RSP = regs c RSP - 120
      \<and> cmem c1 = cmem (exec (map Push wrapper_pushes) c)
      \<and> cmem (exec (handler_wrapper h) c) = cmem (h c1)
      \<and> saved_ctx (exec (handler_wrapper h) c) = frame (cmem (h c1)) (regs (h c1) RAX) 20"
proof -
  define c1 where "c1 = exec (map Push wrapper_pushes @ [MovRR RDI RSP]) c"
  have "exec (handler_wrapper h) c
      = exec (map Pop wrapper_pops @ [Iretq]) (exec1 (MovRR RSP RAX) (h c1))"
    by (simp add: handler_wrapper_def c1_def)
  then have "saved_ctx (exec (handler_wrapper h) c) = frame (cmem (h c1)) (regs (h c1) RAX) 20"
    by (simp only: restore_frame) simp
  moreover have "cmem (exec (handler_wrapper h) c) = cmem (h c1)"
    by (simp add: handler_wrapper_def c1_def pops_keep)
  moreover have "regs c1 RDI = regs c RSP - 120" "regs c1 RSP = regs c RSP - 120"
    "cmem c1 = cmem (exec (map Push wrapper_pushes) c)"
    by (simp_all add: c1_def exec_pushes_regs)
  ultimately show ?thesis by blast
qed

text \<open>A handler that hands back the pointer it was given resumes exactly what it interrupted.\<close>

lemma wrapper_transparent:
  assumes "depth \<ge> 20" and same: "\<And>c1. regs (h c1) RAX = regs c1 RDI"
  shows "saved_ctx (exec (handler_wrapper h) c)
      = map (regs c) wrapper_pops @ frame (cmem c) (regs c RSP) 5"
proof -
  obtain c1 where c1: "regs c1 RDI = regs c RSP - 120" "regs c1 RSP = regs c RSP - 120"
    "cmem c1 = cmem (exec (map Push wrapper_pushes) c)"
    and ctx: "saved_ctx (exec (handler_wrapper h) c) = frame (cmem (h c1)) (regs (h c1) RAX) 20"
    using wrapper_exit[OF assms(1)] by blast
  have "frame (cmem (h c1)) (regs c1 RSP) 20 = frame (cmem c1) (regs c1 RSP) 20"
    using assms(1) by (rule call_frame)
  then show ?thesis
    unfolding ctx same c1 using wrapper_entry_frame[of 5 c] by simp
qed

end

interpretation rust: sysv_call "rust_call f junk scratch 20" 20 for f junk scratch
  by (rule rust_call_sysv) simp

section \<open>Interrupts\<close>

text \<open>
  C13. Preemption is transparent: when an interrupt without an error code arrives, the wrapper saves
  the context, calls its Rust handler with a pointer to the frame, and the handler hands that pointer
  back, then the interrupted program continues with every register, RIP, CS, RFLAGS, RSP and SS as
  they were, whatever the handler did to the scratch registers and to the rest of the memory.
\<close>

theorem preemption_transparent:
  "saved_ctx (exec (handler_wrapper (rust_call (\<lambda>rsp _ _. rsp) junk scratch 20))
      (hw_interrupt kcs rsp0 hnd None c)) = saved_ctx c"
proof -
  let ?i = "hw_interrupt kcs rsp0 hnd None c"
  have "saved_ctx (exec (handler_wrapper (rust_call (\<lambda>rsp _ _. rsp) junk scratch 20)) ?i)
      = map (regs ?i) wrapper_pops @ frame (cmem ?i) (regs ?i RSP) 5"
    by (rule rust.wrapper_transparent) (simp_all add: rust_call_result)
  then show ?thesis
    using hw_interrupt_frame[of kcs rsp0 hnd None c]
    by (simp add: saved_ctx_def hw_interrupt_regs wrapper_pops_def)
qed

text \<open>
  A handler that returns another stack pointer \<open>q\<close> switches: the processor leaves the wrapper with
  exactly the context stored in the twenty words at \<open>q\<close> in the memory the handler left, in the order
  r15 .. rax, RIP, CS, RFLAGS, RSP, SS. This holds of any interrupt, with or without an error code.
\<close>

lemma preemption_switches:
  "let c' = exec (handler_wrapper (rust_call (\<lambda>_ _ _. q) junk scratch 20))
              (hw_interrupt kcs rsp0 hnd err c)
   in saved_ctx c' = frame (cmem c') q 20"
proof -
  let ?i = "hw_interrupt kcs rsp0 hnd err c"
  let ?h = "rust_call (\<lambda>_ _ _. q) junk scratch 20"
  obtain c1 where "cmem (exec (handler_wrapper ?h) ?i) = cmem (?h c1)"
    "saved_ctx (exec (handler_wrapper ?h) ?i) = frame (cmem (?h c1)) (regs (?h c1) RAX) 20"
    using rust.wrapper_exit[where f = "\<lambda>_ _ _. q" and junk = junk and scratch = scratch and c = ?i]
    by auto
  then show ?thesis by (simp add: rust_call_result)
qed

text \<open>
  C34. An exception that pushes an error code does not fit the wrapper: it never drops the code, so
  resuming the interrupted context (which the scheduler does when it finds no other task) leaves with
  the error code as RIP, the old RIP as CS, the old CS as RFLAGS, the old RFLAGS as stack pointer and
  the old stack pointer as SS.
\<close>

theorem error_code_shifts_frame:
  "let c' = exec (handler_wrapper (rust_call (\<lambda>rsp _ _. rsp) junk scratch 20))
              (hw_interrupt kcs rsp0 hnd (Some e) c)
   in rip c' = e \<and> cs c' = rip c \<and> rflags c' = cs c \<and> regs c' RSP = rflags c \<and> ss c' = regs c RSP"
proof -
  let ?i = "hw_interrupt kcs rsp0 hnd (Some e) c"
  have ctx: "saved_ctx (exec (handler_wrapper (rust_call (\<lambda>rsp _ _. rsp) junk scratch 20)) ?i)
      = map (regs ?i) wrapper_pops @ frame (cmem ?i) (regs ?i RSP) 5"
    by (rule rust.wrapper_transparent) (simp_all add: rust_call_result)
  have "frame (cmem ?i) (regs ?i RSP) 6 = [e, rip c, cs c, rflags c, regs c RSP, ss c]"
    using hw_interrupt_frame[of kcs rsp0 hnd "Some e" c] by simp
  moreover have "frame (cmem ?i) (regs ?i RSP) 6
      = frame (cmem ?i) (regs ?i RSP) 5 @ frame (cmem ?i) (regs ?i RSP + 40) 1"
    using frame_append[of "cmem ?i" "regs ?i RSP" 5 1] by simp
  ultimately have "frame (cmem ?i) (regs ?i RSP) 5 = [e, rip c, cs c, rflags c, regs c RSP]"
    by (simp add: eval_nat_numeral frame_Suc)
  then show ?thesis using ctx by (simp add: saved_ctx_def wrapper_pops_def)
qed

section \<open>System calls\<close>

lemma all_syscall_regs: "set syscall_pops \<union> {RSP, RAX} = UNIV"
proof -
  have "r \<in> set syscall_pops \<union> {RSP, RAX}" for r
    by (cases r) (simp_all add: syscall_pops_def)
  then show ?thesis by blast
qed

lemma pops_restore:
  assumes "RSP \<notin> set rs" "distinct rs" "r \<in> set rs"
    and "frame (cmem c) (regs c RSP) (length rs) = map f rs"
  shows "regs (exec (map Pop rs) c) r = f r"
  using pops_deliver[OF assms(1,2), of c] assms(3,4) by simp

text \<open>What the stub's calls hand over and what the pops bring back, for any handler.\<close>

lemma syscall_entry_exec:
  obtains c2 where "exec (syscall_entry (rust_call f junk scratch 20)) c = exec1 Sysretq c2"
    and "regs c2 = (regs c)(RAX := f (regs c RAX) (regs c RDI) (regs c RSI))"
    and "msr_star c2 = msr_star c"
proof -
  let ?h = "rust_call f junk scratch 20"
  define c1 where
    "c1 = exec (map Push syscall_pushes @ [MovRR RDX RSI, MovRR RSI RDI, MovRR RDI RAX]) c"
  define c2 where "c2 = exec (map Pop syscall_pops) (?h c1)"
  have c1: "regs c1 RDI = regs c RAX" "regs c1 RSI = regs c RDI" "regs c1 RDX = regs c RSI"
    "regs c1 RSP = regs c RSP - 112" "cmem c1 = cmem (exec (map Push syscall_pushes) c)"
    "msr_star c1 = msr_star c"
    by (simp_all add: c1_def exec_pushes_regs pushes_keep)
  have rsp: "regs (?h c1) RSP = regs c RSP - 112"
    using rust.call_rsp[of f junk scratch c1] c1 by simp
  have "frame (cmem (?h c1)) (regs (?h c1) RSP) 14 = map (regs c) syscall_pops"
    using pushes_frame[of syscall_pushes c] rust.call_frame[of 14 f junk scratch c1] c1 rsp
    by (simp add: syscall_pops_rev)
  then have saved: "r \<in> set syscall_pops \<Longrightarrow> regs c2 r = regs c r" for r
    unfolding c2_def by (intro pops_restore) simp_all
  have rax: "regs c2 RAX = f (regs c RAX) (regs c RDI) (regs c RSI)"
    unfolding c2_def using c1 pops_other(2)[of syscall_pops RAX "?h c1"]
    by (simp add: rust_call_result) (simp add: syscall_pops_def)
  have "regs c2 RSP = regs c RSP"
    unfolding c2_def using rsp pops_other(1)[of syscall_pops "?h c1"] by simp
  moreover have "r \<in> set syscall_pops \<or> r = RSP \<or> r = RAX" for r
    using all_syscall_regs by blast
  ultimately have "regs c2 r = ((regs c)(RAX := f (regs c RAX) (regs c RDI) (regs c RSI))) r" for r
    using saved[of r] rax by (metis fun_upd_def)
  then have "regs c2 = (regs c)(RAX := f (regs c RAX) (regs c RDI) (regs c RSI))"
    by (rule ext)
  moreover have "msr_star c2 = msr_star c"
    unfolding c2_def using c1 rust.call_star[of f junk scratch c1] by (simp add: pops_keep)
  moreover have "exec (syscall_entry ?h) c = exec1 Sysretq c2"
    by (simp add: syscall_entry_def c1_def c2_def)
  ultimately show thesis by (rule that[rotated])
qed

text \<open>
  C16. A system call returns to the instruction after \<^verbatim>\<open>syscall\<close> with the handler's result in RAX, the
  arguments passed as RAX, RDI, RSI, RCX and R11 holding the return address and flags, and every other
  register, the stack pointer included, unchanged.
\<close>

theorem syscall_preserves_registers:
  "let c' = exec (syscall_entry (rust_call f junk scratch 20)) (hw_syscall c)
   in regs c' = (regs c)(RAX := f (regs c RAX) (regs c RDI) (regs c RSI),
                         RCX := rip c, R11 := rflags c)
      \<and> rip c' = rip c \<and> rflags c' = (rflags c AND 0x3C7FD7) OR 2"
proof -
  obtain c2 where "exec (syscall_entry (rust_call f junk scratch 20)) (hw_syscall c) = exec1 Sysretq c2"
    "regs c2 = (regs (hw_syscall c))(RAX := f (regs (hw_syscall c) RAX) (regs (hw_syscall c) RDI)
        (regs (hw_syscall c) RSI))"
    by (rule syscall_entry_exec)
  then show ?thesis by (simp add: hw_syscall_def fun_eq_iff)
qed

text \<open>
  The \<^verbatim>\<open>syscall\<close> instruction keeps the user's stack pointer and the entry stub never loads another
  one: the kernel pushes its fourteen words below the address the program chose, in ring 0 and
  whatever that address is.
\<close>

lemma syscall_runs_on_user_stack:
  "let c1 = exec (map Push syscall_pushes) (hw_syscall c)
   in regs c1 RSP = regs c RSP - 112
      \<and> frame (cmem c1) (regs c RSP - 112) 14
        = map ((regs c)(RCX := rip c, R11 := rflags c)) syscall_pops"
  using pushes_frame[of syscall_pushes "hw_syscall c"]
  by (simp add: exec_pushes_regs syscall_pops_rev) (simp add: hw_syscall_def syscall_pushes_def)

section \<open>Other stack switches\<close>

text \<open>
  \<^verbatim>\<open>switch_context\<close> saves the callee-saved registers and the return address as seven words, stores
  the pointer to them through RDI and leaves through the seven words RSI points to.
\<close>

lemma switch_saves:
  assumes "\<And>i. i < 56 \<Longrightarrow> 8 \<le> unat (regs c RSP - 48 + of_nat i - regs c RDI)"
  shows "frame (cmem (exec switch_context c)) (regs c RSP - 48) 7
      = map (regs c) switch_pops @ [read64 (cmem c) (regs c RSP)]"
    and "read64 (cmem (exec switch_context c)) (regs c RDI) = regs c RSP - 48"
proof -
  define p where "p = exec (map Push switch_pushes) c"
  have regs: "regs p RSP = regs c RSP - 48" "regs p RDI = regs c RDI"
    by (simp_all add: p_def exec_pushes_regs)
  have m: "cmem (exec switch_context c) = write64 (cmem p) (regs c RDI) (regs c RSP - 48)"
    unfolding switch_context_def exec_append p_def[symmetric] using regs by (simp add: pops_keep)
  show "read64 (cmem (exec switch_context c)) (regs c RDI) = regs c RSP - 48"
    by (simp add: m)
  have "frame (cmem (exec switch_context c)) (regs c RSP - 48) 7 = frame (cmem p) (regs c RSP - 48) 7"
    unfolding m using assms by (intro frame_cong write64_other) simp
  also have "\<dots> = frame (cmem p) (regs c RSP - 48) 6 @ frame (cmem p) (regs c RSP) 1"
    using frame_append[of "cmem p" "regs c RSP - 48" 6 1] by simp
  also have "frame (cmem p) (regs c RSP) 1 = frame (cmem c) (regs c RSP) 1"
    unfolding p_def by (rule pushes_keep_above) simp_all
  also have "frame (cmem p) (regs c RSP - 48) 6 = map (regs c) switch_pops"
    using pushes_frame[of switch_pushes c] by (simp add: switch_pops_rev p_def)
  finally show "frame (cmem (exec switch_context c)) (regs c RSP - 48) 7
      = map (regs c) switch_pops @ [read64 (cmem c) (regs c RSP)]"
    by (simp add: frame_Suc)
qed

lemma switch_loads:
  "let c' = exec switch_context c
   in map (regs c') switch_pops @ [rip c'] = frame (cmem c') (regs c RSI) 7
      \<and> regs c' RSP = regs c RSI + 56"
proof -
  define p where "p = exec (map Push switch_pushes @ [Store RDI RSP, MovRR RSP RSI]) c"
  define q where "q = exec (map Pop switch_pops) p"
  have c': "exec switch_context c = exec1 Ret q"
    by (simp add: switch_context_def p_def q_def)
  have rsp: "regs p RSP = regs c RSI" by (simp add: p_def exec_pushes_regs)
  have q: "map (regs q) switch_pops = frame (cmem p) (regs c RSI) 6"
    "regs q RSP = regs c RSI + 48" "cmem q = cmem p"
    using pops_deliver[of switch_pops p] pops_other(1)[of switch_pops p]
      pops_keep(1)[of switch_pops p] unfolding rsp q_def by simp_all
  have "map (regs (exec1 Ret q)) switch_pops = map (regs q) switch_pops"
    by (simp add: switch_pops_def)
  moreover have "frame (cmem p) (regs c RSI) 7
      = frame (cmem p) (regs c RSI) 6 @ [read64 (cmem p) (regs c RSI + 48)]"
    using frame_append[of "cmem p" "regs c RSI" 6 1] by (simp add: frame_Suc)
  ultimately show ?thesis unfolding c' Let_def using q by simp
qed

text \<open>
  C38. \<^verbatim>\<open>switch_context\<close> round trip: a context saved by one switch and resumed by a later one, made by
  any code that left its seven words alone, comes back with its callee-saved registers, at its return
  address and with its stack pointer popped past it.
\<close>

theorem switch_context_roundtrip:
  assumes "\<And>i. i < 56 \<Longrightarrow> 8 \<le> unat (regs c RSP - 48 + of_nat i - regs c RDI)"
    and "regs d RSI = read64 (cmem (exec switch_context c)) (regs c RDI)"
    and "frame (cmem (exec switch_context d)) (regs d RSI) 7
       = frame (cmem (exec switch_context c)) (regs d RSI) 7"
  shows "let d' = exec switch_context d
     in map (regs d') switch_pops = map (regs c) switch_pops
        \<and> rip d' = read64 (cmem c) (regs c RSP) \<and> regs d' RSP = regs c RSP + 8"
  using switch_saves[OF assms(1)] switch_loads[of d] assms(2,3) by (simp add: Let_def)

lemma switch_keeps:
  assumes "48 \<le> unat (x - (regs d RSP - 48))" and "8 \<le> unat (x - regs d RDI)"
  shows "cmem (exec switch_context d) x = cmem d x"
proof -
  define p where "p = exec (map Push switch_pushes) d"
  have "cmem (exec switch_context d) = write64 (cmem p) (regs d RDI) (regs d RSP - 48)"
    unfolding switch_context_def exec_append p_def[symmetric]
    by (simp add: pops_keep) (simp add: p_def exec_pushes_regs)
  moreover have "cmem p x = cmem d x"
    unfolding p_def using assms(1)
    by (subst exec_pushes_mem) (simp_all add: push_all_other)
  ultimately show ?thesis using assms(2) by (simp add: write64_other)
qed

text \<open>Two switches on one machine: the second one resumes what the first one saved.\<close>

definition blank_cpu :: cpu where
  "blank_cpu = \<lparr>regs = (\<lambda>_. 0), rip = 0, rflags = 0, cs = 0, ss = 0, cmem = (\<lambda>_. 0), msr_star = 0,
     msr_lstar = 0, msr_sfmask = 0, efer_sce = False\<rparr>"

definition switch_away :: cpu where
  "switch_away = blank_cpu\<lparr>regs := (\<lambda>_. 0)(RSP := 0x1000, RDI := 0x500, RSI := 0x900, R12 := 12)\<rparr>"

definition switch_back :: cpu where
  "switch_back = (exec switch_context switch_away)
     \<lparr>regs := (\<lambda>_. 0)(RSP := 0x800, RDI := 0x600, RSI := 0xFD0)\<rparr>"

lemma unat_off: "unat (a :: u64) + i < 2 ^ 64 \<Longrightarrow> n \<le> unat a \<Longrightarrow> n \<le> unat (a + of_nat i)"
  by (simp add: unat_add_of_nat)

lemma switch_back_frame:
  "frame (cmem (exec switch_context switch_back)) 0xFD0 7
     = frame (cmem (exec switch_context switch_away)) 0xFD0 7"
proof (rule frame_cong)
  fix i :: nat assume i: "i < 8 * 7"
  have "48 \<le> unat (0x800 + of_nat i :: u64)" "8 \<le> unat (0x9D0 + of_nat i :: u64)"
    using i by (auto intro!: unat_off)
  then have "cmem (exec switch_context switch_back) (0xFD0 + of_nat i) = cmem switch_back (0xFD0 + of_nat i)"
    by (intro switch_keeps) (simp_all add: switch_back_def algebra_simps)
  then show "cmem (exec switch_context switch_back) (0xFD0 + of_nat i)
      = cmem (exec switch_context switch_away) (0xFD0 + of_nat i)"
    by (simp add: switch_back_def)
qed

theorem switch_context_roundtrip_witness:
  "regs (exec switch_context switch_back) R12 = 12
   \<and> regs (exec switch_context switch_back) RSP = 0x1008"
proof -
  have a: "8 \<le> unat (regs switch_away RSP - 48 + of_nat i - regs switch_away RDI)" if "i < 56" for i
  proof -
    have "8 \<le> unat (0xAD0 + of_nat i :: u64)" using that by (auto intro!: unat_off)
    then show ?thesis by (simp add: switch_away_def algebra_simps)
  qed
  have b: "regs switch_back RSI = read64 (cmem (exec switch_context switch_away)) (regs switch_away RDI)"
    using switch_saves(2)[OF a] by (simp add: switch_back_def) (simp add: switch_away_def)
  have c: "regs switch_back RSI = 0xFD0" by (simp add: switch_back_def)
  have "let d' = exec switch_context switch_back
     in map (regs d') switch_pops = map (regs switch_away) switch_pops
        \<and> rip d' = read64 (cmem switch_away) (regs switch_away RSP)
        \<and> regs d' RSP = regs switch_away RSP + 8"
    using a b switch_back_frame unfolding c[symmetric] by (rule switch_context_roundtrip)
  moreover have "regs switch_away R12 = 12" "regs switch_away RSP = 0x1000"
    by (simp_all add: switch_away_def)
  ultimately show ?thesis by (simp add: Let_def) (simp add: switch_pops_def)
qed

lemma jump_to_user_mode_exec:
  "let c' = exec jump_to_user_mode c
   in rip c' = regs c RDI \<and> regs c' RSP = regs c RSI \<and> cs c' = 0x33 \<and> ss c' = 0x2b
      \<and> rflags c' = 0x202"
proof -
  define p where
    "p = exec [Cli, MovImm RAX 0x2b, MovRR RBX RSI, MovImm RCX 0x202, MovImm RDX 0x33, MovRR RBP RDI] c"
  define q where "q = exec (map Push umode_pushes) p"
  have c': "exec jump_to_user_mode c = exec1 Iretq q"
    by (simp add: jump_to_user_mode_def p_def q_def)
  have p: "regs p RSP = regs c RSP" "map (regs p) (rev umode_pushes)
      = [regs c RDI, 0x33, 0x202, regs c RSI, 0x2b]"
    by (simp_all add: p_def umode_pushes_def)
  have "frame (cmem q) (regs q RSP) 5 = [regs c RDI, 0x33, 0x202, regs c RSI, 0x2b]"
    using pushes_frame[of umode_pushes p] p by (simp add: q_def exec_pushes_regs)
  then show ?thesis unfolding c' Let_def
    by (simp add: eval_nat_numeral frame_Suc add.assoc)
qed

text \<open>
  \<^verbatim>\<open>jump_to_user_mode\<close> enters ring 3 at the given function on the given stack with the user code
  and data selectors of the GDT layout (0x33 and 0x2b, requested privilege level 3) and only the
  interrupt flag set besides the reserved bit.
\<close>

lemma jump_to_user_mode_enters:
  "let c' = exec jump_to_user_mode c
   in rip c' = regs c RDI \<and> regs c' RSP = regs c RSI \<and> cs c' = 0x33 \<and> ss c' = 0x2b
      \<and> rflags c' = 0x202 \<and> cs c' AND 3 = 3"
  using jump_to_user_mode_exec[of c] by (simp add: Let_def)

end
