(* ===== verification/Machine_Api.thy ===== *)
theory Machine_Api
  imports Byte_Memory
begin

text \<open>
  The parts of third-party crates the kernel calls. None of their code belongs to the repository, so
  each is a parameter of the model: a record of operations that the definitions take as an argument.
  A predicate beside each record states the documented behaviour the kernel relies on; theorems that
  need it have it as a hypothesis, and the reference instances at the end show it can hold.
\<close>

section \<open>Addresses and pages of the x86_64 crate\<close>

text \<open>
  \<open>va_new\<close>, \<open>va_add\<close> and \<open>va_sub\<close> are \<^verbatim>\<open>VirtAddr::new\<close> and the arithmetic on virtual addresses, which
  panic (\<open>None\<close>) outside the canonical range; \<open>page_containing\<close> and \<open>frame_containing\<close> give the start
  address of the 4 KiB page or frame; \<open>page_range\<close> is \<^verbatim>\<open>Page::range_inclusive\<close>.
\<close>

record x86_api =
  va_new :: "u64 \<Rightarrow> u64 option"
  va_add :: "u64 \<Rightarrow> u64 \<Rightarrow> u64 option"
  va_sub :: "u64 \<Rightarrow> u64 \<Rightarrow> u64 option"
  page_containing :: "u64 \<Rightarrow> u64"
  page_range :: "u64 \<Rightarrow> u64 \<Rightarrow> u64 list"
  frame_containing :: "u64 \<Rightarrow> u64 option"

abbreviation lower_half :: "u64 \<Rightarrow> bool" where
  "lower_half a \<equiv> unat a < 2 ^ 47"

definition page_down :: "u64 \<Rightarrow> u64" where
  "page_down a = a AND NOT 0xFFF"

definition pages_between :: "u64 \<Rightarrow> u64 \<Rightarrow> u64 list" where
  "pages_between p q =
     map (\<lambda>i. p + of_nat (4096 * i)) [0 ..< (unat q + 4096 - unat p) div 4096]"

definition x86_api_ok :: "x86_api \<Rightarrow> bool" where
  "x86_api_ok A \<longleftrightarrow>
     (\<forall>a. lower_half a \<longrightarrow> va_new A a = Some a)
   \<and> (\<forall>a n. unat a + unat n < 2 ^ 47 \<longrightarrow> va_add A a n = Some (a + n))
   \<and> (\<forall>a n. lower_half a \<longrightarrow> unat n \<le> unat a \<longrightarrow> va_sub A a n = Some (a - n))
   \<and> (\<forall>a. lower_half a \<longrightarrow> page_containing A a = page_down a)
   \<and> (\<forall>p q. lower_half p \<longrightarrow> lower_half q \<longrightarrow> page_down p = p \<longrightarrow> page_down q = q \<longrightarrow>
        page_range A p q = pages_between p q)
   \<and> (\<forall>a. unat a < 2 ^ 52 \<longrightarrow> frame_containing A a = Some (page_down a))"

lemma x86_api_okD:
  assumes "x86_api_ok A"
  shows "lower_half a \<Longrightarrow> va_new A a = Some a"
    and "unat a + unat n < 2 ^ 47 \<Longrightarrow> va_add A a n = Some (a + n)"
    and "lower_half a \<Longrightarrow> unat n \<le> unat a \<Longrightarrow> va_sub A a n = Some (a - n)"
    and "lower_half a \<Longrightarrow> page_containing A a = page_down a"
    and "lower_half p \<Longrightarrow> lower_half q \<Longrightarrow> page_down p = p \<Longrightarrow> page_down q = q \<Longrightarrow>
        page_range A p q = pages_between p q"
    and "unat a < 2 ^ 52 \<Longrightarrow> frame_containing A a = Some (page_down a)"
  using assms by (simp_all add: x86_api_ok_def)

section \<open>Bounded queues of the crossbeam crate\<close>

text \<open>
  \<^verbatim>\<open>ArrayQueue\<close>: \<open>aq_push\<close> gives \<open>None\<close> where the crate gives \<^verbatim>\<open>Err\<close> back (the queue is full).
  \<open>items\<close> and \<open>room\<close> are a queue's contents, oldest first, and its capacity.
\<close>

record ('e, 'q) array_queue =
  aq_new :: "nat \<Rightarrow> 'q"
  aq_push :: "'q \<Rightarrow> 'e \<Rightarrow> 'q option"
  aq_pop :: "'q \<Rightarrow> ('e \<times> 'q) option"
  aq_is_empty :: "'q \<Rightarrow> bool"

definition aq_laws :: "('e, 'q) array_queue \<Rightarrow> ('q \<Rightarrow> 'e list) \<Rightarrow> ('q \<Rightarrow> nat) \<Rightarrow> bool" where
  "aq_laws Q items room \<longleftrightarrow>
     (\<forall>n. 0 < n \<longrightarrow> items (aq_new Q n) = [] \<and> room (aq_new Q n) = n)
   \<and> (\<forall>q x. length (items q) < room q \<longrightarrow>
        (\<exists>q'. aq_push Q q x = Some q' \<and> items q' = items q @ [x] \<and> room q' = room q))
   \<and> (\<forall>q x. room q \<le> length (items q) \<longrightarrow> aq_push Q q x = None)
   \<and> (\<forall>q. items q = [] \<longrightarrow> aq_pop Q q = None)
   \<and> (\<forall>q x xs. items q = x # xs \<longrightarrow>
        (\<exists>q'. aq_pop Q q = Some (x, q') \<and> items q' = xs \<and> room q' = room q))
   \<and> (\<forall>q. aq_is_empty Q q \<longleftrightarrow> items q = [])"

lemma aq_lawsD:
  assumes "aq_laws Q items room"
  shows "0 < n \<Longrightarrow> items (aq_new Q n) = []" "0 < n \<Longrightarrow> room (aq_new Q n) = n"
    and "room q \<le> length (items q) \<Longrightarrow> aq_push Q q x = None"
    and "items q = [] \<Longrightarrow> aq_pop Q q = None"
    and "aq_is_empty Q q \<longleftrightarrow> items q = []"
  using assms by (simp_all add: aq_laws_def)

lemma aq_push_room:
  assumes "aq_laws Q items room" "length (items q) < room q"
  obtains q' where "aq_push Q q x = Some q'" "items q' = items q @ [x]" "room q' = room q"
  using assms unfolding aq_laws_def by blast

lemma aq_push_SomeD:
  assumes "aq_laws Q items room" "aq_push Q q x = Some q'"
  shows "length (items q) < room q" "items q' = items q @ [x]" "room q' = room q"
proof -
  show less: "length (items q) < room q"
    using assms by (metis aq_lawsD(3) leI option.distinct(1))
  obtain q'' where "aq_push Q q x = Some q''" "items q'' = items q @ [x]" "room q'' = room q"
    using aq_push_room[OF assms(1) less] .
  then show "items q' = items q @ [x]" "room q' = room q" using assms(2) by auto
qed

lemma aq_pop_Cons:
  assumes "aq_laws Q items room" "items q = x # xs"
  obtains q' where "aq_pop Q q = Some (x, q')" "items q' = xs" "room q' = room q"
  using assms unfolding aq_laws_def by blast

lemma aq_pop_SomeD:
  assumes "aq_laws Q items room" "aq_pop Q q = Some (x, q')"
  shows "items q = x # items q'" "room q' = room q"
proof -
  obtain y ys where ys: "items q = y # ys"
    using assms by (cases "items q") (auto simp: aq_lawsD(4))
  obtain q'' where "aq_pop Q q = Some (y, q'')" "items q'' = ys" "room q'' = room q"
    using aq_pop_Cons[OF assms(1) ys] .
  then show "items q = x # items q'" "room q' = room q" using assms(2) ys by auto
qed

section \<open>Reference instances\<close>

definition x86_ref :: x86_api where
  "x86_ref = \<lparr>
     va_new = (\<lambda>a. if lower_half a then Some a else None),
     va_add = (\<lambda>a n. if unat a + unat n < 2 ^ 47 then Some (a + n) else None),
     va_sub = (\<lambda>a n. if lower_half a \<and> unat n \<le> unat a then Some (a - n) else None),
     page_containing = page_down,
     page_range = pages_between,
     frame_containing = (\<lambda>a. if unat a < 2 ^ 52 then Some (page_down a) else None)\<rparr>"

lemma x86_ref_ok: "x86_api_ok x86_ref"
  by (simp add: x86_api_ok_def x86_ref_def)

definition list_queue :: "('e, nat \<times> 'e list) array_queue" where
  "list_queue = \<lparr>
     aq_new = (\<lambda>n. (n, [])),
     aq_push = (\<lambda>(n, xs) x. if length xs < n then Some (n, xs @ [x]) else None),
     aq_pop = (\<lambda>(n, xs). case xs of [] \<Rightarrow> None | x # ys \<Rightarrow> Some (x, (n, ys))),
     aq_is_empty = (\<lambda>(n, xs). xs = [])\<rparr>"

lemma list_queue_laws: "aq_laws list_queue snd fst"
  by (auto simp: aq_laws_def list_queue_def)

section \<open>Pages\<close>

lemma page_down_le: "page_down a \<le> a"
  by (simp add: page_down_def word_and_le2)

lemma page_down_take: "page_down a = a - take_bit 12 a"
proof -
  have m: "(0xFFF :: u64) = mask 12" by (simp add: mask_eq_exp_minus_1)
  have "a - take_bit 12 a = a AND NOT (take_bit 12 a)"
    by (rule disjunctive_diff_eq_and_not) (auto simp: bit_eq_iff bit_simps)
  also have "\<dots> = a AND NOT (mask 12)"
    by (rule bit_word_eqI) (auto simp: bit_simps)
  finally show ?thesis by (simp add: page_down_def m)
qed

lemma page_down_unat: "unat (page_down a) = unat a - unat a mod 4096"
proof -
  have t: "unat (take_bit 12 a) = unat a mod 4096"
    by (simp only: unsigned_take_bit_eq) (simp add: take_bit_eq_mod)
  then have "take_bit 12 a \<le> a" by (simp add: word_le_nat_alt)
  then show ?thesis by (simp add: page_down_take unat_sub t)
qed

lemma page_down_idem [simp]: "page_down (page_down a) = page_down a"
  by (simp add: page_down_def and.assoc)

lemma page_down_aligned: "page_down a = a \<longleftrightarrow> unat a mod 4096 = 0"
proof -
  have "page_down a = a \<longleftrightarrow> unat (page_down a) = unat a" by (simp add: word_unat_eq_iff)
  also have "\<dots> \<longleftrightarrow> unat a mod 4096 = 0"
    unfolding page_down_unat using mod_less_eq_dividend[of "unat a" 4096] by linarith
  finally show ?thesis .
qed

end
