(* ===== verification/Descriptor_Tables.thy ===== *)
theory Descriptor_Tables
  imports Entry_Stubs Machine_Api
begin

text \<open>
  \<^verbatim>\<open>gdt.rs\<close> and the register setup of \<^verbatim>\<open>syscall::init\<close>: the order of the GDT entries and the selectors
  that result, the stacks of the TSS, and the model specific registers of the \<^verbatim>\<open>syscall\<close> instruction.
  The table of the x86_64 crate and \<^verbatim>\<open>Star::write\<close> are parameters; what is proved is that the order of
  the entries, the constants of \<^verbatim>\<open>jump_to_user_mode\<close> and the register the kernel writes agree.
\<close>

section \<open>Descriptors and selectors\<close>

datatype descriptor = Kernel_Code | Kernel_Data | Tss_Segment | User_Data | User_Code

record selectors =
  kernel_code_selector :: u16
  kernel_data_selector :: u16
  tss_selector :: u16
  user_data_selector :: u16
  user_code_selector :: u16

definition build_gdt :: "('g \<Rightarrow> descriptor \<Rightarrow> u16 \<times> 'g) \<Rightarrow> 'g \<Rightarrow> 'g \<times> selectors" where
  "build_gdt add_entry gdt0 =
     (let (kc, gdt1) = add_entry gdt0 Kernel_Code;
          (kd, gdt2) = add_entry gdt1 Kernel_Data;
          (ts, gdt3) = add_entry gdt2 Tss_Segment;
          (ud, gdt4) = add_entry gdt3 User_Data;
          (uc, gdt5) = add_entry gdt4 User_Code
      in (gdt5, \<lparr>kernel_code_selector = kc, kernel_data_selector = kd, tss_selector = ts,
                 user_data_selector = ud, user_code_selector = uc\<rparr>))"

definition get_selectors :: "'g \<times> selectors \<Rightarrow> selectors" where
  "get_selectors gdt = snd gdt"

text \<open>
  The documented behaviour of \<^verbatim>\<open>GlobalDescriptorTable\<close>: a new table has the null descriptor only, an
  entry goes to the next free slot (a system segment takes two), and the selector is eight times that
  slot with the descriptor's privilege level. \<open>used\<close> is the number of slots in use, eight at most.
\<close>

definition slots_of :: "descriptor \<Rightarrow> nat" where
  "slots_of d = (if d = Tss_Segment then 2 else 1)"

definition rpl_of :: "descriptor \<Rightarrow> u16" where
  "rpl_of d = (if d = User_Data \<or> d = User_Code then 3 else 0)"

definition gdt_laws :: "('g \<Rightarrow> descriptor \<Rightarrow> u16 \<times> 'g) \<Rightarrow> 'g \<Rightarrow> ('g \<Rightarrow> nat) \<Rightarrow> bool" where
  "gdt_laws add_entry gdt0 used \<longleftrightarrow>
     used gdt0 = 1
   \<and> (\<forall>g d. used g + slots_of d \<le> 8 \<longrightarrow>
        fst (add_entry g d) = of_nat (8 * used g) OR rpl_of d
      \<and> used (snd (add_entry g d)) = used g + slots_of d)"

lemma gdt_lawsD:
  assumes "gdt_laws add_entry gdt0 used"
  shows "used gdt0 = 1"
    and "used g + slots_of d \<le> 8 \<Longrightarrow> add_entry g d = (s, g') \<Longrightarrow>
        s = of_nat (8 * used g) OR rpl_of d \<and> used g' = used g + slots_of d"
  using assms by (auto simp: gdt_laws_def dest!: spec[of _ g] spec[of _ d])

definition kernel_selectors :: selectors where
  "kernel_selectors = \<lparr>kernel_code_selector = 0x08, kernel_data_selector = 0x10,
     tss_selector = 0x18, user_data_selector = 0x2b, user_code_selector = 0x33\<rparr>"

lemma build_gdt_selectors:
  assumes laws: "gdt_laws add_entry gdt0 used"
  shows "get_selectors (build_gdt add_entry gdt0) = kernel_selectors"
proof -
  obtain kc g1 where a1: "add_entry gdt0 Kernel_Code = (kc, g1)" by fastforce
  obtain kd g2 where a2: "add_entry g1 Kernel_Data = (kd, g2)" by fastforce
  obtain ts g3 where a3: "add_entry g2 Tss_Segment = (ts, g3)" by fastforce
  obtain ud g4 where a4: "add_entry g3 User_Data = (ud, g4)" by fastforce
  obtain uc g5 where a5: "add_entry g4 User_Code = (uc, g5)" by fastforce
  have 0: "used gdt0 = 1" by (rule gdt_lawsD(1)[OF laws])
  have 1: "kc = 0x08 \<and> used g1 = 2"
    using gdt_lawsD(2)[OF laws _ a1] 0 by (simp add: slots_of_def rpl_of_def)
  then have 2: "kd = 0x10 \<and> used g2 = 3"
    using gdt_lawsD(2)[OF laws _ a2] by (simp add: slots_of_def rpl_of_def)
  then have 3: "ts = 0x18 \<and> used g3 = 5"
    using gdt_lawsD(2)[OF laws _ a3] by (simp add: slots_of_def rpl_of_def)
  then have 4: "ud = 0x2b \<and> used g4 = 6"
    using gdt_lawsD(2)[OF laws _ a4] by (simp add: slots_of_def rpl_of_def)
  then have 5: "uc = 0x33"
    using gdt_lawsD(2)[OF laws _ a5] by (simp add: slots_of_def rpl_of_def)
  from 1 2 3 4 5 show ?thesis
    by (simp add: build_gdt_def get_selectors_def kernel_selectors_def a1 a2 a3 a4 a5)
qed

section \<open>The TSS\<close>

record tss =
  rsp0 :: u64
  ist0 :: u64

definition STACK_SIZE :: u64 where
  "STACK_SIZE = 4096 * 5"

text \<open>\<^verbatim>\<open>gdt::init\<close> fills the two stacks of the TSS; \<open>rsp0_stack\<close> and \<open>ist0_stack\<close> are the addresses of
  the two static arrays. It then loads the table and the segment registers.\<close>

definition gdt_init :: "x86_api \<Rightarrow> selectors \<Rightarrow> u64 \<Rightarrow> u64 \<Rightarrow> tss \<Rightarrow> cpu \<Rightarrow> (tss \<times> cpu) outcome" where
  "gdt_init A sel rsp0_stack ist0_stack t c =
     bindo (expect ''VirtAddr::from_ptr'' (va_new A rsp0_stack)) (\<lambda>p0.
     bindo (expect ''VirtAddr + usize'' (va_add A p0 STACK_SIZE)) (\<lambda>top0.
     bindo (expect ''VirtAddr::from_ptr'' (va_new A ist0_stack)) (\<lambda>p1.
     bindo (expect ''VirtAddr + usize'' (va_add A p1 STACK_SIZE)) (\<lambda>top1.
       Ok (t\<lparr>rsp0 := top0, ist0 := top1\<rparr>,
           c\<lparr>cs := ucast (kernel_code_selector sel), ss := ucast (kernel_data_selector sel)\<rparr>)))))"

definition set_interrupt_stack :: "u64 \<Rightarrow> tss \<Rightarrow> tss" where
  "set_interrupt_stack stack_top t = t\<lparr>rsp0 := stack_top\<rparr>"

section \<open>System call registers\<close>

definition syscall_init ::
  "x86_api \<Rightarrow> (u16 \<Rightarrow> u16 \<Rightarrow> u16 \<Rightarrow> u16 \<Rightarrow> u64 option) \<Rightarrow> selectors \<Rightarrow> u64 \<Rightarrow> cpu \<Rightarrow> cpu outcome" where
  "syscall_init A star_write sel entry c =
     bindo (expect ''VirtAddr::new'' (va_new A entry)) (\<lambda>lstar.
     bindo (expect ''called Result::unwrap() on an Err value''
              (star_write (user_code_selector sel) (user_data_selector sel)
                 (kernel_code_selector sel) (kernel_data_selector sel))) (\<lambda>star.
       Ok (c\<lparr>msr_lstar := lstar, msr_star := star, msr_sfmask := flag_IF, efer_sce := True\<rparr>)))"

text \<open>
  \<^verbatim>\<open>Star::write\<close> refuses selectors that \<^verbatim>\<open>syscall\<close> and \<^verbatim>\<open>sysret\<close> could not produce; otherwise the register
  holds the kernel code selector in bits 32 to 47 and the user data selector minus eight above.
\<close>

definition star_laws :: "(u16 \<Rightarrow> u16 \<Rightarrow> u16 \<Rightarrow> u16 \<Rightarrow> u64 option) \<Rightarrow> bool" where
  "star_laws star_write \<longleftrightarrow>
     (\<forall>cs_ret ss_ret cs_call ss_call.
        cs_ret - 16 = ss_ret - 8 \<longrightarrow> cs_call = ss_call - 8 \<longrightarrow>
        ss_ret AND 3 = 3 \<longrightarrow> ss_call AND 3 = 0 \<longrightarrow>
        star_write cs_ret ss_ret cs_call ss_call
          = Some (push_bit 48 (ucast (ss_ret - 8)) OR push_bit 32 (ucast cs_call)))"

lemma star_value:
  assumes "star_laws star_write" "va_new A entry = Some entry"
  shows "syscall_init A star_write kernel_selectors entry c
     = Ok (c\<lparr>msr_lstar := entry, msr_star := 0x0023000800000000, msr_sfmask := flag_IF,
             efer_sce := True\<rparr>)"
proof -
  have "star_write 0x33 0x2b 0x08 0x10 = Some 0x0023000800000000"
    using assms(1)[unfolded star_laws_def, rule_format, of "0x33" "0x2b" "0x08" "0x10"] by simp
  then show ?thesis using assms(2) by (simp add: syscall_init_def kernel_selectors_def)
qed

text \<open>
  C32. The selectors the GDT hands out are the ones the system call path produces: with the entries in
  the order of \<^verbatim>\<open>gdt.rs\<close>, \<^verbatim>\<open>Star::write\<close> accepts them, \<^verbatim>\<open>syscall\<close> enters the stub with the kernel code
  and data selectors and interrupts masked, and \<^verbatim>\<open>sysretq\<close> leaves with the user code and data
  selectors, which are also the constants 0x33 and 0x2b of \<^verbatim>\<open>jump_to_user_mode\<close>.
\<close>

theorem syscall_selectors_agree:
  assumes "x86_api_ok A" and "gdt_laws add_entry gdt0 used" and "star_laws star_write"
    and "lower_half entry"
  shows "\<exists>c'. syscall_init A star_write (get_selectors (build_gdt add_entry gdt0)) entry c = Ok c'
     \<and> (let u = hw_syscall (c'\<lparr>regs := r, rip := i, rflags := fl\<rparr>);
            sel = get_selectors (build_gdt add_entry gdt0)
        in rip u = entry \<and> rflags u AND flag_IF = 0
           \<and> cs u = ucast (kernel_code_selector sel) \<and> ss u = ucast (kernel_data_selector sel))
     \<and> (let v = exec1 Sysretq c'; sel = get_selectors (build_gdt add_entry gdt0)
        in cs v = ucast (user_code_selector sel) \<and> ss v = ucast (user_data_selector sel))
     \<and> cs (exec jump_to_user_mode d)
         = ucast (user_code_selector (get_selectors (build_gdt add_entry gdt0)))
     \<and> ss (exec jump_to_user_mode d)
         = ucast (user_data_selector (get_selectors (build_gdt add_entry gdt0)))"
proof -
  have "va_new A entry = Some entry" by (rule x86_api_okD(1)[OF assms(1,4)])
  moreover have "(x AND NOT flag_IF) AND flag_IF = 0" for x :: u64
    by (simp add: and.assoc)
  ultimately show ?thesis
    using star_value[OF assms(3), of A entry c] jump_to_user_mode_exec[of d]
    unfolding build_gdt_selectors[OF assms(2)]
    by (simp add: hw_syscall_def Let_def kernel_selectors_def)
qed

text \<open>A table as a list of descriptors satisfies the laws, so they can hold.\<close>

definition list_gdt :: "descriptor list \<Rightarrow> descriptor \<Rightarrow> u16 \<times> descriptor list" where
  "list_gdt ds d = (of_nat (8 * (1 + sum_list (map slots_of ds))) OR rpl_of d, ds @ [d])"

definition star_ref :: "u16 \<Rightarrow> u16 \<Rightarrow> u16 \<Rightarrow> u16 \<Rightarrow> u64 option" where
  "star_ref cs_ret ss_ret cs_call ss_call =
     (if cs_ret - 16 = ss_ret - 8 \<and> cs_call = ss_call - 8 \<and> ss_ret AND 3 = 3 \<and> ss_call AND 3 = 0
      then Some (push_bit 48 (ucast (ss_ret - 8)) OR push_bit 32 (ucast cs_call)) else None)"

lemma list_gdt_laws: "gdt_laws list_gdt [] (\<lambda>ds. 1 + sum_list (map slots_of ds))"
  by (simp add: gdt_laws_def list_gdt_def)

lemma star_ref_laws: "star_laws star_ref"
  by (simp add: star_laws_def star_ref_def)

theorem syscall_selectors_agree_witness:
  "\<forall>c :: cpu. \<exists>c'.
     syscall_init x86_ref star_ref (get_selectors (build_gdt list_gdt [])) 0x200000 c = Ok c'
     \<and> cs (exec1 Sysretq c') = ucast (user_code_selector (get_selectors (build_gdt list_gdt [])))"
proof
  fix c :: cpu
  have "lower_half 0x200000" by simp
  from syscall_selectors_agree[OF x86_ref_ok list_gdt_laws star_ref_laws this,
      where c = c and r = "\<lambda>_. 0" and i = 0 and fl = 0 and d = c]
  show "\<exists>c'.
     syscall_init x86_ref star_ref (get_selectors (build_gdt list_gdt [])) 0x200000 c = Ok c'
     \<and> cs (exec1 Sysretq c') = ucast (user_code_selector (get_selectors (build_gdt list_gdt [])))"
    unfolding Let_def by blast
qed

end
