(* ===== verification/Tasks.thy ===== *)
theory Tasks
  imports Descriptor_Tables
begin

text \<open>
  \<^verbatim>\<open>task/mod.rs\<close>: messages, the task control block, creation of kernel tasks and user processes, the
  task registry and the future that waits for a message. Tasks live behind \<^verbatim>\<open>Arc\<close>; an \<^verbatim>\<open>Arc\<close> is a
  reference into a store, so that the registry, the executor and the scheduler's list share a task.
  The spin mutexes inside a task are taken and released within one operation of the model, with
  interrupts off, so a field stands for its locked content.
\<close>

section \<open>Messages\<close>

record message =
  msg_from :: u64
  msg_to :: u64
  msg_label :: u64
  msg_payload :: "u64 \<times> u64"

text \<open>\<^verbatim>\<open>#[repr(C)]\<close>: five words in the order of the fields.\<close>

definition msg_words :: "message \<Rightarrow> u64 list" where
  "msg_words m = [msg_from m, msg_to m, msg_label m, fst (msg_payload m), snd (msg_payload m)]"

definition read_msg :: "memory \<Rightarrow> u64 \<Rightarrow> message" where
  "read_msg m p = \<lparr>msg_from = read64 m p, msg_to = read64 m (p + 8), msg_label = read64 m (p + 16),
     msg_payload = (read64 m (p + 24), read64 m (p + 32))\<rparr>"

definition write_msg :: "memory \<Rightarrow> u64 \<Rightarrow> message \<Rightarrow> memory" where
  "write_msg m p x = fst (push_all (m, p + 40) (rev (msg_words x)))"

lemma read_msg_frame: "read_msg m p = (case frame m p 5 of [a, b, c, d, e] \<Rightarrow>
    \<lparr>msg_from = a, msg_to = b, msg_label = c, msg_payload = (d, e)\<rparr>)"
  by (simp add: read_msg_def eval_nat_numeral frame_Suc add.assoc)

lemma length_msg_words [simp]: "length (msg_words x) = 5"
  by (simp add: msg_words_def)

lemma write_msg_frame: "frame (write_msg m p x) p 5 = msg_words x"
  using push_all_frame[of "rev (msg_words x)" m "p + 40"]
  by (simp add: write_msg_def)

lemma read_write_msg [simp]: "read_msg (write_msg m p x) p = x"
  by (simp add: read_msg_frame write_msg_frame msg_words_def)

lemma write_msg_other: "40 \<le> unat (a - p) \<Longrightarrow> write_msg m p x a = m a"
  using push_all_other[of "rev (msg_words x)" a "p + 40" m]
  by (simp add: write_msg_def)

section \<open>Tasks\<close>

datatype task_state = Ready | Blocked | Terminated

type_synonym task_ref = nat

text \<open>
  Every waker of the program is a \<^verbatim>\<open>TaskWaker\<close> on the executor's one queue, so a waker is the identifier
  it pushes. The type of the boxed future is a parameter.
\<close>

type_synonym waker = u64

record 'f task =
  t_id :: u64
  t_state :: task_state
  t_priority :: u64
  t_future :: 'f
  t_kernel_rsp :: u64
  t_kernel_stack_top :: u64
  t_mailbox :: "message option"
  t_waker :: "waker option"

record 'f task_globals =
  heap :: "task_ref \<Rightarrow> 'f task"
  next_ref :: task_ref
  next_id :: u64
  cur_id :: u64
  registry :: "u64 \<rightharpoonup> task_ref"
  kmem :: memory

definition upd_task :: "task_ref \<Rightarrow> ('f task \<Rightarrow> 'f task) \<Rightarrow> ('f, 'x) task_globals_scheme \<Rightarrow>
    ('f, 'x) task_globals_scheme" where
  "upd_task r f g = g\<lparr>heap := (heap g)(r := f (heap g r))\<rparr>"

definition arc_new :: "'f task \<Rightarrow> ('f, 'x) task_globals_scheme \<Rightarrow>
    task_ref \<times> ('f, 'x) task_globals_scheme" where
  "arc_new t g = (next_ref g, g\<lparr>heap := (heap g)(next_ref g := t), next_ref := next_ref g + 1\<rparr>)"

text \<open>\<^verbatim>\<open>TaskId::new\<close>: \<^verbatim>\<open>fetch_add\<close> wraps.\<close>

definition task_id_new :: "('f, 'x) task_globals_scheme \<Rightarrow> u64 \<times> ('f, 'x) task_globals_scheme" where
  "task_id_new g = (next_id g, g\<lparr>next_id := next_id g + 1\<rparr>)"

lemma upd_task_simps [simp]:
  "heap (upd_task r f g) = (heap g)(r := f (heap g r))"
  "next_ref (upd_task r f g) = next_ref g" "next_id (upd_task r f g) = next_id g"
  "cur_id (upd_task r f g) = cur_id g" "registry (upd_task r f g) = registry g"
  "kmem (upd_task r f g) = kmem g" "task_globals.more (upd_task r f g) = task_globals.more g"
  by (simp_all add: upd_task_def)

section \<open>Creation\<close>

definition KSTACK_SIZE_KERNEL :: u64 where
  "KSTACK_SIZE_KERNEL = 4096 * 4"

definition KSTACK_SIZE_USER :: u64 where
  "KSTACK_SIZE_USER = 4096 * 8"

text \<open>\<open>kstack\<close> is the address the heap gave for the leaked, zeroed stack array.\<close>

definition task_new :: "x86_api \<Rightarrow> u64 \<Rightarrow> 'f \<Rightarrow> ('f, 'x) task_globals_scheme \<Rightarrow>
    (task_ref \<times> ('f, 'x) task_globals_scheme) outcome" where
  "task_new A kstack fut g =
     (let g = g\<lparr>kmem := mem_fill (kmem g) kstack 0 (unat KSTACK_SIZE_KERNEL)\<rparr>
      in bindo (expect ''VirtAddr::from_ptr'' (va_new A kstack)) (\<lambda>base.
         bindo (expect ''VirtAddr + usize'' (va_add A base KSTACK_SIZE_KERNEL)) (\<lambda>kstack_top.
           (let (i, g) = task_id_new g
            in Ok (arc_new \<lparr>t_id = i, t_state = Ready, t_priority = 5, t_future = fut,
                     t_kernel_rsp = kstack_top, t_kernel_stack_top = kstack_top,
                     t_mailbox = None, t_waker = None\<rparr> g)))))"

definition initial_frame :: "selectors \<Rightarrow> u64 \<Rightarrow> u64 \<Rightarrow> u64 list" where
  "initial_frame sel entry user_stack_top =
     [ucast (user_data_selector sel) OR 3, user_stack_top, 0x202,
      ucast (user_code_selector sel) OR 3, entry] @ replicate 15 0"

definition create_user_process ::
  "x86_api \<Rightarrow> selectors \<Rightarrow> 'f \<Rightarrow> u64 \<Rightarrow> u64 \<Rightarrow> u64 \<Rightarrow> ('f, 'x) task_globals_scheme \<Rightarrow>
    (task_ref \<times> ('f, 'x) task_globals_scheme) outcome" where
  "create_user_process A sel empty_future kstack entry user_stack_top g =
     (let g = g\<lparr>kmem := mem_fill (kmem g) kstack 0 (unat KSTACK_SIZE_USER)\<rparr>
      in bindo (expect ''VirtAddr::from_ptr'' (va_new A kstack)) (\<lambda>base.
         bindo (expect ''VirtAddr + usize'' (va_add A base KSTACK_SIZE_USER)) (\<lambda>kstack_top.
           (let (m, rsp) = push_all (kmem g, kstack_top) (initial_frame sel entry user_stack_top);
                (i, g) = task_id_new (g\<lparr>kmem := m\<rparr>)
            in Ok (arc_new \<lparr>t_id = i, t_state = Ready, t_priority = 5, t_future = empty_future,
                     t_kernel_rsp = rsp, t_kernel_stack_top = kstack_top,
                     t_mailbox = None, t_waker = None\<rparr> g)))))"

definition is_runnable :: "'f task \<Rightarrow> bool" where
  "is_runnable t \<longleftrightarrow> t_state t = Ready"

definition register_task :: "task_ref \<Rightarrow> ('f, 'x) task_globals_scheme \<Rightarrow>
    ('f, 'x) task_globals_scheme" where
  "register_task r g = g\<lparr>registry := (registry g)(t_id (heap g r) \<mapsto> r)\<rparr>"

section \<open>Waiting for a message\<close>

text \<open>\<^verbatim>\<open>IpcReceiveFuture::poll\<close>: \<open>Some\<close> message is \<^verbatim>\<open>Poll::Ready\<close>, \<open>None\<close> is \<^verbatim>\<open>Poll::Pending\<close>.\<close>

definition ipc_receive_poll :: "task_ref \<Rightarrow> waker \<Rightarrow> ('f, 'x) task_globals_scheme \<Rightarrow>
    message option \<times> ('f, 'x) task_globals_scheme" where
  "ipc_receive_poll r w g =
     (case t_mailbox (heap g r) of
        Some m \<Rightarrow> (Some m, upd_task r (\<lambda>t. t\<lparr>t_mailbox := None, t_state := Ready\<rparr>) g)
      | None \<Rightarrow> (None, upd_task r (\<lambda>t. t\<lparr>t_waker := Some w, t_state := Blocked\<rparr>) g))"

section \<open>Identifiers are unique\<close>

text \<open>
  As long as the counter has not wrapped, the tasks allocated so far have different identifiers, none
  of them 0 (the kernel's initial context).
\<close>

definition ids_ok :: "('f, 'x) task_globals_scheme \<Rightarrow> bool" where
  "ids_ok g \<longleftrightarrow> 0 < next_id g
     \<and> (\<forall>r < next_ref g. 0 < t_id (heap g r) \<and> t_id (heap g r) < next_id g)
     \<and> (\<forall>r < next_ref g. \<forall>s < next_ref g. t_id (heap g r) = t_id (heap g s) \<longrightarrow> r = s)"

lemma ids_ok_extend:
  assumes ok: "ids_ok g" and nowrap: "next_id g + 1 \<noteq> 0"
    and h: "heap h = (heap g)(next_ref g := t)" "next_ref h = next_ref g + 1"
      "next_id h = next_id g + 1" "t_id t = next_id g"
  shows "ids_ok h" and "s < next_ref g \<Longrightarrow> t_id (heap h s) \<noteq> next_id g"
proof -
  have less: "next_id g < next_id g + 1" using nowrap by (rule word_less_inc)
  have old: "0 < t_id (heap g s) \<and> t_id (heap g s) < next_id g" if "s < next_ref g" for s
    using ok that by (simp add: ids_ok_def)
  have inj: "s = s'" if "s < next_ref g" "s' < next_ref g" "t_id (heap g s) = t_id (heap g s')" for s s'
    using ok that by (auto simp: ids_ok_def)
  have "0 < t_id (heap h s) \<and> t_id (heap h s) < next_id h" if "s < next_ref h" for s
    using that old[of s] less h ok by (auto simp: less_Suc_eq ids_ok_def intro: order_less_trans)
  moreover have "s = s'" if "s < next_ref h" "s' < next_ref h" "t_id (heap h s) = t_id (heap h s')" for s s'
    using that inj old[of s] old[of s'] h by (auto simp: less_Suc_eq split: if_splits)
  moreover have "0 < next_id h" using less h by (simp add: word_gt_0 nowrap)
  ultimately show "ids_ok h" by (auto simp: ids_ok_def)
  show "s < next_ref g \<Longrightarrow> t_id (heap h s) \<noteq> next_id g"
    using old[of s] h by auto
qed

section \<open>The first context of a user process\<close>

lemma user_kstack:
  assumes "x86_api_ok A" and "unat kstack + 4096 * 8 < 2 ^ 47"
  shows "va_new A kstack = Some kstack" "va_add A kstack KSTACK_SIZE_USER = Some (kstack + 0x8000)"
  using x86_api_okD(1,2)[OF assms(1)] assms(2) by (simp_all add: KSTACK_SIZE_USER_def)

lemma create_user_process_Ok:
  assumes "x86_api_ok A" and "unat kstack + 4096 * 8 < 2 ^ 47"
  shows "\<exists>g'. create_user_process A sel fut kstack entry ustack g = Ok (next_ref g, g')
    \<and> kmem g' = fst (push_all (mem_fill (kmem g) kstack 0 0x8000, kstack + 0x8000)
                      (initial_frame sel entry ustack))
    \<and> heap g' = (heap g)(next_ref g := \<lparr>t_id = next_id g, t_state = Ready, t_priority = 5,
        t_future = fut, t_kernel_rsp = kstack + 0x8000 - 160, t_kernel_stack_top = kstack + 0x8000,
        t_mailbox = None, t_waker = None\<rparr>)
    \<and> next_ref g' = next_ref g + 1 \<and> next_id g' = next_id g + 1
    \<and> cur_id g' = cur_id g \<and> registry g' = registry g
    \<and> task_globals.more g' = task_globals.more g"
proof -
  obtain m where m: "push_all (mem_fill (kmem g) kstack 0 0x8000, kstack + 0x8000)
      (initial_frame sel entry ustack) = (m, kstack + 0x8000 - 160)"
    using push_all_sp[of "mem_fill (kmem g) kstack 0 0x8000" "kstack + 0x8000" "initial_frame sel entry ustack"]
    by (cases "push_all (mem_fill (kmem g) kstack 0 0x8000, kstack + 0x8000)
      (initial_frame sel entry ustack)") (simp add: initial_frame_def)
  have size: "unat KSTACK_SIZE_USER = 0x8000" by (simp add: KSTACK_SIZE_USER_def)
  show ?thesis
    unfolding create_user_process_def Let_def size
    using user_kstack[OF assms] m by (simp add: task_id_new_def arc_new_def)
qed

definition blank_task :: "'f \<Rightarrow> 'f task" where
  "blank_task f = \<lparr>t_id = 0, t_state = Terminated, t_priority = 5, t_future = f, t_kernel_rsp = 0,
     t_kernel_stack_top = 0, t_mailbox = None, t_waker = None\<rparr>"

text \<open>
  A new user process is ready to run: creation succeeds, the process is \<open>Ready\<close> with priority 5,
  and the stack it saves, popped the way the interrupt wrapper and the first jump of \<^verbatim>\<open>main.rs\<close> pop it,
  starts the program at its entry point in ring 3 on the given stack, with interrupts enabled and all
  general registers zero.
\<close>

lemma user_process_starts_at_entry:
  assumes "x86_api_ok A" and "unat kstack + 4096 * 8 < 2 ^ 47"
  shows "\<exists>r g'. create_user_process A sel fut kstack entry ustack g = Ok (r, g')
     \<and> is_runnable (heap g' r) \<and> t_priority (heap g' r) = 5
     \<and> saved_ctx (exec (first_jump (t_kernel_rsp (heap g' r))) (c\<lparr>cmem := kmem g'\<rparr>))
       = replicate 15 0 @ [entry, ucast (user_code_selector sel) OR 3, 0x202, ustack,
                           ucast (user_data_selector sel) OR 3]"
proof -
  obtain g' where g': "create_user_process A sel fut kstack entry ustack g = Ok (next_ref g, g')"
    and m: "kmem g' = fst (push_all (mem_fill (kmem g) kstack 0 0x8000, kstack + 0x8000)
                      (initial_frame sel entry ustack))"
    and t: "t_state (heap g' (next_ref g)) = Ready" "t_priority (heap g' (next_ref g)) = 5"
      "t_kernel_rsp (heap g' (next_ref g)) = kstack + 0x8000 - 160"
    using create_user_process_Ok[OF assms, of sel fut entry ustack g] by auto
  have "frame (kmem g') (kstack + 0x8000 - 160) 20 = rev (initial_frame sel entry ustack)"
    using push_all_frame[of "initial_frame sel entry ustack" "mem_fill (kmem g) kstack 0 0x8000"
        "kstack + 0x8000"]
    unfolding m by (simp add: initial_frame_def)
  then have "saved_ctx (exec (first_jump (kstack + 0x8000 - 160)) (c\<lparr>cmem := kmem g'\<rparr>))
      = rev (initial_frame sel entry ustack)"
    using restore_frame[of "exec1 (MovImm RSP (kstack + 0x8000 - 160)) (c\<lparr>cmem := kmem g'\<rparr>)"]
    by (simp add: first_jump_def)
  then show ?thesis using g' t by (auto simp: is_runnable_def initial_frame_def)
qed

definition no_tasks :: "unit task_globals" where
  "no_tasks = \<lparr>heap = (\<lambda>_. blank_task ()), next_ref = 0, next_id = 1, cur_id = 0,
     registry = Map.empty, kmem = (\<lambda>_. 0)\<rparr>"

text \<open>
  Task identifiers identify: while the counter has not wrapped, creating a process gives it an
  identifier that no earlier task has, is not 0 and stays below the counter.
\<close>

lemma task_ids_unique:
  assumes "x86_api_ok A" and "unat kstack + 4096 * 8 < 2 ^ 47"
    and "ids_ok g" and "next_id g + 1 \<noteq> 0"
  shows "\<exists>r g'. create_user_process A sel fut kstack entry ustack g = Ok (r, g') \<and> ids_ok g'
     \<and> (\<forall>s < next_ref g. t_id (heap g' s) = t_id (heap g s) \<and> t_id (heap g' s) \<noteq> t_id (heap g' r))"
proof -
  obtain g' where g': "create_user_process A sel fut kstack entry ustack g = Ok (next_ref g, g')"
    and h: "heap g' = (heap g)(next_ref g := \<lparr>t_id = next_id g, t_state = Ready, t_priority = 5,
        t_future = fut, t_kernel_rsp = kstack + 0x8000 - 160, t_kernel_stack_top = kstack + 0x8000,
        t_mailbox = None, t_waker = None\<rparr>)"
    and n: "next_ref g' = next_ref g + 1" "next_id g' = next_id g + 1"
    using create_user_process_Ok[OF assms(1,2), of sel fut entry ustack g] by blast
  have "ids_ok g'" and "\<And>s. s < next_ref g \<Longrightarrow> t_id (heap g' s) \<noteq> next_id g"
    using ids_ok_extend[OF assms(3,4) h n] by simp_all
  then show ?thesis using g' h by auto
qed

end
