(* ===== verification/Process_Layout.thy ===== *)
theory Process_Layout
  imports Tasks
begin

text \<open>
  Two \<^verbatim>\<open>repr(C)\<close> records the repository declares beside the ones the kernel uses: the register snapshot of
  \<^verbatim>\<open>process.rs\<close> and the message of \<^verbatim>\<open>common/src/ipc.rs\<close>, as words in memory, compared with the stack frame
  the interrupt wrappers build and with the kernel's five-word message.
\<close>

section \<open>The register snapshot\<close>

datatype process_state = Proc_Ready | Proc_Running | Proc_Blocked

record task_context =
  tc_r15 :: u64  tc_r14 :: u64  tc_r13 :: u64  tc_r12 :: u64
  tc_r11 :: u64  tc_r10 :: u64  tc_r9 :: u64  tc_r8 :: u64
  tc_rbp :: u64  tc_rdi :: u64  tc_rsi :: u64  tc_rdx :: u64
  tc_rcx :: u64  tc_rbx :: u64  tc_rax :: u64
  tc_rip :: u64  tc_cs :: u64  tc_rflags :: u64  tc_rsp :: u64  tc_ss :: u64

record process_block =
  pb_id :: u64
  pb_state :: process_state
  pb_context :: task_context
  pb_user_stack_top :: u64

definition context_words :: "task_context \<Rightarrow> u64 list" where
  "context_words t = [tc_r15 t, tc_r14 t, tc_r13 t, tc_r12 t, tc_r11 t, tc_r10 t, tc_r9 t, tc_r8 t,
     tc_rbp t, tc_rdi t, tc_rsi t, tc_rdx t, tc_rcx t, tc_rbx t, tc_rax t,
     tc_rip t, tc_cs t, tc_rflags t, tc_rsp t, tc_ss t]"

text \<open>The snapshot whose memory image is a wrapper's frame.\<close>

definition context_at :: "memory \<Rightarrow> u64 \<Rightarrow> task_context \<Rightarrow> bool" where
  "context_at m p t \<longleftrightarrow> frame m p 20 = context_words t"

text \<open>
  The snapshot has the size of a frame and agrees with it except in one pair: where the wrapper leaves
  \<^verbatim>\<open>rsi\<close> below \<^verbatim>\<open>rdi\<close>, the snapshot has them the other way round, so a frame read through it swaps them.
\<close>

lemma context_swaps_rdi_rsi:
  assumes "context_at m p t" "saved_ctx c = frame m p 20"
  shows "tc_rdi t = regs c RSI" "tc_rsi t = regs c RDI" "tc_rax t = regs c RAX" "tc_rip t = rip c" "tc_rsp t = regs c RSP"
  using assms by (simp_all add: context_at_def context_words_def saved_ctx_def wrapper_pops_def)

section \<open>The shared message\<close>

record ipc_message =
  im_from :: u64
  im_label :: u64
  im_payload :: "u64 \<times> u64"

definition ipc_words :: "ipc_message \<Rightarrow> u64 list" where
  "ipc_words x = [im_from x, im_label x, fst (im_payload x), snd (im_payload x)]"

text \<open>It is one word shorter than the kernel's message: received into it, a message overruns the buffer.\<close>

lemma ipc_message_overrun:
  "8 * length (ipc_words x) = 32" "read64 (write_msg m p msg) (p + 32) = snd (msg_payload msg)"
  using arg_cong[OF read_write_msg[of m p msg], of "\<lambda>x. snd (msg_payload x)"]
  by (simp_all add: ipc_words_def read_msg_def)

end
