(* ===== verification/Executor.thy ===== *)
theory Executor
  imports Tasks
begin

text \<open>
  \<^verbatim>\<open>task/executor.rs\<close>: the kernel's asynchronous executor. Its map of tasks, its bounded queue of
  identifiers and its cache of wakers are part of the global state; the queue is the parameter \<open>Q\<close> and
  polling a boxed future is the parameter \<open>P\<close>, which gets the future, its waker and the state and
  gives back whether it finished, the future and the state.
\<close>

record ('f, 'q) exec_globals = "'f task_globals" +
  ex_tasks :: "u64 \<rightharpoonup> task_ref"
  ex_queue :: 'q
  ex_wakers :: "u64 \<rightharpoonup> waker"
  console :: string

type_synonym ('f, 'q, 'x) poll_fn =
  "'f \<Rightarrow> waker \<Rightarrow> ('f, 'q, 'x) exec_globals_scheme \<Rightarrow> bool \<times> 'f \<times> ('f, 'q, 'x) exec_globals_scheme"

lemma upd_task_exec [simp]:
  fixes g :: "('f, 'q, 'x) exec_globals_scheme"
  shows "ex_tasks (upd_task r f g) = ex_tasks g" "ex_queue (upd_task r f g) = ex_queue g"
    "ex_wakers (upd_task r f g) = ex_wakers g" "console (upd_task r f g) = console g"
    "exec_globals.more (upd_task r f g) = exec_globals.more g"
  by (simp_all add: upd_task_def)

section \<open>Operations\<close>

definition executor_new :: "(u64, 'q) array_queue \<Rightarrow> ('f, 'q, 'x) exec_globals_scheme \<Rightarrow>
    ('f, 'q, 'x) exec_globals_scheme" where
  "executor_new Q g = g\<lparr>ex_tasks := Map.empty, ex_queue := aq_new Q 100, ex_wakers := Map.empty\<rparr>"

definition spawn :: "(u64, 'q) array_queue \<Rightarrow> task_ref \<Rightarrow> ('f, 'q, 'x) exec_globals_scheme \<Rightarrow>
    ('f, 'q, 'x) exec_globals_scheme outcome" where
  "spawn Q r g =
     (let task_id = t_id (heap g r);
          old = ex_tasks g task_id;
          g = g\<lparr>ex_tasks := (ex_tasks g)(task_id \<mapsto> r)\<rparr>
      in if old \<noteq> None then Panic ''Task with same ID already in executor''
         else let g = g\<lparr>registry := (registry g)(task_id \<mapsto> r)\<rparr>
              in bindo (expect ''Task queue full'' (aq_push Q (ex_queue g) task_id)) (\<lambda>q.
                   Ok (g\<lparr>ex_queue := q\<rparr>)))"

definition spawn_static where
  "spawn_static = spawn"

text \<open>\<^verbatim>\<open>TaskWaker::wake_task\<close>: the result of the push is dropped.\<close>

definition wake_task :: "(u64, 'q) array_queue \<Rightarrow> waker \<Rightarrow> ('f, 'q, 'x) exec_globals_scheme \<Rightarrow>
    ('f, 'q, 'x) exec_globals_scheme" where
  "wake_task Q w g = (case aq_push Q (ex_queue g) w of None \<Rightarrow> g | Some q \<Rightarrow> g\<lparr>ex_queue := q\<rparr>)"

text \<open>\<^verbatim>\<open>Task::poll\<close> polls the future under its lock and leaves the advanced future in the task.\<close>

definition task_poll :: "('f, 'q, 'x) poll_fn \<Rightarrow> task_ref \<Rightarrow> waker \<Rightarrow>
    ('f, 'q, 'x) exec_globals_scheme \<Rightarrow> bool \<times> ('f, 'q, 'x) exec_globals_scheme" where
  "task_poll P r w g =
     (case P (t_future (heap g r)) w g of
        (done, f', g') \<Rightarrow> (done, upd_task r (\<lambda>t. t\<lparr>t_future := f'\<rparr>) g'))"

text \<open>One turn of the loop of \<^verbatim>\<open>run_ready_tasks\<close>, for an identifier just popped.\<close>

definition ready_turn :: "('f, 'q, 'x) poll_fn \<Rightarrow> u64 \<Rightarrow> ('f, 'q, 'x) exec_globals_scheme \<Rightarrow>
    ('f, 'q, 'x) exec_globals_scheme" where
  "ready_turn P task_id g =
     (case ex_tasks g task_id of
        None \<Rightarrow> g
      | Some r \<Rightarrow>
          if t_state (heap g r) \<noteq> Ready then g
          else
            let g = g\<lparr>cur_id := task_id\<rparr>;
                w = (case ex_wakers g task_id of Some w \<Rightarrow> w | None \<Rightarrow> task_id);
                g = g\<lparr>ex_wakers := (ex_wakers g)(task_id \<mapsto> w)\<rparr>
            in (case task_poll P r w g of
                  (True, g) \<Rightarrow>
                    g\<lparr>ex_tasks := (ex_tasks g)(task_id := None),
                      registry := (registry g)(task_id := None),
                      ex_wakers := (ex_wakers g)(task_id := None)\<rparr>
                | (False, g) \<Rightarrow> g))"

partial_function (option) run_loop :: "(u64, 'q) array_queue \<Rightarrow> ('f, 'q, 'x) poll_fn \<Rightarrow>
    ('f, 'q, 'x) exec_globals_scheme \<Rightarrow> ('f, 'q, 'x) exec_globals_scheme option" where
  "run_loop Q P g =
     (case aq_pop Q (ex_queue g) of
        None \<Rightarrow> Some g
      | Some x \<Rightarrow> run_loop Q P (ready_turn P (fst x) (g\<lparr>ex_queue := snd x\<rparr>)))"

text \<open>\<open>None\<close>: the loop does not end.\<close>

definition run_ready_tasks :: "(u64, 'q) array_queue \<Rightarrow> ('f, 'q, 'x) poll_fn \<Rightarrow>
    ('f, 'q, 'x) exec_globals_scheme \<Rightarrow> ('f, 'q, 'x) exec_globals_scheme option" where
  "run_ready_tasks Q P g = map_option (\<lambda>g. g\<lparr>cur_id := 0\<rparr>) (run_loop Q P g)"

text \<open>\<^verbatim>\<open>sleep_if_idle\<close> enables interrupts either way; the result says whether it halts first.\<close>

definition sleep_if_idle :: "(u64, 'q) array_queue \<Rightarrow> ('f, 'q, 'x) exec_globals_scheme \<Rightarrow> bool" where
  "sleep_if_idle Q g = aq_is_empty Q (ex_queue g)"

definition run_iteration :: "(u64, 'q) array_queue \<Rightarrow> ('f, 'q, 'x) poll_fn \<Rightarrow>
    ('f, 'q, 'x) exec_globals_scheme \<Rightarrow> (('f, 'q, 'x) exec_globals_scheme \<times> bool) option" where
  "run_iteration Q P g = map_option (\<lambda>g. (g, sleep_if_idle Q g)) (run_ready_tasks Q P g)"

section \<open>The waker as an interface\<close>

text \<open>
  What the rest of the kernel may rely on when it wakes a task: only the executor's queue changes.
\<close>

locale waker_sink =
  fixes wake :: "waker \<Rightarrow> ('f, 'q, 'x) exec_globals_scheme \<Rightarrow> ('f, 'q, 'x) exec_globals_scheme"
  assumes wake_only_queue: "\<exists>q. wake w g = g\<lparr>ex_queue := q\<rparr>"
begin

lemma wake_keeps [frame_simps]:
  "heap (wake w g) = heap g" "next_ref (wake w g) = next_ref g" "next_id (wake w g) = next_id g"
  "cur_id (wake w g) = cur_id g" "registry (wake w g) = registry g" "kmem (wake w g) = kmem g"
  "ex_tasks (wake w g) = ex_tasks g" "ex_wakers (wake w g) = ex_wakers g"
  "console (wake w g) = console g" "exec_globals.more (wake w g) = exec_globals.more g"
  using wake_only_queue[of w g] by auto

end

lemma wake_task_queue: "\<exists>q. wake_task Q w g = g\<lparr>ex_queue := q\<rparr>"
proof (cases "aq_push Q (ex_queue g) w")
  case None
  then have "wake_task Q w g = g\<lparr>ex_queue := ex_queue g\<rparr>" by (simp add: wake_task_def)
  then show ?thesis ..
qed (auto simp: wake_task_def)

interpretation task_waker: waker_sink "wake_task Q" for Q
  by unfold_locales (rule wake_task_queue)

section \<open>Well-formedness\<close>

text \<open>
  Every task of the executor is in the registry under its own identifier; a cached waker belongs to a
  task of the executor and wakes that task.
\<close>

definition exec_ok :: "('f, 'q, 'x) exec_globals_scheme \<Rightarrow> bool" where
  "exec_ok g \<longleftrightarrow>
     (\<forall>i r. ex_tasks g i = Some r \<longrightarrow> registry g i = Some r \<and> t_id (heap g r) = i)
   \<and> (\<forall>i w. ex_wakers g i = Some w \<longrightarrow> w = i \<and> ex_tasks g i \<noteq> None)"

text \<open>
  While a future is polled the executor is locked, so it cannot change the executor's maps; it may
  change tasks, but identifiers are immutable. A future is \<open>quiet\<close> if polling it wakes nobody.
\<close>

definition poll_ok :: "('f, 'q, 'x) poll_fn \<Rightarrow> bool" where
  "poll_ok P \<longleftrightarrow> (\<forall>f w g. case P f w g of (_, _, g') \<Rightarrow>
     ex_tasks g' = ex_tasks g \<and> ex_wakers g' = ex_wakers g \<and> registry g' = registry g
     \<and> (\<forall>r. t_id (heap g' r) = t_id (heap g r)))"

definition poll_quiet :: "('f, 'q, 'x) poll_fn \<Rightarrow> bool" where
  "poll_quiet P \<longleftrightarrow> (\<forall>f w g. case P f w g of (_, _, g') \<Rightarrow> ex_queue g' = ex_queue g)"

lemma poll_okD:
  "poll_ok P \<Longrightarrow> P f w g = (d, f', g') \<Longrightarrow>
     ex_tasks g' = ex_tasks g \<and> ex_wakers g' = ex_wakers g \<and> registry g' = registry g
     \<and> t_id (heap g' r) = t_id (heap g r)"
  unfolding poll_ok_def by (metis (mono_tags, lifting) case_prod_conv)

lemma poll_quietD: "poll_quiet P \<Longrightarrow> P f w g = (d, f', g') \<Longrightarrow> ex_queue g' = ex_queue g"
  unfolding poll_quiet_def by (metis (mono_tags, lifting) case_prod_conv)

lemma task_poll_cases:
  obtains d f' g' where "P (t_future (heap g r)) w g = (d, f', g')"
    "task_poll P r w g = (d, upd_task r (\<lambda>t. t\<lparr>t_future := f'\<rparr>) g')"
  by (cases "P (t_future (heap g r)) w g") (auto simp: task_poll_def)

lemma ready_turn_exec_ok:
  assumes "poll_ok P" "exec_ok g"
  shows "exec_ok (ready_turn P i g)"
proof (cases "ex_tasks g i")
  case (Some r)
  show ?thesis
  proof (cases "t_state (heap g r) = Ready")
    case True
    define w where "w = (case ex_wakers g i of Some w \<Rightarrow> w | None \<Rightarrow> i)"
    define g1 where "g1 = g\<lparr>cur_id := i, ex_wakers := (ex_wakers g)(i \<mapsto> w)\<rparr>"
    have w: "w = i" using assms(2) by (auto simp: w_def exec_ok_def split: option.split)
    obtain d f' g2 where P: "P (t_future (heap g1 r)) w g1 = (d, f', g2)"
      "task_poll P r w g1 = (d, upd_task r (\<lambda>t. t\<lparr>t_future := f'\<rparr>) g2)"
      by (rule task_poll_cases)
    have keep: "ex_tasks g2 = ex_tasks g" "ex_wakers g2 = (ex_wakers g)(i \<mapsto> i)"
      "registry g2 = registry g" "\<And>s. t_id (heap g2 s) = t_id (heap g s)"
      using poll_okD[OF assms(1) P(1)] w by (auto simp: g1_def)
    have turn: "ready_turn P i g = (let g' = upd_task r (\<lambda>t. t\<lparr>t_future := f'\<rparr>) g2
        in if d then g'\<lparr>ex_tasks := (ex_tasks g')(i := None), registry := (registry g')(i := None),
                       ex_wakers := (ex_wakers g')(i := None)\<rparr> else g')"
      using Some True P(2) by (simp add: ready_turn_def Let_def w_def g1_def split: bool.split)
    show ?thesis
      using assms(2) Some unfolding turn Let_def
      by (auto simp: exec_ok_def keep split: if_splits)
  qed (use Some assms in \<open>simp add: ready_turn_def\<close>)
qed (use assms in \<open>simp add: ready_turn_def\<close>)

lemma exec_ok_queue [simp]: "exec_ok (g\<lparr>ex_queue := q\<rparr>) = exec_ok g"
  by (simp add: exec_ok_def)

lemma exec_ok_cur [simp]: "exec_ok (g\<lparr>cur_id := i\<rparr>) = exec_ok g"
  by (simp add: exec_ok_def)

text \<open>Facts about the result of the loop, if it ends, go by induction over its turns.\<close>

lemma run_loop_induct:
  assumes run: "run_loop Q P g = Some h"
    and empty: "\<And>g. aq_pop Q (ex_queue g) = None \<Longrightarrow> R g g"
    and turn: "\<And>g i q h. aq_pop Q (ex_queue g) = Some (i, q) \<Longrightarrow>
        R (ready_turn P i (g\<lparr>ex_queue := q\<rparr>)) h \<Longrightarrow> R g h"
  shows "R g h"
proof -
  let ?R = "\<lambda>((Q', P'), g) h. Q' = Q \<longrightarrow> P' = P \<longrightarrow> R g h"
  have "?R ((Q, P), g) h"
  proof (rule run_loop.raw_induct[of ?R, OF _ run])
    fix F Q' P' g h
    assume IH: "\<And>P g b y. F P g b = Some y \<Longrightarrow> ?R ((P, g), b) y"
      and eq: "(case aq_pop Q' (ex_queue g) of None \<Rightarrow> Some g
        | Some x \<Rightarrow> F Q' P' (ready_turn P' (fst x) (g\<lparr>ex_queue := snd x\<rparr>))) = Some h"
    have "R g h" if "Q' = Q" "P' = P"
    proof (cases "aq_pop Q (ex_queue g)")
      case None
      then show ?thesis using eq that empty by simp
    next
      case (Some x)
      then have "F Q P (ready_turn P (fst x) (g\<lparr>ex_queue := snd x\<rparr>)) = Some h"
        using eq that by simp
      from IH[OF this] have "R (ready_turn P (fst x) (g\<lparr>ex_queue := snd x\<rparr>)) h" by simp
      then show ?thesis using turn[of g "fst x" "snd x" h] Some by simp
    qed
    then show "?R ((Q', P'), g) h" by simp
  qed
  then show ?thesis by simp
qed

lemma run_loop_exec_ok:
  assumes "poll_ok P" and run: "run_loop Q P g = Some h" and ok: "exec_ok g"
  shows "exec_ok h"
proof -
  have "exec_ok g \<longrightarrow> exec_ok h"
    using run by (rule run_loop_induct) (auto intro: ready_turn_exec_ok[OF assms(1)])
  then show ?thesis using ok by blast
qed

section \<open>Ending\<close>

text \<open>Taking the oldest entry off the queue, as one turn of the loop begins.\<close>

definition drop_head :: "(u64, 'q) array_queue \<Rightarrow> ('f, 'q, 'x) exec_globals_scheme \<Rightarrow>
    ('f, 'q, 'x) exec_globals_scheme" where
  "drop_head Q g = (case aq_pop Q (ex_queue g) of None \<Rightarrow> g | Some x \<Rightarrow> g\<lparr>ex_queue := snd x\<rparr>)"

lemma ready_turn_queue:
  assumes "poll_quiet P"
  shows "ex_queue (ready_turn P i g) = ex_queue g"
proof -
  have "ex_queue (snd (task_poll P r w g)) = ex_queue g" for r w g
    by (rule task_poll_cases[of P g r w]) (use poll_quietD[OF assms] in auto)
  then have "task_poll P r w g = (d, g') \<Longrightarrow> ex_queue g' = ex_queue g" for r w g d g'
    by (metis snd_conv)
  note q = this
  show ?thesis
    by (auto simp: ready_turn_def Let_def split: option.split prod.split bool.split dest!: q)
qed

lemma run_loop_fifo:
  assumes "aq_laws Q items room" and "poll_quiet P"
  shows "run_loop Q P g
     = Some (fold (\<lambda>i g. ready_turn P i (drop_head Q g)) (items (ex_queue g)) g)"
proof (induction "items (ex_queue g)" arbitrary: g)
  case Nil
  then have "aq_pop Q (ex_queue g) = None" using aq_lawsD(4)[OF assms(1)] by simp
  then show ?case using Nil by (simp add: run_loop.simps)
next
  case (Cons i js)
  obtain q where q: "aq_pop Q (ex_queue g) = Some (i, q)" "items q = js"
    using aq_pop_Cons[OF assms(1) Cons.hyps(2)[symmetric]] by blast
  let ?g = "ready_turn P i (g\<lparr>ex_queue := q\<rparr>)"
  have e: "js = items (ex_queue ?g)" using ready_turn_queue[OF assms(2)] q by simp
  have "run_loop Q P g = run_loop Q P ?g"
    using q by (subst run_loop.simps) simp
  also have "\<dots> = Some (fold (\<lambda>i g. ready_turn P i (drop_head Q g)) js ?g)"
    using Cons.hyps(1)[OF e] e by simp
  finally show ?case using Cons.hyps(2)[symmetric] q by (simp add: drop_head_def)
qed

section \<open>What the executor guarantees\<close>

text \<open>
  \<^verbatim>\<open>spawn\<close> enrols a task exactly once: a new identifier enters the executor, the registry and the
  end of the queue and keeps them consistent; an identifier already present, or a full queue, panics.
\<close>

lemma spawn_enrols:
  assumes "aq_laws Q items room" and "exec_ok g"
  shows "(ex_tasks g (t_id (heap g r)) = None \<and> length (items (ex_queue g)) < room (ex_queue g) \<longrightarrow>
      (\<exists>g'. spawn Q r g = Ok g' \<and> exec_ok g'
        \<and> ex_tasks g' = (ex_tasks g)(t_id (heap g r) \<mapsto> r)
        \<and> registry g' = (registry g)(t_id (heap g r) \<mapsto> r)
        \<and> items (ex_queue g') = items (ex_queue g) @ [t_id (heap g r)]))
    \<and> (ex_tasks g (t_id (heap g r)) \<noteq> None \<longrightarrow>
        spawn Q r g = Panic ''Task with same ID already in executor'')
    \<and> (ex_tasks g (t_id (heap g r)) = None \<and> room (ex_queue g) \<le> length (items (ex_queue g)) \<longrightarrow>
        spawn Q r g = Panic ''Task queue full'')"
proof (intro conjI impI)
  assume new: "ex_tasks g (t_id (heap g r)) = None \<and> length (items (ex_queue g)) < room (ex_queue g)"
  obtain q where "aq_push Q (ex_queue g) (t_id (heap g r)) = Some q"
    "items q = items (ex_queue g) @ [t_id (heap g r)]"
    using aq_push_room[OF assms(1)] new by metis
  then show "\<exists>g'. spawn Q r g = Ok g' \<and> exec_ok g'
        \<and> ex_tasks g' = (ex_tasks g)(t_id (heap g r) \<mapsto> r)
        \<and> registry g' = (registry g)(t_id (heap g r) \<mapsto> r)
        \<and> items (ex_queue g') = items (ex_queue g) @ [t_id (heap g r)]"
    using assms(2) new by (auto simp: spawn_def Let_def exec_ok_def)
next
  show "ex_tasks g (t_id (heap g r)) \<noteq> None \<Longrightarrow>
      spawn Q r g = Panic ''Task with same ID already in executor''"
    by (simp add: spawn_def Let_def)
next
  assume "ex_tasks g (t_id (heap g r)) = None \<and> room (ex_queue g) \<le> length (items (ex_queue g))"
  then show "spawn Q r g = Panic ''Task queue full''"
    using aq_lawsD(3)[OF assms(1)] by (simp add: spawn_def Let_def)
qed

text \<open>
  C29. \<^verbatim>\<open>run_ready_tasks\<close> ends and is fair when no polled future wakes a task: it takes the queued
  identifiers in order, one turn each, empties the queue and clears the current task.
\<close>

theorem run_ready_tasks_fifo:
  assumes "aq_laws Q items room" and "poll_quiet P"
  shows "\<exists>h. run_ready_tasks Q P g = Some (h\<lparr>cur_id := 0\<rparr>)
     \<and> h = fold (\<lambda>i g. ready_turn P i (drop_head Q g)) (items (ex_queue g)) g
     \<and> items (ex_queue h) = []"
proof -
  let ?h = "fold (\<lambda>i g. ready_turn P i (drop_head Q g)) (items (ex_queue g)) g"
  have run: "run_loop Q P g = Some ?h" by (rule run_loop_fifo[OF assms])
  then have "aq_pop Q (ex_queue ?h) = None"
    by (rule run_loop_induct[where R = "\<lambda>_ h. aq_pop Q (ex_queue h) = None"]) simp_all
  then have "items (ex_queue ?h) = []"
    using aq_pop_Cons[OF assms(1)] by (cases "items (ex_queue ?h)") (auto, metis option.distinct(1))
  then show ?thesis using run by (simp add: run_ready_tasks_def)
qed

text \<open>A future that asks to be polled again each time it is polled, as a cooperative yield does.\<close>

definition self_waking :: "(u64, 'q) array_queue \<Rightarrow> ('f, 'q, 'x) poll_fn" where
  "self_waking Q f w g = (False, f, wake_task Q w g)"

text \<open>
  C30. One self-waking future keeps \<^verbatim>\<open>run_ready_tasks\<close> from ever returning: the loop drains the queue it
  refills. The timer, keyboard and serial handlers call it, so such a future stops the scheduler.
\<close>

theorem self_waking_future_diverges:
  fixes g :: "('f, 'q, 'x) exec_globals_scheme"
  assumes "aq_laws Q items room"
    and "items (ex_queue g) = [i]" and "0 < room (ex_queue g)"
    and "ex_tasks g i = Some r" and "t_state (heap g r) = Ready" and "ex_wakers g i = None"
  shows "run_ready_tasks Q (self_waking Q) g = None"
proof -
  define stuck where "stuck = (\<lambda>g :: ('f, 'q, 'x) exec_globals_scheme. items (ex_queue g) = [i]
      \<and> 0 < room (ex_queue g) \<and> ex_tasks g i = Some r \<and> t_state (heap g r) = Ready
      \<and> (ex_wakers g i = None \<or> ex_wakers g i = Some i))"
  have turn: "stuck (ready_turn (self_waking Q) j (g\<lparr>ex_queue := q\<rparr>))"
    if "stuck g" and pop: "aq_pop Q (ex_queue g) = Some (j, q)" for g j q
  proof -
    have q: "j = i" "items q = []" "room q = room (ex_queue g)"
      using that aq_pop_SomeD[OF assms(1) pop] by (auto simp: stuck_def)
    have "length (items q) < room q" using q that(1) by (simp add: stuck_def)
    then obtain q' where "aq_push Q q i = Some q'" "items q' = [i]" "room q' = room q"
      using aq_push_room[OF assms(1), of q i] q(2) by (metis append_Nil)
    then show ?thesis using that(1) q
      by (auto simp: stuck_def ready_turn_def Let_def task_poll_def self_waking_def wake_task_def)
  qed
  have "run_loop Q (self_waking Q) g \<noteq> Some h" for h
  proof
    assume "run_loop Q (self_waking Q) g = Some h"
    then have "\<not> stuck g"
    proof (rule run_loop_induct)
      fix g :: "('f, 'q, 'x) exec_globals_scheme"
      assume "aq_pop Q (ex_queue g) = None"
      then show "\<not> stuck g"
        using aq_pop_Cons[OF assms(1), of "ex_queue g" i "[]"] by (auto simp: stuck_def)
    qed (use turn in blast)
    moreover have "stuck g" using assms by (simp add: stuck_def)
    ultimately show False by blast
  qed
  then show ?thesis
    by (cases "run_loop Q (self_waking Q) g") (auto simp: run_ready_tasks_def)
qed

text \<open>
  Running the executor keeps its bookkeeping: for any future that respects the executor's lock,
  if \<^verbatim>\<open>run_ready_tasks\<close> returns, every task left in the executor is still registered under its own
  identifier and every cached waker wakes the task it is cached for; and it does return when the
  futures are quiet.
\<close>

lemma run_ready_tasks_exec_ok:
  assumes "poll_ok P" and "exec_ok g"
  shows "(\<forall>h. run_ready_tasks Q P g = Some h \<longrightarrow> exec_ok h \<and> cur_id h = 0)
     \<and> (aq_laws Q items room \<and> poll_quiet P \<longrightarrow> (\<exists>h. run_ready_tasks Q P g = Some h))"
proof -
  have "exec_ok h \<and> cur_id h = 0" if "run_ready_tasks Q P g = Some h" for h
    using that run_loop_exec_ok[OF assms(1) _ assms(2)] by (auto simp: run_ready_tasks_def)
  moreover have "\<exists>h. run_ready_tasks Q P g = Some h" if "aq_laws Q items room" "poll_quiet P"
    using run_loop_fifo[OF that, of g] by (simp add: run_ready_tasks_def)
  ultimately show ?thesis by blast
qed

text \<open>
  One turn for a ready task: a future that finishes takes its task out of the executor, the
  registry and the waker cache and leaves every other entry; one that does not finish leaves all
  entries and is remembered with its new state.
\<close>

lemma ready_turn_removes_finished:
  assumes "poll_ok P" and "exec_ok g"
    and "ex_tasks g i = Some r" and "t_state (heap g r) = Ready"
  shows "\<exists>done f' g'. P (t_future (heap g r)) i (g\<lparr>cur_id := i, ex_wakers := (ex_wakers g)(i \<mapsto> i)\<rparr>)
       = (done, f', g')
     \<and> ex_tasks (ready_turn P i g) = (if done then (ex_tasks g)(i := None) else ex_tasks g)
     \<and> registry (ready_turn P i g) = (if done then (registry g)(i := None) else registry g)
     \<and> ex_wakers (ready_turn P i g) = (ex_wakers g)(i := if done then None else Some i)
     \<and> t_future (heap (ready_turn P i g) r) = f'"
proof -
  have w: "(case ex_wakers g i of Some w \<Rightarrow> w | None \<Rightarrow> i) = i"
    using assms(2) by (auto simp: exec_ok_def split: option.split)
  let ?g = "g\<lparr>cur_id := i, ex_wakers := (ex_wakers g)(i \<mapsto> i)\<rparr>"
  obtain d f' g' where P: "P (t_future (heap g r)) i ?g = (d, f', g')"
    by (cases "P (t_future (heap g r)) i ?g") auto
  have keep: "ex_tasks g' = ex_tasks g" "ex_wakers g' = (ex_wakers g)(i \<mapsto> i)" "registry g' = registry g"
    using poll_okD[OF assms(1) P] by auto
  have "ready_turn P i g = (let h = upd_task r (\<lambda>t. t\<lparr>t_future := f'\<rparr>) g'
        in if d then h\<lparr>ex_tasks := (ex_tasks h)(i := None), registry := (registry h)(i := None),
                       ex_wakers := (ex_wakers h)(i := None)\<rparr> else h)"
    using assms(3,4) P by (simp add: ready_turn_def Let_def w task_poll_def split: bool.split)
  then show ?thesis using P keep by (simp add: Let_def)
qed

section \<open>A concrete executor\<close>

definition exec_statics :: "'f \<Rightarrow> 'q \<Rightarrow> ('f, 'q) exec_globals" where
  "exec_statics f q = \<lparr>heap = (\<lambda>_. blank_task f), next_ref = 0, next_id = 1, cur_id = 0,
     registry = Map.empty, kmem = (\<lambda>_. 0), ex_tasks = Map.empty, ex_queue = q,
     ex_wakers = Map.empty, console = []\<rparr>"

definition one_task :: "(unit, nat \<times> u64 list) exec_globals" where
  "one_task = (exec_statics () (100, [7]))\<lparr>heap := (\<lambda>_. blank_task ())(3 := (blank_task ())\<lparr>t_id := 7, t_state := Ready\<rparr>),
     registry := [7 \<mapsto> 3], ex_tasks := [7 \<mapsto> 3]\<rparr>"

definition finish_now :: "('f, 'q, 'x) poll_fn" where
  "finish_now f w g = (True, f, g)"

lemma finish_now_ok: "poll_ok finish_now" "poll_quiet finish_now"
  by (simp_all add: poll_ok_def poll_quiet_def finish_now_def)

lemma one_task_simps:
  "ex_tasks one_task 7 = Some 3" "ex_queue one_task = (100, [7])" "ex_wakers one_task = Map.empty"
  "t_state (heap one_task 3) = Ready" "t_id (heap one_task 0) = 0" "ex_tasks one_task 0 = None"
  by (simp_all add: one_task_def exec_statics_def blank_task_def)

lemma one_task_ok: "exec_ok one_task"
  by (simp add: exec_ok_def one_task_def exec_statics_def blank_task_def)

theorem run_ready_tasks_fifo_witness:
  "\<exists>h. run_ready_tasks list_queue finish_now one_task = Some h \<and> snd (ex_queue h) = []"
  using run_ready_tasks_fifo[OF list_queue_laws finish_now_ok(2), of one_task] by auto

theorem self_waking_future_diverges_witness:
  "run_ready_tasks list_queue (self_waking list_queue) one_task = None"
  by (rule self_waking_future_diverges[OF list_queue_laws, of _ 7 3]) (simp_all add: one_task_simps)

end
