(* ===== verification/Keyboard_Stream.thy ===== *)
theory Keyboard_Stream
  imports Executor
begin

text \<open>
  \<^verbatim>\<open>task/keyboard.rs\<close>: the queue of scancodes, filled by \<^verbatim>\<open>add_scancode\<close> from an interrupt and drained by the
  stream's \<^verbatim>\<open>poll_next\<close>. The interrupt may come between any two accesses of a poll, so besides the two
  operations there is a machine whose steps are single accesses, and the theorem about it is that no
  wake-up is lost. The queue and \<^verbatim>\<open>AtomicWaker\<close> are crates and parameters.
\<close>

section \<open>The waker cell of the futures crate\<close>

text \<open>\<open>wake\<close> and \<open>take\<close> both give the registered waker, if any, and leave the cell empty; \<open>wake\<close> then wakes it.\<close>

record 'a atomic_waker =
  aw_new :: 'a
  aw_register :: "'a \<Rightarrow> waker \<Rightarrow> 'a"
  aw_take :: "'a \<Rightarrow> waker option \<times> 'a"

definition aw_laws :: "'a atomic_waker \<Rightarrow> ('a \<Rightarrow> waker option) \<Rightarrow> bool" where
  "aw_laws W held \<longleftrightarrow> held (aw_new W) = None
     \<and> (\<forall>a w. held (aw_register W a w) = Some w)
     \<and> (\<forall>a. fst (aw_take W a) = held a \<and> held (snd (aw_take W a)) = None)"

lemma aw_lawsD:
  assumes "aw_laws W held"
  shows "held (aw_new W) = None" "held (aw_register W a w) = Some w"
    "aw_take W a = (v, a') \<Longrightarrow> v = held a \<and> held a' = None"
  using assms by (auto simp: aw_laws_def dest!: spec[of _ a])

definition option_waker :: "waker option atomic_waker" where
  "option_waker = \<lparr>aw_new = None, aw_register = (\<lambda>_ w. Some w), aw_take = (\<lambda>a. (a, None))\<rparr>"

lemma option_waker_laws: "aw_laws option_waker (\<lambda>a. a)"
  by (simp add: aw_laws_def option_waker_def)

section \<open>State and operations\<close>

text \<open>\<open>scancode_queue\<close> is the \<^verbatim>\<open>OnceCell\<close>: \<open>None\<close> until the first stream is made.\<close>

record ('f, 'q, 'kq, 'a) keyboard_globals = "('f, 'q) exec_globals" +
  scancode_queue :: "'kq option"
  kb_waker :: 'a

definition wake_registered :: "(u64, 'q) array_queue \<Rightarrow> 'a atomic_waker \<Rightarrow>
    ('f, 'q, 'kq, 'a, 'x) keyboard_globals_scheme \<Rightarrow> ('f, 'q, 'kq, 'a, 'x) keyboard_globals_scheme" where
  "wake_registered Q W g =
     (case aw_take W (kb_waker g) of
        (None, a) \<Rightarrow> g\<lparr>kb_waker := a\<rparr>
      | (Some w, a) \<Rightarrow> wake_task Q w (g\<lparr>kb_waker := a\<rparr>))"

definition add_scancode :: "(u64, 'q) array_queue \<Rightarrow> (u8, 'kq) array_queue \<Rightarrow> 'a atomic_waker \<Rightarrow> u8 \<Rightarrow>
    ('f, 'q, 'kq, 'a, 'x) keyboard_globals_scheme \<Rightarrow> ('f, 'q, 'kq, 'a, 'x) keyboard_globals_scheme" where
  "add_scancode Q K W scancode g =
     (case scancode_queue g of
        None \<Rightarrow> g
      | Some queue \<Rightarrow> (case aq_push K queue scancode of
            None \<Rightarrow> g
          | Some queue \<Rightarrow> wake_registered Q W (g\<lparr>scancode_queue := Some queue\<rparr>)))"

definition scancode_stream_new :: "(u8, 'kq) array_queue \<Rightarrow>
    ('f, 'q, 'kq, 'a, 'x) keyboard_globals_scheme \<Rightarrow> ('f, 'q, 'kq, 'a, 'x) keyboard_globals_scheme outcome" where
  "scancode_stream_new K g =
     (case scancode_queue g of
        None \<Rightarrow> Ok (g\<lparr>scancode_queue := Some (aq_new K 100)\<rparr>)
      | Some _ \<Rightarrow> Panic ''ScancodeStream::new'')"

text \<open>The three accesses of \<^verbatim>\<open>poll_next\<close>.\<close>

definition pop_scancode :: "(u8, 'kq) array_queue \<Rightarrow> ('f, 'q, 'kq, 'a, 'x) keyboard_globals_scheme \<Rightarrow>
    (u8 option \<times> ('f, 'q, 'kq, 'a, 'x) keyboard_globals_scheme) outcome" where
  "pop_scancode K g =
     bindo (expect ''scancode queue not initialized'' (scancode_queue g)) (\<lambda>queue.
       case aq_pop K queue of
         None \<Rightarrow> Ok (None, g)
       | Some (c, queue) \<Rightarrow> Ok (Some c, g\<lparr>scancode_queue := Some queue\<rparr>))"

definition register_waker :: "'a atomic_waker \<Rightarrow> waker \<Rightarrow> ('f, 'q, 'kq, 'a, 'x) keyboard_globals_scheme \<Rightarrow>
    ('f, 'q, 'kq, 'a, 'x) keyboard_globals_scheme" where
  "register_waker W w g = g\<lparr>kb_waker := aw_register W (kb_waker g) w\<rparr>"

definition take_waker :: "'a atomic_waker \<Rightarrow> ('f, 'q, 'kq, 'a, 'x) keyboard_globals_scheme \<Rightarrow>
    ('f, 'q, 'kq, 'a, 'x) keyboard_globals_scheme" where
  "take_waker W g = g\<lparr>kb_waker := snd (aw_take W (kb_waker g))\<rparr>"

text \<open>\<open>Some\<close> scancode is \<^verbatim>\<open>Poll::Ready\<close>, \<open>None\<close> is \<^verbatim>\<open>Poll::Pending\<close>.\<close>

definition poll_next :: "(u8, 'kq) array_queue \<Rightarrow> 'a atomic_waker \<Rightarrow> waker \<Rightarrow>
    ('f, 'q, 'kq, 'a, 'x) keyboard_globals_scheme \<Rightarrow>
    (u8 option \<times> ('f, 'q, 'kq, 'a, 'x) keyboard_globals_scheme) outcome" where
  "poll_next K W w g =
     bindo (pop_scancode K g) (\<lambda>(c, g).
       case c of
         Some c \<Rightarrow> Ok (Some c, g)
       | None \<Rightarrow>
           bindo (pop_scancode K (register_waker W w g)) (\<lambda>(c, g).
             case c of
               Some c \<Rightarrow> Ok (Some c, take_waker W g)
             | None \<Rightarrow> Ok (None, g)))"

section \<open>The poll and the interrupt, interleaved\<close>

datatype poll_pc = Waiting | First_Pop | Register | Second_Pop | Take u8 | Got u8

text \<open>
  A state: the program counter of the task that consumes the stream, the globals, and whether a wake-up
  was ever dropped because the executor's queue was full. A waiting task is polled again when the
  executor pops its identifier; after it got a scancode it polls again by itself.
\<close>

type_synonym ('f, 'q, 'kq, 'a) kb_state = "poll_pc \<times> ('f, 'q, 'kq, 'a) keyboard_globals \<times> bool"

definition drops_wake :: "(u64, 'q) array_queue \<Rightarrow> (u8, 'kq) array_queue \<Rightarrow> 'a atomic_waker \<Rightarrow> u8 \<Rightarrow>
    ('f, 'q, 'kq, 'a) keyboard_globals \<Rightarrow> bool" where
  "drops_wake Q K W c g =
     (case scancode_queue g of None \<Rightarrow> False
      | Some queue \<Rightarrow> aq_push K queue c \<noteq> None
          \<and> (case fst (aw_take W (kb_waker g)) of None \<Rightarrow> False | Some w \<Rightarrow> aq_push Q (ex_queue g) w = None))"

inductive kb_step :: "(u64, 'q) array_queue \<Rightarrow> (u8, 'kq) array_queue \<Rightarrow> 'a atomic_waker \<Rightarrow> waker \<Rightarrow>
    ('f, 'q, 'kq, 'a) kb_state \<Rightarrow> ('f, 'q, 'kq, 'a) kb_state \<Rightarrow> bool"
  for Q K W w where
  kb_interrupt: "kb_step Q K W w (pc, g, d) (pc, add_scancode Q K W c g, d \<or> drops_wake Q K W c g)"
| kb_scheduled: "aq_pop Q (ex_queue g) = Some (w, q) \<Longrightarrow>
    kb_step Q K W w (Waiting, g, d) (First_Pop, g\<lparr>ex_queue := q\<rparr>, d)"
| kb_other: "aq_pop Q (ex_queue g) = Some (w', q) \<Longrightarrow> w' \<noteq> w \<Longrightarrow>
    kb_step Q K W w (Waiting, g, d) (Waiting, g\<lparr>ex_queue := q\<rparr>, d)"
| kb_first_some: "pop_scancode K g = Ok (Some c, g') \<Longrightarrow> kb_step Q K W w (First_Pop, g, d) (Got c, g', d)"
| kb_first_none: "pop_scancode K g = Ok (None, g') \<Longrightarrow> kb_step Q K W w (First_Pop, g, d) (Register, g', d)"
| kb_register: "kb_step Q K W w (Register, g, d) (Second_Pop, register_waker W w g, d)"
| kb_second_some: "pop_scancode K g = Ok (Some c, g') \<Longrightarrow> kb_step Q K W w (Second_Pop, g, d) (Take c, g', d)"
| kb_second_none: "pop_scancode K g = Ok (None, g') \<Longrightarrow> kb_step Q K W w (Second_Pop, g, d) (Waiting, g', d)"
| kb_take: "kb_step Q K W w (Take c, g, d) (Got c, take_waker W g, d)"
| kb_again: "kb_step Q K W w (Got c, g, d) (First_Pop, g, d)"

text \<open>It starts with a fresh stream about to be polled for the first time.\<close>

definition kb_start :: "(u8, 'kq) array_queue \<Rightarrow> 'a atomic_waker \<Rightarrow> ('f, 'q, 'kq, 'a) kb_state \<Rightarrow> bool" where
  "kb_start K W s = (case s of (pc, g, d) \<Rightarrow>
     pc = First_Pop \<and> \<not> d \<and> scancode_queue g = Some (aq_new K 100) \<and> kb_waker g = aw_new W)"

definition kb_inv :: "(u64, 'q) array_queue \<Rightarrow> ('q \<Rightarrow> u64 list) \<Rightarrow> (u8, 'kq) array_queue \<Rightarrow> ('kq \<Rightarrow> u8 list) \<Rightarrow>
    ('kq \<Rightarrow> nat) \<Rightarrow> ('a \<Rightarrow> waker option) \<Rightarrow> waker \<Rightarrow> ('f, 'q, 'kq, 'a) kb_state \<Rightarrow> bool" where
  "kb_inv Q items K codes kroom held w s = (case s of (pc, g, d) \<Rightarrow>
     (\<exists>q. scancode_queue g = Some q \<and> 0 < kroom q
        \<and> (pc = Waiting \<longrightarrow> codes q = [] \<and> held (kb_waker g) = Some w \<or> w \<in> set (items (ex_queue g)) \<or> d)
        \<and> (pc = Second_Pop \<longrightarrow> held (kb_waker g) = Some w \<or> w \<in> set (items (ex_queue g)) \<or> d)))"

lemma wake_task_items:
  assumes "aq_laws Q items room"
  shows "set (items (ex_queue g)) \<subseteq> set (items (ex_queue (wake_task Q w g)))"
    and "w \<in> set (items (ex_queue (wake_task Q w g))) \<or> aq_push Q (ex_queue g) w = None"
  using aq_push_SomeD[OF assms, of "ex_queue g" w] by (auto simp: wake_task_def split: option.split)

lemma keyboard_wake [simp]:
  fixes g :: "('f, 'q, 'kq, 'a, 'x) keyboard_globals_scheme"
  shows "scancode_queue (wake_task Q w g) = scancode_queue g" "kb_waker (wake_task Q w g) = kb_waker g"
  using wake_task_queue[of Q w g] by auto

text \<open>What an interrupt does to the parts the invariant speaks of.\<close>

lemma add_scancode_effect:
  assumes "aq_laws Q items room" "aq_laws K codes kroom" "aw_laws W held" "scancode_queue g = Some q"
    and g'_def: "g' = add_scancode Q K W c g"
  shows "\<exists>q'. scancode_queue g' = Some q' \<and> kroom q' = kroom q"
    and "set (items (ex_queue g)) \<subseteq> set (items (ex_queue g'))"
    and "held (kb_waker g) = Some w \<Longrightarrow> g' = g \<or> w \<in> set (items (ex_queue g')) \<or> drops_wake Q K W c g"
proof -
  obtain v a where a: "aw_take W (kb_waker g) = (v, a)" by fastforce
  have v: "v = held (kb_waker g)" "held a = None" using aw_lawsD(3)[OF assms(3) a] by auto
  have pushed: "kroom q' = kroom q" if "aq_push K q c = Some q'" for q'
    using aq_push_SomeD(3)[OF assms(2) that] .
  note eff = add_scancode_def wake_registered_def a drops_wake_def assms(4)
  show "\<exists>q'. scancode_queue g' = Some q' \<and> kroom q' = kroom q"
    using pushed by (auto simp: g'_def eff split: option.split)
  show "set (items (ex_queue g)) \<subseteq> set (items (ex_queue g'))"
  proof (cases "aq_push K q c")
    case (Some q')
    then show ?thesis
      using wake_task_items(1)[OF assms(1), of "g\<lparr>scancode_queue := Some q', kb_waker := a\<rparr>"]
      by (cases v) (auto simp: g'_def eff)
  qed (simp add: g'_def eff)
  show "g' = g \<or> w \<in> set (items (ex_queue g')) \<or> drops_wake Q K W c g"
    if "held (kb_waker g) = Some w"
  proof (cases "aq_push K q c")
    case None
    then show ?thesis using that by (simp add: g'_def eff)
  next
    case (Some q')
    then show ?thesis
      using v that wake_task_items(2)[OF assms(1), of w "g\<lparr>scancode_queue := Some q', kb_waker := a\<rparr>"]
      by (auto simp: g'_def eff)
  qed
qed

lemma pop_scancode_effect:
  assumes "aq_laws K codes kroom" "pop_scancode K g = Ok (c, g')" "scancode_queue g = Some q"
  shows "\<exists>q'. scancode_queue g' = Some q' \<and> kroom q' = kroom q"
    "ex_queue g' = ex_queue g" "kb_waker g' = kb_waker g" "c = None \<Longrightarrow> g' = g \<and> codes q = []"
proof -
  have "codes q = []" if "aq_pop K q = None"
  proof (cases "codes q")
    case (Cons x xs)
    then show ?thesis using aq_pop_Cons[OF assms(1) Cons] that by auto
  qed
  moreover have "kroom q' = kroom q" if "aq_pop K q = Some (x, q')" for x q'
    using aq_pop_SomeD(2)[OF assms(1) that] .
  ultimately show "\<exists>q'. scancode_queue g' = Some q' \<and> kroom q' = kroom q"
    "ex_queue g' = ex_queue g" "kb_waker g' = kb_waker g" "c = None \<Longrightarrow> g' = g \<and> codes q = []"
    using assms(2,3) by (auto simp: pop_scancode_def split: option.splits)
qed

lemma kb_step_inv:
  assumes "aq_laws Q items room" "aq_laws K codes kroom" "aw_laws W held"
    and "kb_inv Q items K codes kroom held w s" "kb_step Q K W w s s'"
  shows "kb_inv Q items K codes kroom held w s'"
  using assms(5)
proof cases
  case (kb_interrupt pc g d c)
  obtain q where q: "scancode_queue g = Some q" "0 < kroom q"
    using assms(4) kb_interrupt(1) by (auto simp: kb_inv_def)
  note e = add_scancode_effect[OF assms(1-3) q(1) refl, where c = c]
  show ?thesis using assms(4) kb_interrupt q e(1,2) e(3)[where w = w] by (auto simp: kb_inv_def)
next
  case (kb_scheduled g q d)
  then show ?thesis using assms(4) by (auto simp: kb_inv_def)
next
  case (kb_other g w' q d)
  then show ?thesis using assms(4) aq_pop_SomeD(1)[OF assms(1)] by (fastforce simp: kb_inv_def)
next
  case (kb_first_some g c g' d)
  then show ?thesis using assms(4) pop_scancode_effect[OF assms(2) kb_first_some(3)] by (auto simp: kb_inv_def)
next
  case (kb_first_none g g' d)
  then show ?thesis using assms(4) pop_scancode_effect[OF assms(2) kb_first_none(3)] by (auto simp: kb_inv_def)
next
  case (kb_register g d)
  then show ?thesis using assms(4) aw_lawsD(2)[OF assms(3)] by (auto simp: kb_inv_def register_waker_def)
next
  case (kb_second_some g c g' d)
  then show ?thesis using assms(4) pop_scancode_effect[OF assms(2) kb_second_some(3)] by (auto simp: kb_inv_def)
next
  case (kb_second_none g g' d)
  then show ?thesis using assms(4) pop_scancode_effect[OF assms(2) kb_second_none(3)] by (auto simp: kb_inv_def)
next
  case (kb_take c g d)
  then show ?thesis using assms(4) by (auto simp: kb_inv_def take_waker_def)
next
  case (kb_again c g d)
  then show ?thesis using assms(4) by (auto simp: kb_inv_def)
qed

definition kb_laws where
  "kb_laws Q items room K codes kroom W held \<longleftrightarrow>
     aq_laws Q items room \<and> aq_laws K codes kroom \<and> aw_laws W held"

lemma kb_start_inv:
  assumes "kb_laws Q items room K codes kroom W held" "kb_start K W s"
  shows "kb_inv Q items K codes kroom held w s"
  using assms aq_lawsD(2)[of K codes kroom 100] by (auto simp: kb_start_def kb_inv_def kb_laws_def)

interpretation keyboard: invariant_system "kb_start K W" "kb_step Q K W w"
    "\<lambda>s. kb_laws Q items room K codes kroom W held \<longrightarrow> kb_inv Q items K codes kroom held w s"
  for K W Q w items room codes kroom held
  by unfold_locales (auto intro: kb_start_inv kb_step_inv simp: kb_laws_def)

text \<open>
  C15. No keystroke is slept through: however the accesses of a poll and the keyboard interrupts
  interleave, when the consumer waits although a scancode is buffered, its waker is in the executor's
  queue, so it will be polled, unless a wake-up was dropped because that queue was full.
\<close>

theorem no_lost_wakeup:
  assumes "aq_laws Q items room" and "aq_laws K codes kroom" and "aw_laws W held"
    and "reach (kb_start K W) (kb_step Q K W w) (Waiting, g, dropped)"
    and "scancode_queue g = Some q" and "codes q \<noteq> []"
  shows "w \<in> set (items (ex_queue g)) \<or> dropped"
proof -
  have "kb_inv Q items K codes kroom held w (Waiting, g, dropped)"
    using keyboard.reach_inv[OF assms(4), of items room codes kroom held] assms(1-3) by (simp add: kb_laws_def)
  then show ?thesis using assms(5,6) by (simp add: kb_inv_def)
qed

section \<open>One key\<close>

definition fresh_stream :: "(unit, nat \<times> u64 list, nat \<times> u8 list, waker option) keyboard_globals" where
  "fresh_stream = \<lparr>heap = (\<lambda>_. blank_task ()), next_ref = 0, next_id = 1, cur_id = 0,
     registry = Map.empty, kmem = (\<lambda>_. 0), ex_tasks = Map.empty, ex_queue = (100, []),
     ex_wakers = Map.empty, console = [], scancode_queue = Some (100, []), kb_waker = None\<rparr>"

definition after_key :: "(unit, nat \<times> u64 list, nat \<times> u8 list, waker option) keyboard_globals" where
  "after_key = add_scancode list_queue list_queue option_waker 30 (register_waker option_waker 7 fresh_stream)"

lemma ref_simps:
  "aq_push list_queue (n, xs) x = (if length xs < n then Some (n, xs @ [x]) else None)"
  "aw_take option_waker a = (a, None)" "aw_register option_waker a w = Some w"
  by (simp_all add: list_queue_def option_waker_def)

lemma one_key_reach:
  "reach (kb_start list_queue option_waker) (kb_step list_queue list_queue option_waker 7)
     (Waiting, after_key, False \<or> drops_wake list_queue list_queue option_waker 30 (register_waker option_waker 7 fresh_stream))"
proof -
  let ?R = "reach (kb_start list_queue option_waker) (kb_step list_queue list_queue option_waker 7)"
  have "kb_start list_queue option_waker (First_Pop, fresh_stream, False)"
    by (simp add: kb_start_def fresh_stream_def list_queue_def option_waker_def)
  then have "?R (First_Pop, fresh_stream, False)" by (rule reach_init)
  moreover have pop: "pop_scancode list_queue g = Ok (None, g)" if "scancode_queue g = Some (100, [])"
    for g :: "(unit, nat \<times> u64 list, nat \<times> u8 list, waker option) keyboard_globals"
    using that by (simp add: pop_scancode_def list_queue_def)
  then have "kb_step list_queue list_queue option_waker 7 (First_Pop, fresh_stream, False) (Register, fresh_stream, False)"
    by (intro kb_first_none) (simp add: fresh_stream_def)
  ultimately have "?R (Register, fresh_stream, False)" by (rule reach_step)
  then have "?R (Second_Pop, register_waker option_waker 7 fresh_stream, False)"
    by (rule reach_step) (rule kb_register)
  moreover have "kb_step list_queue list_queue option_waker 7
      (Second_Pop, register_waker option_waker 7 fresh_stream, False)
      (Waiting, register_waker option_waker 7 fresh_stream, False)"
    by (intro kb_second_none pop) (simp add: register_waker_def fresh_stream_def)
  ultimately have "?R (Waiting, register_waker option_waker 7 fresh_stream, False)" by (rule reach_step)
  then show ?thesis unfolding after_key_def by (rule reach_step) (rule kb_interrupt)
qed

theorem no_lost_wakeup_witness: "7 \<in> set (snd (ex_queue after_key))"
proof -
  let ?g = "register_waker option_waker 7 fresh_stream"
  have g: "scancode_queue ?g = Some (100, [])" "kb_waker ?g = Some 7" "ex_queue ?g = (100, [])"
    by (simp_all add: register_waker_def fresh_stream_def ref_simps)
  have "scancode_queue after_key = Some (100, [30])"
    unfolding after_key_def add_scancode_def wake_registered_def by (simp add: g ref_simps)
  moreover have "\<not> drops_wake list_queue list_queue option_waker 30 ?g"
    unfolding drops_wake_def by (simp add: g ref_simps)
  ultimately show ?thesis
    using no_lost_wakeup[OF list_queue_laws list_queue_laws option_waker_laws one_key_reach] by simp
qed

end
