(* ===== verification/Syscalls.thy ===== *)
theory Syscalls
  imports Executor
begin

text \<open>
  \<^verbatim>\<open>handle_syscall\<close> of \<^verbatim>\<open>syscall/mod.rs\<close>: the system call numbers, message passing, the name service, and
  the global mailbox the interrupt handlers write. Whether the processor can read or write a user
  address is the page tables' business and a parameter here.
\<close>

section \<open>State and results\<close>

record ('f, 'q) kernel_globals = "('f, 'q) exec_globals" +
  services :: "u64 \<rightharpoonup> u64"
  init_mbox :: "message option"
  init_mbox_locked :: bool

text \<open>
  A call returns a value; \<^verbatim>\<open>SYS_YIELD\<close> enables interrupts, halts and then returns; or it faults on the
  user's pointer, and then the frames of the handler are abandoned with the locks they hold.
\<close>

datatype 'g sys_result = Sys_Return u64 'g | Sys_Halt u64 'g | Sys_Fault 'g

primrec sys_state :: "'g sys_result \<Rightarrow> 'g" where
  "sys_state (Sys_Return v g) = g"
| "sys_state (Sys_Halt v g) = g"
| "sys_state (Sys_Fault g) = g"

record access =
  can_read :: "u64 \<Rightarrow> bool"
  can_write :: "u64 \<Rightarrow> bool"

definition msg_range :: "(u64 \<Rightarrow> bool) \<Rightarrow> u64 \<Rightarrow> bool" where
  "msg_range ok p \<longleftrightarrow> list_all (\<lambda>i. ok (p + of_nat i)) [0 ..< 40]"

lemma upd_task_kernel [simp]:
  fixes g :: "('f, 'q, 'x) kernel_globals_scheme"
  shows "services (upd_task r f g) = services g" "init_mbox (upd_task r f g) = init_mbox g"
    "init_mbox_locked (upd_task r f g) = init_mbox_locked g"
    "kernel_globals.more (upd_task r f g) = kernel_globals.more g"
  by (simp_all add: upd_task_def)

lemma wake_task_kernel [simp]:
  fixes g :: "('f, 'q, 'x) kernel_globals_scheme"
  shows "services (wake_task Q w g) = services g" "init_mbox (wake_task Q w g) = init_mbox g"
    "init_mbox_locked (wake_task Q w g) = init_mbox_locked g"
    "kernel_globals.more (wake_task Q w g) = kernel_globals.more g"
  using wake_task_queue[of Q w g] by auto

section \<open>Output\<close>

fun show_nat :: "nat \<Rightarrow> string" where
  "show_nat n = (if n < 10 then [char_of (48 + n)] else show_nat (n div 10) @ [char_of (48 + n mod 10)])"

definition show_u64 :: "u64 \<Rightarrow> string" where
  "show_u64 x = show_nat (unat x)"

definition esc :: "string \<Rightarrow> string" where
  "esc s = CHR 0x1B # s"

definition print :: "string \<Rightarrow> ('f, 'q, 'x) exec_globals_scheme \<Rightarrow> ('f, 'q, 'x) exec_globals_scheme" where
  "print s g = g\<lparr>console := console g @ s\<rparr>"

definition println :: "string \<Rightarrow> ('f, 'q, 'x) exec_globals_scheme \<Rightarrow> ('f, 'q, 'x) exec_globals_scheme" where
  "println s g = print (s @ [CHR 0x0A]) g"

text \<open>\<^verbatim>\<open>arg1 as u8 as char\<close>\<close>

definition u8_char :: "u64 \<Rightarrow> char" where
  "u8_char x = char_of (unat x mod 256)"

section \<open>The calls\<close>

definition sys_print :: "u64 \<Rightarrow> ('f, 'q, 'x) kernel_globals_scheme \<Rightarrow>
    ('f, 'q, 'x) kernel_globals_scheme sys_result" where
  "sys_print c g = Sys_Return 0 (print [u8_char c] g)"

definition sys_exit :: "('f, 'q, 'x) kernel_globals_scheme \<Rightarrow> ('f, 'q, 'x) kernel_globals_scheme sys_result" where
  "sys_exit g =
     (case registry g (cur_id g) of
        None \<Rightarrow> Sys_Return 0 g
      | Some r \<Rightarrow> Sys_Return 0 (println
          (CHR 0x0A # esc ''[33m[KERNEL] Process '' @ show_u64 (cur_id g) @ '' exited gracefully.'' @ esc ''[0m'')
          (upd_task r (\<lambda>t. t\<lparr>t_state := Terminated\<rparr>) g)))"

definition sys_send :: "(u64, 'q) array_queue \<Rightarrow> access \<Rightarrow> u64 \<Rightarrow> u64 \<Rightarrow>
    ('f, 'q, 'x) kernel_globals_scheme \<Rightarrow> ('f, 'q, 'x) kernel_globals_scheme sys_result" where
  "sys_send Q acc target_id msg_ptr g =
     (if msg_ptr < 0x20000000 then Sys_Return 2 g
      else if \<not> msg_range (can_read acc) msg_ptr then Sys_Fault g
      else
        let msg = read_msg (kmem g) msg_ptr
        in (case registry g target_id of
              None \<Rightarrow> Sys_Return 1 g
            | Some r \<Rightarrow>
                let g = upd_task r (\<lambda>t. t\<lparr>t_mailbox := Some msg\<rparr>) g
                in if t_state (heap g r) = Blocked
                   then
                     let g = upd_task r (\<lambda>t. t\<lparr>t_state := Ready\<rparr>) g
                     in (case t_waker (heap g r) of
                           None \<Rightarrow> Sys_Return 0 g
                         | Some w \<Rightarrow> Sys_Return 0 (wake_task Q w (upd_task r (\<lambda>t. t\<lparr>t_waker := None\<rparr>) g)))
                   else Sys_Return 0 g))"

text \<open>
  The lock of the mailbox is free again when \<^verbatim>\<open>SYS_RECV\<close> returns, but not when the write to the user's
  buffer faults: the message is taken by then and the lock is held. Bytes of the buffer written before
  the fault are not modelled.
\<close>

definition sys_recv :: "access \<Rightarrow> u64 \<Rightarrow> ('f, 'q, 'x) kernel_globals_scheme \<Rightarrow>
    ('f, 'q, 'x) kernel_globals_scheme sys_result" where
  "sys_recv acc msg_ptr g =
     (if init_mbox_locked g then Sys_Return 0 g
      else (case init_mbox g of
              None \<Rightarrow> Sys_Return 0 g
            | Some msg \<Rightarrow>
                let g = g\<lparr>init_mbox := None, init_mbox_locked := True\<rparr>
                in if \<not> msg_range (can_write acc) msg_ptr then Sys_Fault g
                   else Sys_Return 1 (g\<lparr>kmem := write_msg (kmem g) msg_ptr msg, init_mbox_locked := False\<rparr>)))"

definition sys_yield :: "('f, 'q, 'x) kernel_globals_scheme \<Rightarrow> ('f, 'q, 'x) kernel_globals_scheme sys_result" where
  "sys_yield g = Sys_Halt 0 g"

definition sys_set_priority :: "u64 \<Rightarrow> ('f, 'q, 'x) kernel_globals_scheme \<Rightarrow>
    ('f, 'q, 'x) kernel_globals_scheme sys_result" where
  "sys_set_priority p g =
     (case registry g (cur_id g) of
        None \<Rightarrow> Sys_Return 1 g
      | Some r \<Rightarrow> Sys_Return 0 (upd_task r (\<lambda>t. t\<lparr>t_priority := p\<rparr>) g))"

definition sys_reg_service :: "u64 \<Rightarrow> ('f, 'q, 'x) kernel_globals_scheme \<Rightarrow>
    ('f, 'q, 'x) kernel_globals_scheme sys_result" where
  "sys_reg_service name g = Sys_Return 0 (g\<lparr>services := (services g)(name \<mapsto> cur_id g)\<rparr>)"

definition sys_get_service_pid :: "u64 \<Rightarrow> ('f, 'q, 'x) kernel_globals_scheme \<Rightarrow>
    ('f, 'q, 'x) kernel_globals_scheme sys_result" where
  "sys_get_service_pid name g =
     (case services g name of Some pid \<Rightarrow> Sys_Return pid g | None \<Rightarrow> Sys_Return (- 1) g)"

definition handle_syscall :: "(u64, 'q) array_queue \<Rightarrow> access \<Rightarrow> u64 \<Rightarrow> u64 \<Rightarrow> u64 \<Rightarrow>
    ('f, 'q, 'x) kernel_globals_scheme \<Rightarrow> ('f, 'q, 'x) kernel_globals_scheme sys_result" where
  "handle_syscall Q acc i arg1 arg2 g =
     (if i = 1 then sys_print arg1 g
      else if i = 2 then sys_exit g
      else if i = 10 then sys_send Q acc arg1 arg2 g
      else if i = 11 then sys_recv acc arg1 g
      else if i = 12 then sys_yield g
      else if i = 13 then sys_set_priority arg1 g
      else if i = 14 then sys_reg_service arg1 g
      else if i = 15 then sys_get_service_pid arg1 g
      else Sys_Return (- 1) g)"

lemma handle_syscall_simps [simp]:
  "handle_syscall Q acc 1 a b g = sys_print a g" "handle_syscall Q acc 2 a b g = sys_exit g"
  "handle_syscall Q acc 10 a b g = sys_send Q acc a b g" "handle_syscall Q acc 11 a b g = sys_recv acc a g"
  "handle_syscall Q acc 12 a b g = sys_yield g" "handle_syscall Q acc 13 a b g = sys_set_priority a g"
  "handle_syscall Q acc 14 a b g = sys_reg_service a g"
  "handle_syscall Q acc 15 a b g = sys_get_service_pid a g"
  by (simp_all add: handle_syscall_def)

section \<open>What each call leaves alone\<close>

lemma print_keeps [simp]:
  fixes g :: "('f, 'q, 'x) exec_globals_scheme"
  shows "heap (print s g) = heap g" "next_ref (print s g) = next_ref g" "next_id (print s g) = next_id g"
    "cur_id (print s g) = cur_id g" "registry (print s g) = registry g" "kmem (print s g) = kmem g"
    "ex_tasks (print s g) = ex_tasks g" "ex_queue (print s g) = ex_queue g" "ex_wakers (print s g) = ex_wakers g"
    "console (print s g) = console g @ s" "exec_globals.more (print s g) = exec_globals.more g"
  by (simp_all add: print_def)

lemma print_kernel [simp]:
  fixes g :: "('f, 'q, 'x) kernel_globals_scheme"
  shows "services (print s g) = services g" "init_mbox (print s g) = init_mbox g"
    "init_mbox_locked (print s g) = init_mbox_locked g"
    "kernel_globals.more (print s g) = kernel_globals.more g"
  by (simp_all add: print_def)

lemmas sys_defs = sys_print_def sys_exit_def sys_send_def sys_recv_def sys_yield_def
  sys_set_priority_def sys_reg_service_def sys_get_service_pid_def println_def Let_def

lemmas sys_splits = option.split if_split

lemma syscall_cases:
  obtains (print) "i = 1" | (exit) "i = 2" | (send) "i = 10" | (recv) "i = 11" | (yield) "i = 12"
  | (prio) "i = 13" | (reg) "i = 14" | (get) "i = 15"
  | (unknown) "handle_syscall Q acc i a b g = Sys_Return (- 1) g"
  by (cases "i \<in> {1, 2, 10, 11, 12, 13, 14, 15}") (auto simp: handle_syscall_def)

text \<open>No call creates, moves or renames a task, or changes the executor's or the registry's maps.\<close>

lemma syscall_keeps [frame_simps]:
  "next_ref (sys_state (handle_syscall Q acc i a b g)) = next_ref g"
  "next_id (sys_state (handle_syscall Q acc i a b g)) = next_id g"
  "cur_id (sys_state (handle_syscall Q acc i a b g)) = cur_id g"
  "registry (sys_state (handle_syscall Q acc i a b g)) = registry g"
  "ex_tasks (sys_state (handle_syscall Q acc i a b g)) = ex_tasks g"
  "ex_wakers (sys_state (handle_syscall Q acc i a b g)) = ex_wakers g"
  by (rule syscall_cases[where i = i and Q = Q and acc = acc and a = a and b = b and g = g]; simp add: sys_defs frame_simps split: sys_splits)+

lemma syscall_keeps_task [frame_simps]:
  "t_id (heap (sys_state (handle_syscall Q acc i a b g)) r) = t_id (heap g r)"
  "t_kernel_rsp (heap (sys_state (handle_syscall Q acc i a b g)) r) = t_kernel_rsp (heap g r)"
  "t_kernel_stack_top (heap (sys_state (handle_syscall Q acc i a b g)) r) = t_kernel_stack_top (heap g r)"
  "t_future (heap (sys_state (handle_syscall Q acc i a b g)) r) = t_future (heap g r)"
  by (rule syscall_cases[where i = i and Q = Q and acc = acc and a = a and b = b and g = g]; simp add: sys_defs frame_simps split: sys_splits)+

lemma syscall_exec_ok:
  "exec_ok g \<Longrightarrow> exec_ok (sys_state (handle_syscall Q acc i a b g))"
  unfolding exec_ok_def by (simp add: frame_simps)

lemma syscall_mbox:
  "i \<noteq> 11 \<Longrightarrow> init_mbox (sys_state (handle_syscall Q acc i a b g)) = init_mbox g"
  "i \<noteq> 11 \<Longrightarrow> init_mbox_locked (sys_state (handle_syscall Q acc i a b g)) = init_mbox_locked g"
  by (rule syscall_cases[where i = i and Q = Q and acc = acc and a = a and b = b and g = g]; simp add: sys_defs frame_simps split: sys_splits)+

section \<open>Sending and receiving\<close>

lemma no_waker:
  "t_waker t = None \<Longrightarrow> t\<lparr>t_mailbox := m, t_state := s, t_waker := None\<rparr> = t\<lparr>t_mailbox := m, t_state := s\<rparr>"
  by (cases t) simp

lemma sys_send_Some:
  assumes "0x20000000 \<le> p" "msg_range (can_read acc) p" "registry g tgt = Some r"
  shows "sys_send Q acc tgt p g = Sys_Return 0
     (let g1 = upd_task r (\<lambda>t. t\<lparr>t_mailbox := Some (read_msg (kmem g) p),
              t_state := (if t_state t = Blocked then Ready else t_state t),
              t_waker := (if t_state t = Blocked then None else t_waker t)\<rparr>) g
      in if t_state (heap g r) = Blocked
         then (case t_waker (heap g r) of None \<Rightarrow> g1 | Some w \<Rightarrow> wake_task Q w g1) else g1)"
proof -
  have "\<not> p < 0x20000000" using assms(1) by simp
  then show ?thesis using assms(2,3)
    by (auto simp: sys_send_def Let_def upd_task_def no_waker split: option.split)
qed

text \<open>
  C24. \<^verbatim>\<open>SYS_SEND\<close> delivers: for a known target and a readable message it returns 0, the message read
  from the sender is in the target's mailbox, a blocked target becomes ready and its waker, if it left
  one, is taken and its identifier put at the end of the executor's queue as long as the queue has
  room; no other task changes.
\<close>

theorem sys_send_delivers:
  assumes "aq_laws Q items room"
    and "0x20000000 \<le> p" and "msg_range (can_read acc) p" and "registry g tgt = Some r"
  shows "\<exists>g'. handle_syscall Q acc 10 tgt p g = Sys_Return 0 g'
     \<and> t_mailbox (heap g' r) = Some (read_msg (kmem g) p)
     \<and> t_state (heap g' r) = (if t_state (heap g r) = Blocked then Ready else t_state (heap g r))
     \<and> (t_state (heap g r) = Blocked \<longrightarrow> t_waker (heap g' r) = None)
     \<and> (\<forall>s. s \<noteq> r \<longrightarrow> heap g' s = heap g s)
     \<and> items (ex_queue g') = items (ex_queue g) @
         (case t_waker (heap g r) of
            Some w \<Rightarrow> if t_state (heap g r) = Blocked \<and> length (items (ex_queue g)) < room (ex_queue g)
                      then [w] else []
          | None \<Rightarrow> [])"
proof -
  define g1 where "g1 = upd_task r (\<lambda>t. t\<lparr>t_mailbox := Some (read_msg (kmem g) p),
              t_state := (if t_state t = Blocked then Ready else t_state t),
              t_waker := (if t_state t = Blocked then None else t_waker t)\<rparr>) g"
  have send: "handle_syscall Q acc 10 tgt p g = Sys_Return 0
      (if t_state (heap g r) = Blocked
       then (case t_waker (heap g r) of None \<Rightarrow> g1 | Some w \<Rightarrow> wake_task Q w g1) else g1)"
    using sys_send_Some[OF assms(2-4), of Q] unfolding g1_def Let_def by (simp only: handle_syscall_simps)
  have q: "ex_queue g1 = ex_queue g" by (simp add: g1_def)
  have wake: "items (ex_queue (wake_task Q w g1)) = items (ex_queue g) @
      (if length (items (ex_queue g)) < room (ex_queue g) then [w] else [])" for w
  proof (cases "length (items (ex_queue g)) < room (ex_queue g)")
    case True
    then obtain q' where "aq_push Q (ex_queue g) w = Some q'" "items q' = items (ex_queue g) @ [w]"
      using aq_push_room[OF assms(1)] by metis
    then show ?thesis using True by (simp add: wake_task_def q)
  next
    case False
    then have "aq_push Q (ex_queue g) w = None" by (intro aq_lawsD(3)[OF assms(1)]) simp
    then show ?thesis using False by (simp add: wake_task_def q)
  qed
  have h: "heap (wake_task Q w g1) = heap g1" for w by (simp add: frame_simps)
  show ?thesis unfolding send
    by (cases "t_waker (heap g r)"; cases "t_state (heap g r) = Blocked")
      (simp_all add: wake q h, simp_all add: g1_def)
qed

text \<open>
  \<^verbatim>\<open>SYS_SEND\<close> fails cleanly: a pointer below 0x20000000 gives 2, an identifier that is not registered
  gives 1, and neither changes anything; a pointer above the bound that is not readable faults in the
  kernel, since the bound is the only check.
\<close>

lemma sys_send_errors:
  "(p < 0x20000000 \<longrightarrow> handle_syscall Q acc 10 tgt p g = Sys_Return 2 g)
   \<and> (0x20000000 \<le> p \<and> msg_range (can_read acc) p \<and> registry g tgt = None \<longrightarrow>
        handle_syscall Q acc 10 tgt p g = Sys_Return 1 g)
   \<and> (0x20000000 \<le> p \<and> \<not> msg_range (can_read acc) p \<longrightarrow>
        handle_syscall Q acc 10 tgt p g = Sys_Fault g)"
  by (simp add: sys_send_def Let_def not_less[symmetric])

text \<open>
  C25. \<^verbatim>\<open>SYS_RECV\<close> hands the message in the global mailbox to the caller once: it returns 1, the buffer
  holds the message and no byte outside its 40 bytes changes, the mailbox is empty and its lock free
  again; with an empty or locked mailbox it returns 0 and changes nothing.
\<close>

theorem sys_recv_takes_message:
  assumes "init_mbox_locked g = False"
  shows "(\<forall>msg. init_mbox g = Some msg \<and> msg_range (can_write acc) p \<longrightarrow>
       (\<exists>g'. handle_syscall Q acc 11 p b g = Sys_Return 1 g' \<and> read_msg (kmem g') p = msg
          \<and> (\<forall>a. 40 \<le> unat (a - p) \<longrightarrow> kmem g' a = kmem g a)
          \<and> init_mbox g' = None \<and> \<not> init_mbox_locked g' \<and> heap g' = heap g
          \<and> handle_syscall Q acc 11 p b g' = Sys_Return 0 g'))
     \<and> (init_mbox g = None \<longrightarrow> handle_syscall Q acc 11 p b g = Sys_Return 0 g)
     \<and> handle_syscall Q acc 11 p b (g\<lparr>init_mbox_locked := True\<rparr>)
         = Sys_Return 0 (g\<lparr>init_mbox_locked := True\<rparr>)"
  using assms by (auto simp: sys_recv_def Let_def write_msg_other)

text \<open>
  A message sent with \<^verbatim>\<open>SYS_SEND\<close> is never received with \<^verbatim>\<open>SYS_RECV\<close>: the one writes the target's
  mailbox, the other reads the global one, so a send, whatever its result, leaves what any later receive
  returns as it was.
\<close>

lemma send_never_reaches_recv:
  "init_mbox (sys_state (handle_syscall Q acc 10 tgt p g)) = init_mbox g
   \<and> (init_mbox g = None \<longrightarrow>
        (let g' = sys_state (handle_syscall Q acc 10 tgt p g)
         in handle_syscall Q acc' 11 p' b' g' = Sys_Return 0 g'))"
proof -
  have "init_mbox (sys_state (handle_syscall Q acc 10 tgt p g)) = init_mbox g"
    by (rule syscall_mbox) simp
  then show ?thesis by (simp add: Let_def sys_recv_def del: handle_syscall_simps) (simp add: sys_recv_def)
qed

text \<open>
  C17. Waiting and sending fit together: a future that polls an empty mailbox blocks its task and
  leaves its waker; a send to the task then makes it ready, queues the waker's identifier if the queue
  has room, and the next poll delivers exactly the message sent. The hypothesis that the polled task is
  the registered one is what \<^verbatim>\<open>spawn\<close> establishes.
\<close>

theorem ipc_wait_and_send:
  assumes "aq_laws Q items room"
    and "registry g tgt = Some r" and "t_mailbox (heap g r) = None"
    and "0x20000000 \<le> p" and "msg_range (can_read acc) p"
    and "length (items (ex_queue g)) < room (ex_queue g)"
  shows "let (m1, g1) = ipc_receive_poll r w g;
             g2 = sys_state (handle_syscall Q acc 10 tgt p g1);
             (m2, g3) = ipc_receive_poll r w g2
     in m1 = None \<and> t_state (heap g1 r) = Blocked
        \<and> t_state (heap g2 r) = Ready \<and> items (ex_queue g2) = items (ex_queue g) @ [w]
        \<and> m2 = Some (read_msg (kmem g) p) \<and> t_mailbox (heap g3 r) = None"
proof -
  define g1 where "g1 = upd_task r (\<lambda>t. t\<lparr>t_waker := Some w, t_state := Blocked\<rparr>) g"
  have p1: "ipc_receive_poll r w g = (None, g1)" using assms(3) by (simp add: ipc_receive_poll_def g1_def)
  obtain q where q: "aq_push Q (ex_queue g) w = Some q" "items q = items (ex_queue g) @ [w]"
    using aq_push_room[OF assms(1,6)] .
  define g2 where "g2 = sys_state (sys_send Q acc tgt p g1)"
  have send: "heap g2 r = (heap g r)\<lparr>t_mailbox := Some (read_msg (kmem g) p), t_state := Ready, t_waker := None\<rparr>"
    "ex_queue g2 = q"
    using sys_send_Some[of p acc g1 tgt r Q] assms(2,4,5) q(1)
    by (simp_all add: g2_def g1_def wake_task_def Let_def)
  have "ipc_receive_poll r w g2
      = (Some (read_msg (kmem g) p), upd_task r (\<lambda>t. t\<lparr>t_mailbox := None, t_state := Ready\<rparr>) g2)"
    using send(1) by (simp add: ipc_receive_poll_def)
  then show ?thesis
    unfolding p1 handle_syscall_simps prod.case Let_def g2_def[symmetric]
    using send q(2) by (simp add: g1_def)
qed

section \<open>Services, exit, priority\<close>

text \<open>
  The name service is a map: a registered name resolves to the identifier of the last task that
  registered it, other names keep their answer, and a name nobody registered gives the largest \<^verbatim>\<open>u64\<close>.
\<close>

lemma service_registry:
  "(\<exists>g'. handle_syscall Q acc 14 name b g = Sys_Return 0 g'
      \<and> handle_syscall Q acc 15 name b' g' = Sys_Return (cur_id g) g'
      \<and> (\<forall>other v. other \<noteq> name \<and> handle_syscall Q acc 15 other b' g = Sys_Return v g \<longrightarrow>
            handle_syscall Q acc 15 other b' g' = Sys_Return v g'))
   \<and> (services g name = None \<longrightarrow> handle_syscall Q acc 15 name b g = Sys_Return (- 1) g)"
  by (auto simp: sys_reg_service_def sys_get_service_pid_def split: option.splits)

text \<open>
  \<^verbatim>\<open>SYS_EXIT\<close> and \<^verbatim>\<open>SYS_SET_PRIORITY\<close> act on the registered current task only: on it they set the
  state or the priority and nothing else of any task; for a current identifier that is not in the
  registry, which is every user process as \<^verbatim>\<open>main.rs\<close> creates them, exit reports success and does
  nothing, and set-priority returns 1.
\<close>

lemma exit_and_priority:
  "(\<forall>r. registry g (cur_id g) = Some r \<longrightarrow>
      (\<exists>g' g''. handle_syscall Q acc 2 a b g = Sys_Return 0 g'
         \<and> heap g' = (heap g)(r := (heap g r)\<lparr>t_state := Terminated\<rparr>)
         \<and> handle_syscall Q acc 13 a b g = Sys_Return 0 g''
         \<and> heap g'' = (heap g)(r := (heap g r)\<lparr>t_priority := a\<rparr>)))
   \<and> (registry g (cur_id g) = None \<longrightarrow>
        handle_syscall Q acc 2 a b g = Sys_Return 0 g \<and> handle_syscall Q acc 13 a b g = Sys_Return 1 g)"
  by (auto simp: sys_exit_def sys_set_priority_def println_def)

section \<open>A concrete kernel state\<close>

definition kernel_statics :: "'f \<Rightarrow> 'q \<Rightarrow> ('f, 'q) kernel_globals" where
  "kernel_statics f q = \<lparr>heap = (\<lambda>_. blank_task f), next_ref = 0, next_id = 1, cur_id = 0,
     registry = Map.empty, kmem = (\<lambda>_. 0), ex_tasks = Map.empty, ex_queue = q,
     ex_wakers = Map.empty, console = [], services = Map.empty, init_mbox = None,
     init_mbox_locked = False\<rparr>"

definition open_access :: access where
  "open_access = \<lparr>can_read = (\<lambda>_. True), can_write = (\<lambda>_. True)\<rparr>"

definition one_waiter :: "(unit, nat \<times> u64 list) kernel_globals" where
  "one_waiter = (kernel_statics () (100, []))
     \<lparr>heap := (\<lambda>_. blank_task ())(3 := (blank_task ())\<lparr>t_id := 7, t_state := Blocked, t_waker := Some 7\<rparr>),
      registry := [7 \<mapsto> 3]\<rparr>"

lemma open_range: "msg_range (can_read open_access) p" "msg_range (can_write open_access) p"
  by (simp_all add: msg_range_def open_access_def list_all_iff)

theorem sys_send_delivers_witness:
  "\<exists>g'. handle_syscall list_queue open_access 10 7 0x20000000 one_waiter = Sys_Return 0 g'
     \<and> t_state (heap g' 3) = Ready \<and> snd (ex_queue g') = [7]"
proof -
  have "(0x20000000 :: u64) \<le> 0x20000000" "registry one_waiter 7 = Some 3"
    by (simp_all add: one_waiter_def)
  from sys_send_delivers[OF list_queue_laws this(1) open_range(1) this(2)] show ?thesis
    by (auto simp: one_waiter_def kernel_statics_def)
qed

theorem sys_recv_takes_message_witness:
  "\<exists>g'. handle_syscall list_queue open_access 11 0x20000000 0
       ((kernel_statics () (100, []))\<lparr>init_mbox := Some \<lparr>msg_from = 0, msg_to = 1, msg_label = 3, msg_payload = (65, 0)\<rparr>\<rparr>)
       = Sys_Return 1 g'
     \<and> msg_label (read_msg (kmem g') 0x20000000) = 3"
proof -
  let ?g = "(kernel_statics () (100 :: nat, [] :: u64 list))
    \<lparr>init_mbox := Some \<lparr>msg_from = 0, msg_to = 1, msg_label = 3, msg_payload = (65, 0)\<rparr>\<rparr>"
  have "init_mbox_locked ?g = False" by (simp add: kernel_statics_def)
  from sys_recv_takes_message[OF this, of open_access "0x20000000" list_queue 0] open_range
  show ?thesis by auto
qed

theorem ipc_wait_and_send_witness:
  "let (m1, g1) = ipc_receive_poll 3 7 one_waiter;
       g2 = sys_state (handle_syscall list_queue open_access 10 7 0x20000000 g1)
   in t_state (heap g2 3) = Ready \<and> snd (ex_queue g2) = [7]"
proof -
  have "registry one_waiter 7 = Some 3" "t_mailbox (heap one_waiter 3) = None"
    "(0x20000000 :: u64) \<le> 0x20000000" "length (snd (ex_queue one_waiter)) < fst (ex_queue one_waiter)"
    "snd (ex_queue one_waiter) = []"
    by (simp_all add: one_waiter_def kernel_statics_def blank_task_def)
  then show ?thesis
    using ipc_wait_and_send[OF list_queue_laws, of one_waiter 7 3 "0x20000000" open_access 7] open_range
    by (simp add: Let_def split_beta del: handle_syscall_simps)
qed

end
