(* ===== verification/Keypresses.thy ===== *)
theory Keypresses
  imports Keyboard_Stream Syscalls
begin

text \<open>
  \<^verbatim>\<open>print_keypresses\<close> of \<^verbatim>\<open>main.rs\<close>, the task that consumes the scancode stream and prints the decoded keys.
  The decoder of the \<^verbatim>\<open>pc_keyboard\<close> crate is a parameter.
\<close>

section \<open>The task\<close>

datatype 'k decoded_key = Unicode char | Raw_Key 'k

text \<open>\<open>kd_show\<close> is the debug output of a key code.\<close>

record ('s, 'ev, 'k) key_decoder =
  kd_add_byte :: "'s \<Rightarrow> u8 \<Rightarrow> (string + 'ev option) \<times> 's"
  kd_process :: "'s \<Rightarrow> 'ev \<Rightarrow> 'k decoded_key option \<times> 's"
  kd_show :: "'k \<Rightarrow> string"

fun key_text :: "('s, 'ev, 'k) key_decoder \<Rightarrow> 'k decoded_key \<Rightarrow> string" where
  "key_text D (Unicode c) = [c]"
| "key_text D (Raw_Key k) = kd_show D k"

definition handle_scancode :: "('s, 'ev, 'k) key_decoder \<Rightarrow> u8 \<Rightarrow> 's \<times> ('f, 'q, 'x) exec_globals_scheme \<Rightarrow>
    's \<times> ('f, 'q, 'x) exec_globals_scheme" where
  "handle_scancode D c st =
     (case st of (kb, g) \<Rightarrow>
       (case kd_add_byte D kb c of
          (Inr (Some ev), kb) \<Rightarrow>
            (case kd_process D kb ev of
               (Some key, kb) \<Rightarrow> (kb, print (key_text D key) g)
             | (None, kb) \<Rightarrow> (kb, g))
        | (_, kb) \<Rightarrow> (kb, g)))"

text \<open>One poll of the task: it runs until the stream is pending. \<open>None\<close> would be a poll that never ends.\<close>

partial_function (option) poll_keypresses :: "(u8, 'kq) array_queue \<Rightarrow> 'a atomic_waker \<Rightarrow> waker \<Rightarrow>
    ('s, 'ev, 'k) key_decoder \<Rightarrow> 's \<Rightarrow> ('f, 'q, 'kq, 'a, 'x) keyboard_globals_scheme \<Rightarrow>
    ('s \<times> ('f, 'q, 'kq, 'a, 'x) keyboard_globals_scheme) outcome option" where
  "poll_keypresses K W w D kb g =
     (case poll_next K W w g of
        Panic e \<Rightarrow> Some (Panic e)
      | Ok x \<Rightarrow> (case fst x of
            None \<Rightarrow> Some (Ok (kb, snd x))
          | Some c \<Rightarrow> poll_keypresses K W w D (fst (handle_scancode D c (kb, snd x))) (snd (handle_scancode D c (kb, snd x)))))"

section \<open>It decodes what was typed\<close>

text \<open>The reference: decode a list of scancodes, collecting the text.\<close>

definition type_key :: "('s, 'ev, 'k) key_decoder \<Rightarrow> u8 \<Rightarrow> 's \<times> string \<Rightarrow> 's \<times> string" where
  "type_key D c st =
     (case st of (kb, s) \<Rightarrow>
       (case kd_add_byte D kb c of
          (Inr (Some ev), kb) \<Rightarrow>
            (case kd_process D kb ev of (Some key, kb) \<Rightarrow> (kb, s @ key_text D key) | (None, kb) \<Rightarrow> (kb, s))
        | (_, kb) \<Rightarrow> (kb, s)))"

definition type_keys :: "('s, 'ev, 'k) key_decoder \<Rightarrow> u8 list \<Rightarrow> 's \<times> string \<Rightarrow> 's \<times> string" where
  "type_keys D = fold (type_key D)"

lemma print_keyboard [simp]:
  fixes g :: "('f, 'q, 'kq, 'a, 'x) keyboard_globals_scheme"
  shows "scancode_queue (print s g) = scancode_queue g" "kb_waker (print s g) = kb_waker g"
  by (simp_all add: print_def)

lemma handle_scancode_type:
  fixes g :: "('f, 'q, 'kq, 'a, 'x) keyboard_globals_scheme"
  assumes "handle_scancode D c (kb, g) = (kb', g')"
  shows "type_key D c (kb, console g) = (kb', console g')" "scancode_queue g' = scancode_queue g" "kb_waker g' = kb_waker g"
  using assms by (auto simp: handle_scancode_def type_key_def split: prod.splits sum.splits option.splits)

lemma poll_next_item:
  assumes "aq_laws K kitems kroom" "scancode_queue g = Some q" "kitems q = c # rest"
  obtains q' where "poll_next K W w g = Ok (Some c, g\<lparr>scancode_queue := Some q'\<rparr>)" "kitems q' = rest"
proof -
  obtain q' where "aq_pop K q = Some (c, q')" "kitems q' = rest" using aq_pop_Cons[OF assms(1,3)] .
  then show thesis using that assms(2) by (simp add: poll_next_def pop_scancode_def expect_def)
qed

lemma poll_next_empty:
  assumes "aq_laws K kitems kroom" "scancode_queue g = Some q" "kitems q = []"
  shows "poll_next K W w g = Ok (None, register_waker W w g)"
proof -
  have "aq_pop K q = None" by (rule aq_lawsD(4)[OF assms(1,3)])
  then show ?thesis using assms(2) by (simp add: poll_next_def pop_scancode_def expect_def register_waker_def)
qed

text \<open>
  C40. The keyboard task prints what was typed: a poll ends, after it has taken every buffered scancode in
  order and printed exactly the text the decoder gives for them, and it leaves its waker with the stream
  so that the next key wakes it.
\<close>

theorem keypresses_decode:
  assumes "aq_laws K kitems kroom" and "aw_laws W held" and "scancode_queue g = Some q"
  shows "\<exists>kb' g' q'. poll_keypresses K W w D kb g = Some (Ok (kb', g'))
     \<and> type_keys D (kitems q) (kb, console g) = (kb', console g')
     \<and> scancode_queue g' = Some q' \<and> kitems q' = [] \<and> held (kb_waker g') = Some w"
  using assms(3)
proof (induction "kitems q" arbitrary: q kb g)
  case Nil
  have q: "kitems q = []" using Nil.hyps by simp
  have "poll_next K W w g = Ok (None, register_waker W w g)" by (rule poll_next_empty[OF assms(1) Nil.prems q])
  then have "poll_keypresses K W w D kb g = Some (Ok (kb, register_waker W w g))"
    by (subst poll_keypresses.simps) simp
  then show ?case
    using q Nil.prems aw_lawsD(2)[OF assms(2)] by (simp add: type_keys_def register_waker_def)
next
  case (Cons c rest)
  obtain q' where q': "poll_next K W w g = Ok (Some c, g\<lparr>scancode_queue := Some q'\<rparr>)" "kitems q' = rest"
    using poll_next_item[OF assms(1) Cons.prems Cons.hyps(2)[symmetric]] .
  obtain kb1 g1 where h: "handle_scancode D c (kb, g\<lparr>scancode_queue := Some q'\<rparr>) = (kb1, g1)" by fastforce
  have h1: "type_key D c (kb, console g) = (kb1, console g1)" "scancode_queue g1 = Some q'"
    using handle_scancode_type[OF h] by simp_all
  have step: "poll_keypresses K W w D kb g = poll_keypresses K W w D kb1 g1"
    by (subst poll_keypresses.simps) (simp add: q'(1) h)
  show ?case
    using Cons.hyps(1)[OF q'(2)[symmetric] h1(2), of kb1] h1(1) q'(2) Cons.hyps(2)[symmetric]
    by (simp add: step type_keys_def)
qed

section \<open>A decoder\<close>

definition ascii_decoder :: "(unit, u8, unit) key_decoder" where
  "ascii_decoder = \<lparr>kd_add_byte = (\<lambda>_ c. (if c < 128 then Inr (Some c) else Inr None, ())),
     kd_process = (\<lambda>_ c. (Some (Unicode (char_of (unat c))), ())), kd_show = (\<lambda>_. [])\<rparr>"

lemma ascii_typed: "type_keys ascii_decoder [72, 200, 105] ((), s) = ((), s @ ''Hi'')"
proof -
  have "char_of (72 :: nat) = CHR ''H''" "char_of (105 :: nat) = CHR ''i''" by (simp_all add: char_of_def bit_Suc_0_iff)
  then show ?thesis by (simp add: type_keys_def type_key_def ascii_decoder_def)
qed

theorem keypresses_decode_witness:
  "\<exists>g'. poll_keypresses list_queue option_waker 7 ascii_decoder ()
      (fresh_stream\<lparr>scancode_queue := Some (100, [72, 200, 105])\<rparr>) = Some (Ok ((), g'))
     \<and> console g' = console fresh_stream @ ''Hi''"
  using keypresses_decode[OF list_queue_laws option_waker_laws, of "fresh_stream\<lparr>scancode_queue := Some (100, [72, 200, 105])\<rparr>"
      "(100, [72, 200, 105])" 7 ascii_decoder "()"]
  by (auto simp: ascii_typed)

end
