(* ===== verification/Frame_Allocator.thy ===== *)
theory Frame_Allocator
  imports Machine_Api
begin

text \<open>
  \<^verbatim>\<open>mem.rs\<close>: the allocator of physical frames over the boot loader's memory map, and the address of
  the active page table. The interface \<^verbatim>\<open>FrameAllocator\<close> that the heap, the loader and the user stacks
  program against is the locale \<open>frame_source\<close>, interpreted on \<^verbatim>\<open>BootInfoFrameAllocator\<close>.
\<close>

section \<open>The memory map\<close>

text \<open>\<^verbatim>\<open>MemoryRegions\<close> of \<^verbatim>\<open>bootloader_api\<close>: a list of address ranges with a kind.\<close>

datatype region_kind = Usable | Bootloader | UnknownUefi u32 | UnknownBios u32

record memory_region =
  r_start :: u64
  r_end :: u64
  r_kind :: region_kind

record boot_info_frame_allocator =
  memory_regions :: "memory_region list"
  next_frame :: usize

definition frame_allocator_init :: "memory_region list \<Rightarrow> boot_info_frame_allocator" where
  "frame_allocator_init regions = \<lparr>memory_regions = regions, next_frame = 0\<rparr>"

text \<open>\<^verbatim>\<open>(start..end).step_by(4096)\<close>: empty if the range is.\<close>

definition region_steps :: "memory_region \<Rightarrow> nat" where
  "region_steps r = (unat (r_end r) - unat (r_start r) + 4095) div 4096"

definition region_addrs :: "memory_region \<Rightarrow> u64 list" where
  "region_addrs r = map (\<lambda>i. r_start r + of_nat (4096 * i)) [0 ..< region_steps r]"

definition usable_addrs :: "memory_region list \<Rightarrow> u64 list" where
  "usable_addrs regions =
     concat (map region_addrs (filter (\<lambda>r. r_kind r = Usable) regions))"

text \<open>
  \<^verbatim>\<open>usable_frames\<close>: the iterator is lazy, so the conversion of an address to a frame, which panics on
  an address of more than 52 bits (\<open>None\<close>), happens for the elements that \<^verbatim>\<open>nth\<close> passes over and no others.
\<close>

definition usable_frames :: "x86_api \<Rightarrow> boot_info_frame_allocator \<Rightarrow> u64 option list" where
  "usable_frames A fa = map (frame_containing A) (usable_addrs (memory_regions fa))"

fun iter_nth :: "'a option list \<Rightarrow> nat \<Rightarrow> 'a option outcome" where
  "iter_nth [] n = Ok None"
| "iter_nth (None # xs) n = Panic ''PhysAddr::new''"
| "iter_nth (Some x # xs) 0 = Ok (Some x)"
| "iter_nth (Some x # xs) (Suc n) = iter_nth xs n"

text \<open>The kernel is built in release mode, so \<^verbatim>\<open>self.next += 1\<close> wraps.\<close>

definition allocate_frame :: "x86_api \<Rightarrow> boot_info_frame_allocator \<Rightarrow>
    (u64 option \<times> boot_info_frame_allocator) outcome" where
  "allocate_frame A fa =
     bindo (iter_nth (usable_frames A fa) (unat (next_frame fa))) (\<lambda>frame.
       Ok (frame, fa\<lparr>next_frame := next_frame fa + 1\<rparr>))"

text \<open>\<^verbatim>\<open>init_mapper\<close>: the virtual address of the level 4 table that CR3 names.\<close>

definition init_mapper :: "x86_api \<Rightarrow> u64 \<Rightarrow> u64 \<Rightarrow> u64 outcome" where
  "init_mapper A physical_memory_offset cr3_frame =
     expect ''VirtAddr + u64'' (va_add A physical_memory_offset cr3_frame)"

section \<open>The interface of a frame allocator\<close>

text \<open>A run of \<open>n\<close> calls, with the results in order.\<close>

primrec alloc_many :: "('fa \<Rightarrow> (u64 option \<times> 'fa) outcome) \<Rightarrow> nat \<Rightarrow> 'fa \<Rightarrow>
    (u64 option list \<times> 'fa) outcome" where
  "alloc_many alloc 0 fa = Ok ([], fa)"
| "alloc_many alloc (Suc n) fa = bindo (alloc fa) (\<lambda>(f, fa).
     bindo (alloc_many alloc n fa) (\<lambda>(fs, fa). Ok (f # fs, fa)))"

text \<open>
  What the clients of \<^verbatim>\<open>FrameAllocator\<close> rely on: an allocator in good order has a list of frames still
  to give, gives them in turn, each once, and says so when none is left.
\<close>

locale frame_source =
  fixes alloc :: "'fa \<Rightarrow> (u64 option \<times> 'fa) outcome"
    and avail :: "'fa \<Rightarrow> u64 list"
    and good :: "'fa \<Rightarrow> bool"
  assumes alloc_Cons: "good fa \<Longrightarrow> avail fa = f # fs \<Longrightarrow>
      \<exists>fa'. alloc fa = Ok (Some f, fa') \<and> good fa' \<and> avail fa' = fs"
    and alloc_Nil: "good fa \<Longrightarrow> avail fa = [] \<Longrightarrow> \<exists>fa'. alloc fa = Ok (None, fa')"
begin

lemma alloc_many_takes:
  "good fa \<Longrightarrow> n \<le> length (avail fa) \<Longrightarrow>
   \<exists>fa'. alloc_many alloc n fa = Ok (map Some (take n (avail fa)), fa') \<and> good fa'
     \<and> avail fa' = drop n (avail fa)"
proof (induction n arbitrary: fa)
  case (Suc n)
  then obtain f fs where av: "avail fa = f # fs" by (cases "avail fa") auto
  then obtain fa' where "alloc fa = Ok (Some f, fa')" "good fa'" "avail fa' = fs"
    using alloc_Cons Suc.prems by blast
  then show ?case using Suc.IH[of fa'] Suc.prems av by auto
qed simp

lemma alloc_many_exhausts:
  "good fa \<Longrightarrow> \<exists>fs fa'. alloc_many alloc (Suc (length (avail fa))) fa = Ok (fs @ [None], fa')
     \<and> fs = map Some (avail fa)"
proof (induction "avail fa" arbitrary: fa)
  case Nil
  then show ?case using alloc_Nil[of fa] by auto
next
  case (Cons f av)
  then obtain fa' where "alloc fa = Ok (Some f, fa')" "good fa'" "avail fa' = av"
    using alloc_Cons by metis
  then show ?case using Cons.hyps(1)[of fa'] Cons.hyps(2)[symmetric] by auto
qed

end

section \<open>The boot allocator provides it\<close>

text \<open>
  The frames left to give are those of the map behind the counter. The allocator is in good order as
  long as every usable address fits 52 bits and the counter cannot wrap before the frames run out.
\<close>

definition boot_avail :: "x86_api \<Rightarrow> boot_info_frame_allocator \<Rightarrow> u64 list" where
  "boot_avail A fa =
     drop (unat (next_frame fa)) (map page_down (usable_addrs (memory_regions fa)))"

definition boot_good :: "x86_api \<Rightarrow> boot_info_frame_allocator \<Rightarrow> bool" where
  "boot_good A fa \<longleftrightarrow>
     usable_frames A fa = map (Some \<circ> page_down) (usable_addrs (memory_regions fa))
   \<and> length (usable_addrs (memory_regions fa)) < 2 ^ 64"

lemma iter_nth_Some: "n < length xs \<Longrightarrow> iter_nth (map (Some \<circ> f) xs) n = Ok (Some (f (xs ! n)))"
  by (induction xs arbitrary: n) (auto simp: less_Suc_eq_0_disj)

lemma iter_nth_None: "length xs \<le> n \<Longrightarrow> iter_nth (map (Some \<circ> f) xs) n = Ok None"
proof (induction xs arbitrary: n)
  case (Cons x xs)
  then show ?case by (cases n) auto
qed simp

lemma boot_alloc_Cons:
  assumes "boot_good A fa" "boot_avail A fa = f # fs"
  shows "\<exists>fa'. allocate_frame A fa = Ok (Some f, fa') \<and> boot_good A fa' \<and> boot_avail A fa' = fs"
proof -
  let ?n = "unat (next_frame fa)" and ?us = "usable_addrs (memory_regions fa)"
  have less: "?n < length ?us"
    using assms(2) unfolding boot_avail_def by (metis drop_all length_map list.distinct(1) not_less)
  then have "of_nat ?n + (1 :: u64) \<noteq> 0 \<and> unat (next_frame fa + 1) = Suc ?n"
    using assms(1) of_nat64_neq_0[of "Suc ?n"] unat_of_nat64[of "Suc ?n"]
    by (simp add: boot_good_def add.commute)
  then have n: "unat (next_frame fa + 1) = Suc ?n" by blast
  have "drop ?n (map page_down ?us) = page_down (?us ! ?n) # drop (Suc ?n) (map page_down ?us)"
    using less by (metis Cons_nth_drop_Suc length_map nth_map)
  then have f: "f = page_down (?us ! ?n)" "fs = drop (Suc ?n) (map page_down ?us)"
    using assms(2) by (auto simp: boot_avail_def)
  have "iter_nth (usable_frames A fa) ?n = Ok (Some f)"
    using assms(1) less f iter_nth_Some[of ?n ?us page_down] by (simp add: boot_good_def del: map_eq_conv)
  then show ?thesis
    using assms(1) n f by (simp add: allocate_frame_def boot_good_def boot_avail_def usable_frames_def)
qed

lemma boot_alloc_Nil:
  assumes "boot_good A fa" "boot_avail A fa = []"
  shows "\<exists>fa'. allocate_frame A fa = Ok (None, fa')"
  using assms iter_nth_None[of "usable_addrs (memory_regions fa)" "unat (next_frame fa)" page_down]
  by (simp add: allocate_frame_def boot_good_def boot_avail_def del: map_eq_conv)

interpretation boot_frames: frame_source "allocate_frame A" "boot_avail A" "boot_good A" for A
  by unfold_locales (auto intro: boot_alloc_Cons boot_alloc_Nil)

section \<open>The frames of a sound memory map\<close>

text \<open>
  What the boot loader documents of its map: usable regions are page aligned, lie in the physical
  address space and do not overlap.
\<close>

definition region_aligned :: "memory_region \<Rightarrow> bool" where
  "region_aligned r \<longleftrightarrow> unat (r_start r) mod 4096 = 0 \<and> unat (r_end r) mod 4096 = 0
     \<and> unat (r_end r) \<le> 2 ^ 52"

definition apart :: "memory_region \<Rightarrow> memory_region \<Rightarrow> bool" where
  "apart r s \<longleftrightarrow> r_end r \<le> r_start s \<or> r_end s \<le> r_start r"

definition regions_ok :: "memory_region list \<Rightarrow> bool" where
  "regions_ok regions \<longleftrightarrow>
     (let us = filter (\<lambda>r. r_kind r = Usable) regions in list_all region_aligned us \<and> sorted_wrt apart us)"

definition in_region :: "u64 \<Rightarrow> memory_region \<Rightarrow> bool" where
  "in_region f r \<longleftrightarrow> unat f mod 4096 = 0 \<and> r_start r \<le> f \<and> unat f + 4096 \<le> unat (r_end r)"

lemma region_steps_aligned:
  assumes "region_aligned r"
  shows "4096 * region_steps r = unat (r_end r) - unat (r_start r)"
proof -
  obtain s e where se: "unat (r_start r) = 4096 * s" "unat (r_end r) = 4096 * e"
    using assms(1) by (auto simp: region_aligned_def mod_eq_0_iff_dvd dvd_def)
  have "region_steps r = (4096 * (e - s) + 4095) div 4096"
    unfolding se region_steps_def by (simp add: diff_mult_distrib2)
  also have "\<dots> = e - s" by simp
  finally show ?thesis unfolding se by (simp add: diff_mult_distrib2)
qed

lemma region_addr_unat:
  assumes "region_aligned r" "i < region_steps r"
  shows "unat (r_start r + of_nat (4096 * i)) = unat (r_start r) + 4096 * i"
    and "unat (r_start r) + 4096 * i + 4096 \<le> unat (r_end r)"
proof -
  obtain s e where se: "unat (r_start r) = 4096 * s" "unat (r_end r) = 4096 * e"
    using assms(1) by (auto simp: region_aligned_def mod_eq_0_iff_dvd dvd_def)
  have "i < (4096 * (e - s) + 4095) div 4096"
    using assms(2) unfolding se region_steps_def by (simp add: diff_mult_distrib2)
  then have "i < e - s" by simp
  then show le: "unat (r_start r) + 4096 * i + 4096 \<le> unat (r_end r)" unfolding se by simp
  show "unat (r_start r + of_nat (4096 * i)) = unat (r_start r) + 4096 * i"
    using le assms(1) by (intro unat_add_of_nat) (simp add: region_aligned_def)
qed

lemma region_addrs_in:
  assumes "region_aligned r"
  shows "f \<in> set (region_addrs r) \<longleftrightarrow> in_region f r"
proof
  assume "f \<in> set (region_addrs r)"
  then obtain i where i: "i < region_steps r"
    "f = r_start r + of_nat (4096 * i)"
    unfolding region_addrs_def set_map set_upt by auto
  then show "in_region f r"
    using region_addr_unat[OF assms i(1)] assms
    by (simp add: in_region_def word_le_nat_alt region_aligned_def mod_add_eq[symmetric])
next
  assume f: "in_region f r"
  let ?i = "(unat f - unat (r_start r)) div 4096"
  have le: "unat (r_start r) \<le> unat f" using f by (simp add: in_region_def word_le_nat_alt)
  have "(unat f - unat (r_start r)) mod 4096 = 0"
    using f assms le by (simp add: in_region_def region_aligned_def mod_eq_0_iff_dvd)
  then have e: "4096 * ?i = unat f - unat (r_start r)" by auto
  have "f = r_start r + (f - r_start r)" by simp
  also have "f - r_start r = of_nat (4096 * ?i)"
    unfolding e using le by (simp add: word_le_nat_alt of_nat_diff)
  finally have "f = r_start r + of_nat (4096 * ?i)" .
  moreover have "?i < region_steps r"
  proof -
    have "4096 * ?i < 4096 * region_steps r"
      unfolding e region_steps_aligned[OF assms] using f le by (auto simp: in_region_def)
    then show ?thesis by simp
  qed
  ultimately show "f \<in> set (region_addrs r)"
    unfolding region_addrs_def set_map set_upt by (intro image_eqI[of _ _ ?i]) simp_all
qed

lemma region_addrs_distinct:
  assumes "region_aligned r"
  shows "distinct (region_addrs r)"
proof -
  have "inj_on (\<lambda>i. r_start r + of_nat (4096 * i)) {0 ..< region_steps r}"
  proof (rule inj_onI)
    fix i j assume "i \<in> {0 ..< region_steps r}" "j \<in> {0 ..< region_steps r}"
      and e: "r_start r + of_nat (4096 * i) = r_start r + of_nat (4096 * j)"
    then have "unat (r_start r) + 4096 * i = unat (r_start r) + 4096 * j"
      using region_addr_unat(1)[OF assms, of i] region_addr_unat(1)[OF assms, of j]
      by (simp only: atLeastLessThan_iff)
    then show "i = j" by simp
  qed
  then show ?thesis by (simp only: region_addrs_def distinct_map distinct_upt set_upt)
qed

lemma apart_disjoint: "apart r s \<Longrightarrow> in_region f r \<Longrightarrow> \<not> in_region f s"
  by (auto simp: apart_def in_region_def word_le_nat_alt)

lemma concat_regions:
  "list_all region_aligned rs \<Longrightarrow> sorted_wrt apart rs \<Longrightarrow>
   distinct (concat (map region_addrs rs))
   \<and> set (concat (map region_addrs rs)) = {f. \<exists>r \<in> set rs. in_region f r}"
proof (induction rs)
  case (Cons r rs)
  then have IH: "distinct (concat (map region_addrs rs))"
    "set (concat (map region_addrs rs)) = {f. \<exists>r \<in> set rs. in_region f r}" by auto
  have r: "set (region_addrs r) = {f. in_region f r}"
    using region_addrs_in[of r] Cons.prems by auto
  have "set (region_addrs r) \<inter> set (concat (map region_addrs rs)) = {}"
    unfolding r IH(2) using Cons.prems(2) apart_disjoint by auto
  moreover have "set (concat (map region_addrs (r # rs))) = {f. in_region f r} \<union> {f. \<exists>r \<in> set rs. in_region f r}"
    using r IH(2) by simp
  ultimately show ?case using IH(1) region_addrs_distinct[of r] Cons.prems(1) by auto
qed simp

lemma usable_addrs_ok:
  assumes "regions_ok regions"
  shows "distinct (usable_addrs regions)"
    and "f \<in> set (usable_addrs regions) \<longleftrightarrow> (\<exists>r \<in> set regions. r_kind r = Usable \<and> in_region f r)"
    and "f \<in> set (usable_addrs regions) \<Longrightarrow> unat f < 2 ^ 52 \<and> page_down f = f"
proof -
  let ?us = "filter (\<lambda>r. r_kind r = Usable) regions"
  have us: "list_all region_aligned ?us" "sorted_wrt apart ?us"
    using assms by (simp_all add: regions_ok_def Let_def)
  then show "distinct (usable_addrs regions)"
    and mem: "f \<in> set (usable_addrs regions) \<longleftrightarrow> (\<exists>r \<in> set regions. r_kind r = Usable \<and> in_region f r)"
    using concat_regions[OF us] by (auto simp: usable_addrs_def)
  show "f \<in> set (usable_addrs regions) \<Longrightarrow> unat f < 2 ^ 52 \<and> page_down f = f"
    using mem us(1) by (auto simp: list_all_iff region_aligned_def in_region_def page_down_aligned)
qed

lemma usable_count:
  assumes "regions_ok regions"
  shows "length (usable_addrs regions) < 2 ^ 64"
proof -
  have "length (usable_addrs regions) = card (unat ` set (usable_addrs regions))"
  proof -
    have "inj_on (unat :: u64 \<Rightarrow> nat) (set (usable_addrs regions))"
      by (auto intro!: inj_onI simp: word_unat_eq_iff)
    then show ?thesis using distinct_card[OF usable_addrs_ok(1)[OF assms]] by (simp only: card_image)
  qed
  also have "\<dots> \<le> card {..<2 ^ 52 :: nat}"
    using usable_addrs_ok(3)[OF assms] by (intro card_mono) auto
  finally show ?thesis by simp
qed

lemma boot_start:
  assumes "x86_api_ok A" "regions_ok regions"
  shows "boot_good A (frame_allocator_init regions)"
    and "boot_avail A (frame_allocator_init regions) = usable_addrs regions"
  using usable_addrs_ok(3)[OF assms(2)] usable_count[OF assms(2)] x86_api_okD(6)[OF assms(1)]
  by (simp_all add: boot_good_def boot_avail_def usable_frames_def frame_allocator_init_def map_idI)

text \<open>
  C14. The frame allocator never gives a frame twice and gives only usable memory: over a sound memory
  map, any number of allocations up to the number of usable frames succeeds, with distinct, aligned
  frames that lie entirely inside a usable region.
\<close>

theorem frames_are_fresh:
  assumes "x86_api_ok A" and "regions_ok regions" and "n \<le> length (usable_addrs regions)"
  shows "\<exists>fs fa. alloc_many (allocate_frame A) n (frame_allocator_init regions) = Ok (map Some fs, fa)
     \<and> length fs = n \<and> distinct fs
     \<and> (\<forall>f \<in> set fs. \<exists>r \<in> set regions. r_kind r = Usable \<and> in_region f r)"
proof -
  obtain fa where "alloc_many (allocate_frame A) n (frame_allocator_init regions)
      = Ok (map Some (take n (usable_addrs regions)), fa)"
    using boot_frames.alloc_many_takes[OF boot_start(1)[OF assms(1,2)], of n] assms(3)
    unfolding boot_start(2)[OF assms(1,2)] by blast
  moreover have "distinct (take n (usable_addrs regions))"
    using usable_addrs_ok(1)[OF assms(2)] by (rule distinct_take)
  moreover have "\<forall>f \<in> set (take n (usable_addrs regions)). \<exists>r \<in> set regions. r_kind r = Usable \<and> in_region f r"
    using usable_addrs_ok(2)[OF assms(2)] by (blast dest: in_set_takeD)
  ultimately show ?thesis using assms(3) by (intro exI conjI) auto
qed

text \<open>
  C33. The frame allocator wastes nothing: allocating until the first refusal gives every frame of every
  usable region, each exactly once, and then \<open>None\<close>, without a panic.
\<close>

theorem frames_are_exhausted:
  assumes "x86_api_ok A" and "regions_ok regions"
  shows "\<exists>fs fa. alloc_many (allocate_frame A) (Suc (length fs)) (frame_allocator_init regions)
       = Ok (map Some fs @ [None], fa)
     \<and> distinct fs \<and> set fs = {f. \<exists>r \<in> set regions. r_kind r = Usable \<and> in_region f r}"
proof -
  obtain fs fa where "alloc_many (allocate_frame A) (Suc (length (usable_addrs regions)))
      (frame_allocator_init regions) = Ok (fs @ [None], fa)" "fs = map Some (usable_addrs regions)"
    using boot_frames.alloc_many_exhausts[OF boot_start(1)[OF assms]]
    unfolding boot_start(2)[OF assms] by blast
  moreover have "set (usable_addrs regions) = {f. \<exists>r \<in> set regions. r_kind r = Usable \<and> in_region f r}"
    using usable_addrs_ok(2)[OF assms(2)] by blast
  ultimately show ?thesis using usable_addrs_ok(1)[OF assms(2)] by blast
qed

section \<open>A concrete memory map\<close>

definition small_map :: "memory_region list" where
  "small_map = [\<lparr>r_start = 0, r_end = 0x1000, r_kind = Bootloader\<rparr>,
     \<lparr>r_start = 0x1000, r_end = 0x3000, r_kind = Usable\<rparr>,
     \<lparr>r_start = 0x8000, r_end = 0xA000, r_kind = Usable\<rparr>]"

lemma small_map_ok: "regions_ok small_map"
  by (simp add: regions_ok_def small_map_def region_aligned_def apart_def)

lemma small_map_usable: "usable_addrs small_map = [0x1000, 0x2000, 0x8000, 0x9000]"
  by (simp add: usable_addrs_def small_map_def region_addrs_def region_steps_def upt_rec)

theorem frames_are_fresh_witness:
  "\<exists>fs fa. alloc_many (allocate_frame x86_ref) 3 (frame_allocator_init small_map) = Ok (map Some fs, fa)
     \<and> distinct fs \<and> length fs = 3"
  using frames_are_fresh[OF x86_ref_ok small_map_ok, of 3] by (auto simp: small_map_usable)

theorem frames_are_exhausted_witness:
  "\<exists>fs fa. alloc_many (allocate_frame x86_ref) (Suc (length fs)) (frame_allocator_init small_map)
       = Ok (map Some fs @ [None], fa) \<and> distinct fs"
  using frames_are_exhausted[OF x86_ref_ok small_map_ok] by blast

end
