(* ===== verification/Paging.thy ===== *)
theory Paging
  imports Frame_Allocator
begin

text \<open>
  The users of the page tables: \<^verbatim>\<open>allocator.rs\<close> (the kernel heap), \<^verbatim>\<open>loader.rs\<close> (the ELF loader) and
  \<^verbatim>\<open>setup_user_stack\<close> of \<^verbatim>\<open>main.rs\<close>. The mapper of the x86_64 crate and the ELF parser are parameters;
  the frame allocator is any implementation of \<open>frame_source\<close>. Physical memory is a store of bytes that
  the loader writes through the translation it has just set up, so that a page mapped twice to one
  frame, or not mapped at all, would show.
\<close>

section \<open>The mapper of the x86_64 crate\<close>

definition PRESENT :: u64 where "PRESENT = 1"
definition WRITABLE :: u64 where "WRITABLE = 2"
definition USER_ACCESSIBLE :: u64 where "USER_ACCESSIBLE = 4"

datatype map_error = FrameAllocationFailed | ParentEntryHugePage | PageAlreadyMapped u64

text \<open>
  \<open>map_to\<close> and \<open>update_flags\<close> are the operations of the trait \<^verbatim>\<open>Mapper\<close>; \<open>walk\<close> is the frame and flags the
  processor finds for a page, \<open>unmapped\<close> says that a page is neither mapped nor inside a huge page.
\<close>

record ('m, 'fa) page_mapper =
  map_to :: "'m \<Rightarrow> u64 \<Rightarrow> u64 \<Rightarrow> u64 \<Rightarrow> 'fa \<Rightarrow> map_error + 'm \<times> 'fa"
  update_flags :: "'m \<Rightarrow> u64 \<Rightarrow> u64 \<Rightarrow> 'm option"
  walk :: "'m \<Rightarrow> u64 \<Rightarrow> (u64 \<times> u64) option"
  unmapped :: "'m \<Rightarrow> u64 \<Rightarrow> bool"

text \<open>
  Mapping a page that is not mapped takes at most three frames for intermediate tables and changes the
  translation of this page only; mapping a mapped page fails; \<open>update_flags\<close> keeps the frame.
\<close>

definition mapper_laws :: "('m, 'fa) page_mapper \<Rightarrow> ('fa \<Rightarrow> u64 list) \<Rightarrow> ('fa \<Rightarrow> bool) \<Rightarrow> bool" where
  "mapper_laws M avail good \<longleftrightarrow>
     (\<forall>m p f fl fa. good fa \<longrightarrow> 3 \<le> length (avail fa) \<longrightarrow> lower_half p \<longrightarrow> page_down p = p \<longrightarrow> unmapped M m p \<longrightarrow>
        (\<exists>m' fa' k. k \<le> 3 \<and> map_to M m p f fl fa = Inr (m', fa') \<and> good fa' \<and> avail fa' = drop k (avail fa)
           \<and> walk M m' = (walk M m)(p \<mapsto> (f, fl)) \<and> unmapped M m' = (unmapped M m)(p := False)))
   \<and> (\<forall>m p f fl fa. walk M m p \<noteq> None \<longrightarrow> map_to M m p f fl fa = Inl (PageAlreadyMapped (fst (the (walk M m p)))))
   \<and> (\<forall>m p f fl fl'. walk M m p = Some (f, fl) \<longrightarrow>
        (\<exists>m'. update_flags M m p fl' = Some m' \<and> walk M m' = (walk M m)(p \<mapsto> (f, fl'))
           \<and> unmapped M m' = unmapped M m))"

lemma map_to_law:
  assumes "mapper_laws M avail good" "good fa" "3 \<le> length (avail fa)" "lower_half p" "page_down p = p"
    "unmapped M m p"
  obtains m' fa' k where "k \<le> 3" "map_to M m p f fl fa = Inr (m', fa')" "good fa'"
    "avail fa' = drop k (avail fa)" "walk M m' = (walk M m)(p \<mapsto> (f, fl))"
    "unmapped M m' = (unmapped M m)(p := False)"
  using assms unfolding mapper_laws_def by blast

lemma update_flags_law:
  assumes "mapper_laws M avail good" "walk M m p = Some (f, fl)"
  obtains m' where "update_flags M m p fl' = Some m'" "walk M m' = (walk M m)(p \<mapsto> (f, fl'))"
    "unmapped M m' = unmapped M m"
  using assms unfolding mapper_laws_def by blast

lemma map_to_mapped:
  assumes "mapper_laws M avail good" "walk M m p = Some (f', fl')"
  shows "map_to M m p f fl fa = Inl (PageAlreadyMapped f')"
  using assms unfolding mapper_laws_def by simp

section \<open>Mapping a range of pages\<close>

text \<open>
  The loop all three users share: allocate a frame, map the page to it. They differ in what they do
  when a step fails, so the loop says which step it was.
\<close>

datatype map_failure = No_Frame | Not_Mapped map_error

fun map_pages :: "('m, 'fa) page_mapper \<Rightarrow> ('fa \<Rightarrow> (u64 option \<times> 'fa) outcome) \<Rightarrow> u64 \<Rightarrow> u64 list \<Rightarrow>
    'm \<times> 'fa \<Rightarrow> (map_failure + 'm \<times> 'fa) outcome" where
  "map_pages M alloc flags [] st = Ok (Inr st)"
| "map_pages M alloc flags (p # ps) (m, fa) =
     bindo (alloc fa) (\<lambda>(frame, fa).
       case frame of
         None \<Rightarrow> Ok (Inl No_Frame)
       | Some f \<Rightarrow> (case map_to M m p f flags fa of
           Inl e \<Rightarrow> Ok (Inl (Not_Mapped e))
         | Inr st \<Rightarrow> map_pages M alloc flags ps st))"

section \<open>The kernel heap\<close>

definition HEAP_START :: u64 where
  "HEAP_START = 0x444444440000"

definition HEAP_SIZE :: u64 where
  "HEAP_SIZE = 100 * 1024"

definition heap_pages :: "x86_api \<Rightarrow> u64 list outcome" where
  "heap_pages A =
     bindo (expect ''VirtAddr::new'' (va_new A HEAP_START)) (\<lambda>heap_start.
     bindo (expect ''VirtAddr + usize'' (va_add A heap_start HEAP_SIZE)) (\<lambda>past.
     bindo (expect ''VirtAddr - u64'' (va_sub A past 1)) (\<lambda>heap_end.
       Ok (page_range A (page_containing A heap_start) (page_containing A heap_end)))))"

text \<open>\<open>heap_init\<close> stands for \<^verbatim>\<open>ALLOCATOR.lock().init\<close> of the heap crate on its state \<open>h\<close>.\<close>

definition init_heap :: "x86_api \<Rightarrow> ('m, 'fa) page_mapper \<Rightarrow> ('fa \<Rightarrow> (u64 option \<times> 'fa) outcome) \<Rightarrow>
    (u64 \<Rightarrow> u64 \<Rightarrow> 'h \<Rightarrow> 'h) \<Rightarrow> 'm \<times> 'fa \<times> 'h \<Rightarrow> (map_error + 'm \<times> 'fa \<times> 'h) outcome" where
  "init_heap A M alloc heap_init = (\<lambda>(m, fa, h).
     bindo (heap_pages A) (\<lambda>ps.
     bindo (map_pages M alloc (PRESENT OR WRITABLE) ps (m, fa)) (\<lambda>r.
       case r of
         Inl No_Frame \<Rightarrow> Ok (Inl FrameAllocationFailed)
       | Inl (Not_Mapped e) \<Rightarrow> Ok (Inl e)
       | Inr (m, fa) \<Rightarrow> Ok (Inr (m, fa, heap_init HEAP_START HEAP_SIZE h)))))"

section \<open>User stacks\<close>

fun stack_pages :: "x86_api \<Rightarrow> ('m, 'fa) page_mapper \<Rightarrow> ('fa \<Rightarrow> (u64 option \<times> 'fa) outcome) \<Rightarrow>
    u64 \<Rightarrow> nat list \<Rightarrow> 'm \<times> 'fa \<Rightarrow> ('m \<times> 'fa) outcome" where
  "stack_pages A M alloc stack_base [] st = Ok st"
| "stack_pages A M alloc stack_base (i # is) (m, fa) =
     bindo (expect ''VirtAddr + u64'' (va_add A stack_base (of_nat i * 4096))) (\<lambda>a.
     bindo (map_pages M alloc (PRESENT OR WRITABLE OR USER_ACCESSIBLE) [page_containing A a] (m, fa)) (\<lambda>r.
       case r of
         Inl No_Frame \<Rightarrow> Panic ''No physical frames for stack''
       | Inl (Not_Mapped e) \<Rightarrow> Panic ''called Result::unwrap() on an Err value''
       | Inr st \<Rightarrow> stack_pages A M alloc stack_base is st))"

definition setup_user_stack :: "x86_api \<Rightarrow> ('m, 'fa) page_mapper \<Rightarrow>
    ('fa \<Rightarrow> (u64 option \<times> 'fa) outcome) \<Rightarrow> u64 \<Rightarrow> u64 \<Rightarrow> 'm \<times> 'fa \<Rightarrow> (u64 \<times> 'm \<times> 'fa) outcome" where
  "setup_user_stack A M alloc base_addr pages st =
     bindo (expect ''VirtAddr::new'' (va_new A base_addr)) (\<lambda>stack_base.
     bindo (stack_pages A M alloc stack_base [0 ..< unat pages] st) (\<lambda>st.
     bindo (expect ''VirtAddr + u64'' (va_add A stack_base (pages * 4096))) (\<lambda>top.
       Ok (top, st))))"

section \<open>Memory through the translation\<close>

definition translate :: "('m, 'fa) page_mapper \<Rightarrow> 'm \<Rightarrow> u64 \<Rightarrow> (u64 \<times> u64) option" where
  "translate M m a = (case walk M m (page_down a) of
     None \<Rightarrow> None | Some (f, fl) \<Rightarrow> Some (f + (a - page_down a), fl))"

definition load_byte :: "('m, 'fa) page_mapper \<Rightarrow> 'm \<Rightarrow> memory \<Rightarrow> u64 \<Rightarrow> u8 option" where
  "load_byte M m phys a = (case translate M m a of None \<Rightarrow> None | Some (pa, _) \<Rightarrow> Some (phys pa))"

text \<open>A store to a page that is not mapped or not writable faults; during the boot that is a panic.\<close>

fun store_bytes :: "('m, 'fa) page_mapper \<Rightarrow> 'm \<Rightarrow> u64 \<Rightarrow> u8 list \<Rightarrow> memory \<Rightarrow> memory option" where
  "store_bytes M m a [] phys = Some phys"
| "store_bytes M m a (b # bs) phys =
     (case translate M m a of
        None \<Rightarrow> None
      | Some (pa, fl) \<Rightarrow>
          if fl AND WRITABLE = 0 then None else store_bytes M m (a + 1) bs (phys(pa := b)))"

section \<open>The ELF loader\<close>

text \<open>
  The fields of a program header the loader reads. The type is \<open>None\<close> where the parser's \<^verbatim>\<open>get_type\<close>
  gives an error.
\<close>

datatype segment_type = Load | Other_Segment

record program_header =
  ph_type :: "segment_type option"
  ph_vaddr :: u64
  ph_memsz :: u64
  ph_filesz :: u64
  ph_offset :: u64
  ph_write :: bool

text \<open>\<open>beyond\<close> are the bytes after the image in the kernel's memory: the copy does not check the file size.\<close>

definition image_bytes :: "u8 list \<Rightarrow> (nat \<Rightarrow> u8) \<Rightarrow> nat \<Rightarrow> nat \<Rightarrow> u8 list" where
  "image_bytes elf beyond off n =
     map (\<lambda>i. if off + i < length elf then elf ! (off + i) else beyond (off + i - length elf)) [0 ..< n]"

definition segment_flags :: "program_header \<Rightarrow> u64" where
  "segment_flags h =
     (let flags = PRESENT OR USER_ACCESSIBLE in if ph_write h then flags OR WRITABLE else flags)"

fun update_pages :: "('m, 'fa) page_mapper \<Rightarrow> u64 \<Rightarrow> u64 list \<Rightarrow> 'm \<Rightarrow> 'm outcome" where
  "update_pages M flags [] m = Ok m"
| "update_pages M flags (p # ps) m =
     bindo (expect ''Failed to update flags'' (update_flags M m p flags)) (update_pages M flags ps)"

definition segment_pages :: "x86_api \<Rightarrow> program_header \<Rightarrow> u64 list outcome" where
  "segment_pages A h =
     bindo (expect ''VirtAddr::new'' (va_new A (ph_vaddr h))) (\<lambda>start.
     bindo (expect ''VirtAddr + u64'' (va_add A start (ph_memsz h))) (\<lambda>past.
     bindo (expect ''VirtAddr - u64'' (va_sub A past 1)) (\<lambda>last.
       Ok (page_range A (page_containing A start) (page_containing A last)))))"

definition load_segment :: "x86_api \<Rightarrow> ('m, 'fa) page_mapper \<Rightarrow> ('fa \<Rightarrow> (u64 option \<times> 'fa) outcome) \<Rightarrow>
    u8 list \<Rightarrow> (nat \<Rightarrow> u8) \<Rightarrow> program_header \<Rightarrow> 'm \<times> 'fa \<times> memory \<Rightarrow> ('m \<times> 'fa \<times> memory) outcome" where
  "load_segment A M alloc elf beyond h = (\<lambda>(m, fa, phys).
     bindo (segment_pages A h) (\<lambda>ps.
     bindo (map_pages M alloc (segment_flags h OR WRITABLE) ps (m, fa)) (\<lambda>r.
       case r of
         Inl No_Frame \<Rightarrow> Panic ''Out of physical memory''
       | Inl (Not_Mapped e) \<Rightarrow> Panic ''Failed to map segment''
       | Inr (m, fa) \<Rightarrow>
           bindo (expect ''page fault'' (store_bytes M m (ph_vaddr h) (replicate (unat (ph_memsz h)) 0) phys)) (\<lambda>phys.
           bindo (expect ''page fault'' (store_bytes M m (ph_vaddr h)
                    (image_bytes elf beyond (unat (ph_offset h)) (unat (ph_filesz h))) phys)) (\<lambda>phys.
           bindo (if ph_write h then Ok m else update_pages M (segment_flags h) ps m) (\<lambda>m.
             Ok (m, fa, phys)))))))"

fun load_segments :: "x86_api \<Rightarrow> ('m, 'fa) page_mapper \<Rightarrow> ('fa \<Rightarrow> (u64 option \<times> 'fa) outcome) \<Rightarrow>
    u8 list \<Rightarrow> (nat \<Rightarrow> u8) \<Rightarrow> program_header list \<Rightarrow> 'm \<times> 'fa \<times> memory \<Rightarrow>
    ('m \<times> 'fa \<times> memory) outcome" where
  "load_segments A M alloc elf beyond [] st = Ok st"
| "load_segments A M alloc elf beyond (h # hs) st =
     bindo (expect ''called Result::unwrap() on an Err value'' (ph_type h)) (\<lambda>t.
     bindo (if t = Load then load_segment A M alloc elf beyond h st else Ok st)
       (load_segments A M alloc elf beyond hs))"

text \<open>\<open>elf_parse\<close> is the parser of \<^verbatim>\<open>xmas_elf\<close>: the program headers and the entry point.\<close>

definition load_elf :: "x86_api \<Rightarrow> (u8 list \<Rightarrow> (program_header list \<times> u64) option) \<Rightarrow>
    ('m, 'fa) page_mapper \<Rightarrow> ('fa \<Rightarrow> (u64 option \<times> 'fa) outcome) \<Rightarrow> u8 list \<Rightarrow> (nat \<Rightarrow> u8) \<Rightarrow>
    'm \<times> 'fa \<times> memory \<Rightarrow> (u64 \<times> 'm \<times> 'fa \<times> memory) outcome" where
  "load_elf A elf_parse M alloc elf beyond st =
     bindo (expect ''Failed to parse ELF file'' (elf_parse elf)) (\<lambda>(hs, entry_point).
     bindo (load_segments A M alloc elf beyond hs st) (\<lambda>st.
     bindo (expect ''VirtAddr::new'' (va_new A entry_point)) (\<lambda>entry.
       Ok (entry, st))))"

section \<open>Pages of a range\<close>

definition page_region :: "u64 \<Rightarrow> u64 \<Rightarrow> memory_region" where
  "page_region p q = \<lparr>r_start = p, r_end = q + 4096, r_kind = Usable\<rparr>"

lemma low_add: "lower_half q \<Longrightarrow> unat (q + 4096) = unat q + 4096"
  by (simp add: unat_word_ariths)

lemma page_region_aligned:
  "lower_half p \<Longrightarrow> lower_half q \<Longrightarrow> page_down p = p \<Longrightarrow> page_down q = q \<Longrightarrow> region_aligned (page_region p q)"
  by (simp add: region_aligned_def page_region_def page_down_aligned low_add)

lemma pages_between_region:
  assumes "lower_half p" "lower_half q" "page_down p = p" "page_down q = q"
  shows "pages_between p q = region_addrs (page_region p q)"
proof -
  have "4096 * region_steps (page_region p q) = unat q + 4096 - unat p"
    using region_steps_aligned[OF page_region_aligned[OF assms]] assms(2)
    by (simp add: page_region_def low_add)
  then have "(unat q + 4096 - unat p) div 4096 = region_steps (page_region p q)"
    by (metis nonzero_mult_div_cancel_left zero_neq_numeral)
  then show ?thesis by (simp only: pages_between_def region_addrs_def) (simp add: page_region_def)
qed

lemma pages_between_ok:
  assumes "lower_half p" "lower_half q" "page_down p = p" "page_down q = q"
  shows "distinct (pages_between p q)"
    and "x \<in> set (pages_between p q) \<longleftrightarrow> page_down x = x \<and> p \<le> x \<and> x \<le> q"
    and "4096 * length (pages_between p q) = unat q + 4096 - unat p"
proof -
  note al = page_region_aligned[OF assms]
  show "distinct (pages_between p q)"
    unfolding pages_between_region[OF assms] by (rule region_addrs_distinct[OF al])
  show "x \<in> set (pages_between p q) \<longleftrightarrow> page_down x = x \<and> p \<le> x \<and> x \<le> q"
    unfolding pages_between_region[OF assms] region_addrs_in[OF al] using assms(2)
    by (auto simp: in_region_def page_region_def page_down_aligned low_add word_le_nat_alt)
  show "4096 * length (pages_between p q) = unat q + 4096 - unat p"
    unfolding pages_between_region[OF assms] using region_steps_aligned[OF al] assms(2)
    by (simp add: region_addrs_def) (simp add: page_region_def low_add)
qed

lemma page_down_mono: "a \<le> b \<Longrightarrow> page_down a \<le> page_down b"
proof -
  assume "a \<le> b"
  then have "unat a div 4096 * 4096 \<le> unat b div 4096 * 4096"
    by (intro mult_le_mono1 div_le_mono) (simp add: word_le_nat_alt)
  then show ?thesis by (simp add: word_le_nat_alt page_down_unat minus_mod_eq_div_mult)
qed

lemma page_offset: "unat (a - page_down a) < 4096"
proof -
  have "unat (a - page_down a) = unat a - unat (page_down a)"
    by (rule unat_sub) (rule page_down_le)
  then show ?thesis by (simp add: page_down_unat)
qed

lemma page_down_add:
  assumes "page_down f = f" "unat d < 4096"
  shows "page_down (f + d) = f"
proof -
  have m: "unat f mod 4096 = 0" using assms(1) by (simp add: page_down_aligned)
  have "unat f + unat d < 2 ^ 64"
  proof -
    obtain k where k: "unat f = 4096 * k" using m by (auto simp: mod_eq_0_iff_dvd dvd_def)
    have "4096 * k < 4096 * 2 ^ 52" using unat64_bound[of f] k by simp
    then have "k + 1 \<le> 2 ^ 52" by simp
    then have "4096 * k + 4096 \<le> 4096 * 2 ^ 52" by simp
    then show ?thesis using k assms(2) by simp
  qed
  then have "unat (f + d) = unat f + unat d" by (simp add: unat_word_ariths)
  then have "unat (page_down (f + d)) = unat f"
    using m assms(2) by (simp add: page_down_unat mod_add_eq[symmetric])
  then show ?thesis by (simp add: word_unat_eq_iff)
qed

section \<open>What the mapping loop achieves\<close>

definition fresh_supply :: "('fa \<Rightarrow> u64 list) \<Rightarrow> 'fa \<Rightarrow> bool" where
  "fresh_supply avail fa \<longleftrightarrow> distinct (avail fa) \<and> (\<forall>f \<in> set (avail fa). page_down f = f)"

definition mappable :: "('m, 'fa) page_mapper \<Rightarrow> 'm \<Rightarrow> u64 list \<Rightarrow> bool" where
  "mappable M m ps \<longleftrightarrow> distinct ps \<and> (\<forall>p \<in> set ps. lower_half p \<and> page_down p = p \<and> unmapped M m p)"

text \<open>
  \<open>maps_to M m m' ps fs fl\<close>: from \<open>m\<close> to \<open>m'\<close> the pages \<open>ps\<close>, and no others, were mapped to the frames \<open>fs\<close>
  with the flags \<open>fl\<close>.
\<close>

definition maps_to :: "('m, 'fa) page_mapper \<Rightarrow> 'm \<Rightarrow> 'm \<Rightarrow> u64 list \<Rightarrow> u64 list \<Rightarrow> u64 \<Rightarrow> bool" where
  "maps_to M m m' ps fs fl \<longleftrightarrow> length fs = length ps
     \<and> (\<forall>i < length ps. walk M m' (ps ! i) = Some (fs ! i, fl))
     \<and> (\<forall>p. p \<notin> set ps \<longrightarrow> walk M m' p = walk M m p)
     \<and> (\<forall>p. unmapped M m' p \<longleftrightarrow> unmapped M m p \<and> p \<notin> set ps)"

lemma maps_toD:
  assumes "maps_to M m m' ps fs fl"
  shows "length fs = length ps" "i < length ps \<Longrightarrow> walk M m' (ps ! i) = Some (fs ! i, fl)"
    "p \<notin> set ps \<Longrightarrow> walk M m' p = walk M m p" "unmapped M m' p \<longleftrightarrow> unmapped M m p \<and> p \<notin> set ps"
  using assms by (auto simp: maps_to_def)

lemma maps_to_Nil: "maps_to M m m [] [] fl"
  by (simp add: maps_to_def)

lemma maps_to_Cons:
  assumes "walk M m1 = (walk M m)(p \<mapsto> (f, fl))" "unmapped M m1 = (unmapped M m)(p := False)"
    and "maps_to M m1 m' ps fs fl" "p \<notin> set ps"
  shows "maps_to M m m' (p # ps) (f # fs) fl"
proof -
  have "walk M m' ((p # ps) ! i) = Some ((f # fs) ! i, fl)" if "i < length (p # ps)" for i
    using that assms(1,3,4) by (cases i) (auto simp: maps_to_def)
  then show ?thesis using assms by (auto simp: maps_to_def)
qed

lemma maps_to_page:
  assumes "maps_to M m m' ps fs fl" "p \<in> set ps"
  obtains i where "i < length fs" "p = ps ! i" "walk M m' p = Some (fs ! i, fl)"
proof -
  obtain i where i: "i < length ps" "p = ps ! i" using assms(2) by (auto simp: in_set_conv_nth)
  then have "i < length fs" using assms(1) by (simp add: maps_to_def)
  then show thesis using that[of i] i maps_toD(2)[OF assms(1) i(1)] by simp
qed

text \<open>\<open>backed M m ps K\<close>: the pages \<open>ps\<close> are mapped to frames of \<open>K\<close>, no two of them to the same one.\<close>

definition frame_of :: "('m, 'fa) page_mapper \<Rightarrow> 'm \<Rightarrow> u64 \<Rightarrow> u64" where
  "frame_of M m p = fst (the (walk M m p))"

definition backed :: "('m, 'fa) page_mapper \<Rightarrow> 'm \<Rightarrow> u64 set \<Rightarrow> u64 set \<Rightarrow> bool" where
  "backed M m ps K \<longleftrightarrow> (\<forall>p \<in> ps. walk M m p \<noteq> None \<and> frame_of M m p \<in> K) \<and> inj_on (frame_of M m) ps"

lemma backed_empty [simp]: "backed M m {} K"
  by (simp add: backed_def)

lemma backed_walk:
  assumes "backed M m ps K" "\<forall>p \<in> ps. walk M m' p = walk M m p"
  shows "backed M m' ps K"
proof -
  have "frame_of M m' p = frame_of M m p" if "p \<in> ps" for p using assms(2) that by (simp add: frame_of_def)
  then show ?thesis using assms by (simp add: backed_def inj_on_def)
qed

lemma backed_Un:
  assumes "backed M m ps K" "backed M m qs L" "K \<inter> L = {}"
  shows "backed M m (ps \<union> qs) (K \<union> L)"
proof -
  have "frame_of M m p \<noteq> frame_of M m q" if "p \<in> ps" "q \<in> qs" for p q
    using assms that unfolding backed_def by (metis disjoint_iff)
  then show ?thesis using assms(1,2) by (auto simp: backed_def inj_on_Un)
qed

lemma backed_mono: "backed M m ps K \<Longrightarrow> K \<subseteq> L \<Longrightarrow> backed M m ps L"
  by (auto simp: backed_def)

text \<open>Pages with frames of their own, which the allocator no longer has.\<close>

definition own_pages :: "('m, 'fa) page_mapper \<Rightarrow> ('fa \<Rightarrow> u64 list) \<Rightarrow> u64 set \<Rightarrow> 'm \<Rightarrow> 'fa \<Rightarrow> u64 set \<Rightarrow> bool" where
  "own_pages M avail usable m fa ps \<longleftrightarrow> set (avail fa) \<subseteq> usable
     \<and> (\<exists>K. backed M m ps K \<and> K \<inter> set (avail fa) = {} \<and> K \<subseteq> usable)"

lemma own_pages_start: "set (avail fa) \<subseteq> usable \<Longrightarrow> own_pages M avail usable m fa {}"
  by (auto simp: own_pages_def)

lemma own_pages_extend:
  assumes own: "own_pages M avail usable m fa ps" and new: "backed M m' qs (set (take k (avail fa)))"
    and walk: "\<forall>p. p \<notin> qs \<longrightarrow> walk M m' p = walk M m p" "ps \<inter> qs = {}"
    and fa: "fresh_supply avail fa" "avail fa' = drop k (avail fa)"
  shows "own_pages M avail usable m' fa' (ps \<union> qs)"
proof -
  obtain K where K: "backed M m ps K" "K \<inter> set (avail fa) = {}" "K \<subseteq> usable"
    and av: "set (avail fa) \<subseteq> usable" using own unfolding own_pages_def by blast
  let ?L = "set (take k (avail fa))"
  have L: "?L \<subseteq> set (avail fa)" "set (avail fa') \<subseteq> set (avail fa)" "?L \<inter> set (avail fa') = {}"
    using fa set_take_disj_set_drop_if_distinct[of "avail fa" k k] by (auto simp: fresh_supply_def dest: in_set_takeD in_set_dropD)
  have "backed M m' ps K" using walk by (intro backed_walk[OF K(1)]) auto
  then have "backed M m' (ps \<union> qs) (K \<union> ?L)" using K(2) L(1) by (intro backed_Un[OF _ new]) auto
  moreover have "(K \<union> ?L) \<inter> set (avail fa') = {}" "K \<union> ?L \<subseteq> usable" using K L av by auto
  ultimately show ?thesis using L(2) av unfolding own_pages_def by blast
qed

lemma maps_to_backed:
  assumes "maps_to M m m' ps fs fl" "distinct fs" "set fs \<subseteq> K"
  shows "backed M m' (set ps) K"
proof -
  have at: "walk M m' (ps ! i) = Some (fs ! i, fl)" "frame_of M m' (ps ! i) = fs ! i" "fs ! i \<in> K" if "i < length ps" for i
    using that assms(3) maps_toD(1,2)[OF assms(1)] by (auto simp: frame_of_def)
  have "inj_on (frame_of M m') (set ps)"
  proof (rule inj_onI)
    fix p q assume "p \<in> set ps" "q \<in> set ps" and e: "frame_of M m' p = frame_of M m' q"
    then obtain i j where ij: "i < length ps" "p = ps ! i" "j < length ps" "q = ps ! j" by (auto simp: in_set_conv_nth)
    then have "fs ! i = fs ! j" using e at(2) by simp
    then show "p = q" using ij assms(2) maps_toD(1)[OF assms(1)] by (simp add: nth_eq_iff_index_eq)
  qed
  then show ?thesis using at by (auto simp: backed_def in_set_conv_nth)
qed

context frame_source
begin

lemma map_pages_ok:
  assumes laws: "mapper_laws M avail good"
  shows "good fa \<Longrightarrow> 4 * length ps \<le> length (avail fa) \<Longrightarrow> fresh_supply avail fa \<Longrightarrow> mappable M m ps \<Longrightarrow>
    \<exists>m' fa' fs k. map_pages M alloc fl ps (m, fa) = Ok (Inr (m', fa')) \<and> good fa'
      \<and> k \<le> 4 * length ps \<and> avail fa' = drop k (avail fa) \<and> maps_to M m m' ps fs fl
      \<and> set fs \<subseteq> set (take k (avail fa)) \<and> distinct fs"
proof (induction ps arbitrary: m fa)
  case Nil
  have "map_pages M alloc fl [] (m, fa) = Ok (Inr (m, fa))" by simp
  then show ?case using Nil.prems(1) maps_to_Nil[of M m fl]
    by (intro exI[of _ m] exI[of _ fa] exI[of _ "[]"] exI[of _ 0]) simp
next
  case (Cons p ps)
  obtain f av where av: "avail fa = f # av" using Cons.prems(2) by (cases "avail fa") auto
  obtain fa1 where a1: "alloc fa = Ok (Some f, fa1)" "good fa1" "avail fa1 = av"
    using alloc_Cons[OF Cons.prems(1) av] by blast
  have p: "lower_half p" "page_down p = p" "unmapped M m p" "p \<notin> set ps"
    using Cons.prems(4) by (auto simp: mappable_def)
  have three: "3 \<le> length (avail fa1)" using Cons.prems(2) av a1(3) by simp
  obtain m1 fa2 j where m1: "j \<le> 3" "map_to M m p f fl fa1 = Inr (m1, fa2)" "good fa2"
    "avail fa2 = drop j (avail fa1)" "walk M m1 = (walk M m)(p \<mapsto> (f, fl))"
    "unmapped M m1 = (unmapped M m)(p := False)"
    by (rule map_to_law[OF laws a1(2) three p(1-3)])
  have "fresh_supply avail fa2" using Cons.prems(3) av a1(3) m1(4)
    by (auto simp: fresh_supply_def distinct_drop dest: in_set_dropD)
  moreover have "mappable M m1 ps" using Cons.prems(4) m1(6) p(4) by (auto simp: mappable_def)
  moreover have "4 * length ps \<le> length (avail fa2)" using Cons.prems(2) av a1(3) m1(1,4) by simp
  ultimately obtain m' fa' fs k where r: "map_pages M alloc fl ps (m1, fa2) = Ok (Inr (m', fa'))"
    "good fa'" "k \<le> 4 * length ps" "avail fa' = drop k (avail fa2)" "maps_to M m1 m' ps fs fl"
    "set fs \<subseteq> set (take k (avail fa2))" "distinct fs"
    using Cons.IH[OF m1(3)] by blast
  let ?k = "Suc (j + k)"
  have tk: "take ?k (avail fa) = f # take j av @ take k (drop j av)"
    by (simp add: av take_add)
  have fs: "set fs \<subseteq> set (take k (drop j av))" using r(6) m1(4) a1(3) by simp
  have "f \<notin> set fs" using fs Cons.prems(3) av
    by (auto simp: fresh_supply_def dest: in_set_takeD in_set_dropD)
  then have "distinct (f # fs)" using r(7) by simp
  moreover have "set (f # fs) \<subseteq> set (take ?k (avail fa))" unfolding tk using fs by auto
  moreover have "avail fa' = drop ?k (avail fa)" using r(4) m1(4) a1(3) av by (simp add: add.commute)
  moreover have "?k \<le> 4 * length (p # ps)" using m1(1) r(3) by simp
  moreover have "maps_to M m m' (p # ps) (f # fs) fl" by (rule maps_to_Cons[OF m1(5,6) r(5) p(4)])
  moreover have "map_pages M alloc fl (p # ps) (m, fa) = Ok (Inr (m', fa'))" using a1(1) m1(2) r(1) by simp
  ultimately show ?case using r(2) by blast
qed

text \<open>Errors: no frame left, and a page that is already mapped.\<close>

lemma map_pages_no_frame:
  "good fa \<Longrightarrow> avail fa = [] \<Longrightarrow> map_pages M alloc fl (p # ps) (m, fa) = Ok (Inl No_Frame)"
  using alloc_Nil[of fa] by auto

lemma map_pages_mapped:
  assumes "mapper_laws M avail good" "good fa" "avail fa \<noteq> []" "walk M m p = Some (f, fl0)"
  shows "map_pages M alloc fl (p # ps) (m, fa) = Ok (Inl (Not_Mapped (PageAlreadyMapped f)))"
proof -
  obtain f' av where "avail fa = f' # av" using assms(3) by (cases "avail fa") auto
  then show ?thesis using alloc_Cons[OF assms(2)] map_to_mapped[OF assms(1,4)] by fastforce
qed

end

section \<open>Stores through fresh pages\<close>

definition paddr :: "('m, 'fa) page_mapper \<Rightarrow> 'm \<Rightarrow> u64 \<Rightarrow> u64" where
  "paddr M m a = fst (the (translate M m a))"

definition writable_at :: "('m, 'fa) page_mapper \<Rightarrow> 'm \<Rightarrow> u64 \<Rightarrow> bool" where
  "writable_at M m a \<longleftrightarrow> (case translate M m a of None \<Rightarrow> False | Some (_, fl) \<Rightarrow> fl AND WRITABLE \<noteq> 0)"

lemma writable_translate:
  "writable_at M m a \<Longrightarrow> \<exists>fl. translate M m a = Some (paddr M m a, fl) \<and> fl AND WRITABLE \<noteq> 0"
  by (auto simp: writable_at_def paddr_def split: option.splits)

lemma store_bytes_ok:
  assumes "\<And>i. i < length bs \<Longrightarrow> writable_at M m (a + of_nat i)"
    and "inj_on (\<lambda>i. paddr M m (a + of_nat i)) {..<length bs}"
  shows "\<exists>phys'. store_bytes M m a bs phys = Some phys'
     \<and> (\<forall>i < length bs. phys' (paddr M m (a + of_nat i)) = bs ! i)
     \<and> (\<forall>x. (\<forall>i < length bs. x \<noteq> paddr M m (a + of_nat i)) \<longrightarrow> phys' x = phys x)"
  using assms
proof (induction bs arbitrary: a phys)
  case (Cons b bs)
  obtain fl where fl: "translate M m a = Some (paddr M m a, fl)" "fl AND WRITABLE \<noteq> 0"
    using writable_translate[of M m a] Cons.prems(1)[of 0] by auto
  have w: "writable_at M m (a + 1 + of_nat i)" if "i < length bs" for i
    using Cons.prems(1)[of "Suc i"] that by (simp add: add.assoc)
  have inj: "inj_on (\<lambda>i. paddr M m (a + 1 + of_nat i)) {..<length bs}"
  proof (rule inj_onI)
    fix i j assume ij: "i \<in> {..<length bs}" "j \<in> {..<length bs}"
      and "paddr M m (a + 1 + of_nat i) = paddr M m (a + 1 + of_nat j)"
    then have "paddr M m (a + of_nat (Suc i)) = paddr M m (a + of_nat (Suc j))"
      by (simp add: add.assoc)
    then have "Suc i = Suc j" using ij inj_onD[OF Cons.prems(2), of "Suc i" "Suc j"] by simp
    then show "i = j" by simp
  qed
  obtain phys' where r: "store_bytes M m (a + 1) bs (phys(paddr M m a := b)) = Some phys'"
    "\<forall>i < length bs. phys' (paddr M m (a + 1 + of_nat i)) = bs ! i"
    "\<forall>x. (\<forall>i < length bs. x \<noteq> paddr M m (a + 1 + of_nat i)) \<longrightarrow> phys' x = (phys(paddr M m a := b)) x"
    using Cons.IH[of "a + 1" "phys(paddr M m a := b)", OF w inj] by blast
  have "paddr M m a \<noteq> paddr M m (a + 1 + of_nat i)" if "i < length bs" for i
    using inj_onD[OF Cons.prems(2), of 0 "Suc i"] that by (auto simp: add.assoc)
  then have 0: "phys' (paddr M m a) = b" using r(3) by auto
  have at: "phys' (paddr M m (a + of_nat i)) = (b # bs) ! i" if "i < length (b # bs)" for i
    using that r(2) 0 by (cases i) (auto simp: add.assoc)
  have other: "phys' x = phys x" if "\<forall>i < length (b # bs). x \<noteq> paddr M m (a + of_nat i)" for x
  proof -
    have "x \<noteq> paddr M m a" using that[rule_format, of 0] by simp
    moreover have "\<forall>i < length bs. x \<noteq> paddr M m (a + 1 + of_nat i)"
      using that[rule_format, of "Suc i" for i] by (simp add: add.assoc)
    ultimately show ?thesis using r(3) by auto
  qed
  have "store_bytes M m a (b # bs) phys = Some phys'" using fl r(1) by simp
  then show ?case using at other by blast
qed simp

lemma mapped_translate:
  assumes "maps_to M m m' ps fs fl" "\<forall>f \<in> set fs. page_down f = f" "page_down a \<in> set ps"
  shows "\<exists>f \<in> set fs. walk M m' (page_down a) = Some (f, fl)
     \<and> translate M m' a = Some (f + (a - page_down a), fl)
     \<and> paddr M m' a = f + (a - page_down a) \<and> page_down (paddr M m' a) = f"
proof -
  obtain i where i: "i < length fs" "walk M m' (page_down a) = Some (fs ! i, fl)"
    by (rule maps_to_page[OF assms(1,3)])
  have "page_down (fs ! i + (a - page_down a)) = fs ! i"
    using assms(2) i(1) page_offset by (intro page_down_add) auto
  then show ?thesis using i by (intro bexI[of _ "fs ! i"]) (auto simp: translate_def paddr_def)
qed

lemma mapped_inj:
  assumes "maps_to M m m' ps fs fl" "\<forall>f \<in> set fs. page_down f = f" "distinct fs"
    and "page_down a \<in> set ps" "page_down b \<in> set ps" "paddr M m' a = paddr M m' b"
  shows "a = b"
proof -
  obtain i where i: "i < length fs" "page_down a = ps ! i" "walk M m' (page_down a) = Some (fs ! i, fl)"
    by (rule maps_to_page[OF assms(1,4)])
  obtain j where j: "j < length fs" "page_down b = ps ! j" "walk M m' (page_down b) = Some (fs ! j, fl)"
    by (rule maps_to_page[OF assms(1,5)])
  have "fs ! i = fs ! j"
    using mapped_translate[OF assms(1,2,4)] mapped_translate[OF assms(1,2,5)] assms(6) i(3) j(3) by auto
  then have "i = j" using assms(3) i(1) j(1) by (simp add: nth_eq_iff_index_eq)
  then have "page_down a = page_down b" using i j by simp
  moreover have "fs ! i + (a - page_down a) = fs ! i + (b - page_down b)"
    using mapped_translate[OF assms(1,2,4)] mapped_translate[OF assms(1,2,5)] assms(6) i(3) j(3) \<open>i = j\<close> by auto
  ultimately show ?thesis by simp
qed

lemma mapped_store:
  assumes m: "maps_to M m m' ps fs fl" "\<forall>f \<in> set fs. page_down f = f" "distinct fs"
    and fl: "fl AND WRITABLE \<noteq> 0" and n: "length bs < 2 ^ 64"
    and pages: "\<And>i. i < length bs \<Longrightarrow> page_down (a + of_nat i) \<in> set ps"
  shows "\<exists>phys'. store_bytes M m' a bs phys = Some phys'
     \<and> (\<forall>i < length bs. phys' (paddr M m' (a + of_nat i)) = bs ! i)
     \<and> (\<forall>x. (\<forall>i < length bs. x \<noteq> paddr M m' (a + of_nat i)) \<longrightarrow> phys' x = phys x)
     \<and> (\<forall>x. page_down x \<notin> set fs \<longrightarrow> phys' x = phys x)"
proof -
  have w: "writable_at M m' (a + of_nat i)" if "i < length bs" for i
    using mapped_translate[OF m(1,2) pages[OF that]] fl by (auto simp: writable_at_def)
  have inj: "inj_on (\<lambda>i. paddr M m' (a + of_nat i)) {..<length bs}"
  proof (rule inj_onI)
    fix i j assume ij: "i \<in> {..<length bs}" "j \<in> {..<length bs}"
      and "paddr M m' (a + of_nat i) = paddr M m' (a + of_nat j)"
    then have "a + of_nat i = a + of_nat j" using mapped_inj[OF m] pages by blast
    then show "i = j" using ij n of_nat64_inject[of i j] by simp
  qed
  obtain phys' where r: "store_bytes M m' a bs phys = Some phys'"
     "\<forall>i < length bs. phys' (paddr M m' (a + of_nat i)) = bs ! i"
     "\<forall>x. (\<forall>i < length bs. x \<noteq> paddr M m' (a + of_nat i)) \<longrightarrow> phys' x = phys x"
    using store_bytes_ok[of bs M m' a phys] w inj by blast
  have "phys' x = phys x" if "page_down x \<notin> set fs" for x
  proof -
    have "x \<noteq> paddr M m' (a + of_nat i)" if "i < length bs" for i
      using mapped_translate[OF m(1,2) pages[OF that]] \<open>page_down x \<notin> set fs\<close> by auto
    then show ?thesis using r(3) by blast
  qed
  then show ?thesis using r by blast
qed

section \<open>Changing the flags of mapped pages\<close>

lemma update_pages_ok:
  assumes laws: "mapper_laws M avail good"
  shows "\<forall>p \<in> set ps. walk M m p \<noteq> None \<Longrightarrow>
    \<exists>m'. update_pages M fl ps m = Ok m' \<and> unmapped M m' = unmapped M m
      \<and> (\<forall>p. walk M m' p = (if p \<in> set ps then Some (fst (the (walk M m p)), fl) else walk M m p))"
proof (induction ps arbitrary: m)
  case (Cons p ps)
  obtain f fl0 where p: "walk M m p = Some (f, fl0)" using Cons.prems by auto
  obtain m1 where m1: "update_flags M m p fl = Some m1" "walk M m1 = (walk M m)(p \<mapsto> (f, fl))"
    "unmapped M m1 = unmapped M m" by (rule update_flags_law[OF laws p])
  have "\<forall>p \<in> set ps. walk M m1 p \<noteq> None" using Cons.prems m1(2) by auto
  then obtain m' where m': "update_pages M fl ps m1 = Ok m'" "unmapped M m' = unmapped M m1"
    "\<forall>p. walk M m' p = (if p \<in> set ps then Some (fst (the (walk M m1 p)), fl) else walk M m1 p)"
    using Cons.IH[of m1] by blast
  have "walk M m' q = (if q \<in> set (p # ps) then Some (fst (the (walk M m q)), fl) else walk M m q)" for q
    using m'(3) m1(2) p by auto
  then show ?case using m1 m' by auto
qed simp

section \<open>Loading one segment\<close>

definition segment_ok :: "u8 list \<Rightarrow> program_header \<Rightarrow> bool" where
  "segment_ok elf h \<longleftrightarrow> 0 < unat (ph_memsz h) \<and> unat (ph_vaddr h) + unat (ph_memsz h) < 2 ^ 47
     \<and> ph_filesz h \<le> ph_memsz h \<and> unat (ph_offset h) + unat (ph_filesz h) \<le> length elf"

definition segment_span :: "program_header \<Rightarrow> u64 list" where
  "segment_span h = pages_between (page_down (ph_vaddr h)) (page_down (ph_vaddr h + ph_memsz h - 1))"

text \<open>The bytes a loaded segment must show: the file's, then zeros.\<close>

definition segment_byte :: "u8 list \<Rightarrow> program_header \<Rightarrow> nat \<Rightarrow> u8" where
  "segment_byte elf h i = (if i < unat (ph_filesz h) then elf ! (unat (ph_offset h) + i) else 0)"

definition loaded :: "('m, 'fa) page_mapper \<Rightarrow> u8 list \<Rightarrow> program_header \<Rightarrow> 'm \<Rightarrow> memory \<Rightarrow> bool" where
  "loaded M elf h m phys \<longleftrightarrow>
     (\<forall>i < unat (ph_memsz h). load_byte M m phys (ph_vaddr h + of_nat i) = Some (segment_byte elf h i))
   \<and> (\<forall>p \<in> set (segment_span h). \<exists>f. walk M m p = Some (f, segment_flags h))"

lemma segment_bounds:
  assumes "segment_ok elf h"
  shows "unat (ph_vaddr h + ph_memsz h) = unat (ph_vaddr h) + unat (ph_memsz h)"
    and "unat (ph_vaddr h + ph_memsz h - 1) = unat (ph_vaddr h) + unat (ph_memsz h) - 1"
    and "lower_half (ph_vaddr h)" "lower_half (ph_vaddr h + ph_memsz h - 1)"
proof -
  show 1: "unat (ph_vaddr h + ph_memsz h) = unat (ph_vaddr h) + unat (ph_memsz h)"
    using assms by (simp add: segment_ok_def unat_word_ariths)
  then have "ph_vaddr h + ph_memsz h \<noteq> 0" using assms by (auto simp: segment_ok_def)
  then show 2: "unat (ph_vaddr h + ph_memsz h - 1) = unat (ph_vaddr h) + unat (ph_memsz h) - 1"
    using unat_minus_one[of "ph_vaddr h + ph_memsz h"] 1 by simp
  show "lower_half (ph_vaddr h)" "lower_half (ph_vaddr h + ph_memsz h - 1)"
    using assms 2 by (auto simp: segment_ok_def)
qed

lemma lower_page: "lower_half a \<Longrightarrow> lower_half (page_down a)"
  using page_down_le[of a] by (simp add: word_le_nat_alt)

lemma segment_pages_span:
  assumes "x86_api_ok A" "segment_ok elf h"
  shows "segment_pages A h = Ok (segment_span h)"
proof -
  have "va_new A (ph_vaddr h) = Some (ph_vaddr h)"
    "va_add A (ph_vaddr h) (ph_memsz h) = Some (ph_vaddr h + ph_memsz h)"
    "va_sub A (ph_vaddr h + ph_memsz h) 1 = Some (ph_vaddr h + ph_memsz h - 1)"
    using segment_bounds[OF assms(2)] assms(2)
    by (auto intro!: x86_api_okD[OF assms(1)] simp: segment_ok_def)
  then show ?thesis
    using segment_bounds(3,4)[OF assms(2)] x86_api_okD(4,5)[OF assms(1)] lower_page
    by (simp add: segment_pages_def segment_span_def)
qed

lemma segment_addr:
  assumes "segment_ok elf h" "i < unat (ph_memsz h)"
  shows "page_down (ph_vaddr h + of_nat i) \<in> set (segment_span h)"
proof -
  note b = segment_bounds[OF assms(1)]
  have u: "unat (ph_vaddr h + of_nat i) = unat (ph_vaddr h) + i"
    using assms by (intro unat_add_of_nat) (simp add: segment_ok_def)
  have "ph_vaddr h \<le> ph_vaddr h + of_nat i" "ph_vaddr h + of_nat i \<le> ph_vaddr h + ph_memsz h - 1"
    using u b(2) assms(2) by (auto simp: word_le_nat_alt)
  then have "page_down (ph_vaddr h) \<le> page_down (ph_vaddr h + of_nat i)"
    "page_down (ph_vaddr h + of_nat i) \<le> page_down (ph_vaddr h + ph_memsz h - 1)"
    by (simp_all only: page_down_mono)
  then show ?thesis
    unfolding segment_span_def using b(3,4) lower_page by (subst pages_between_ok) simp_all
qed

lemma image_bytes_file:
  assumes "segment_ok elf h"
  shows "length (image_bytes elf beyond (unat (ph_offset h)) (unat (ph_filesz h))) = unat (ph_filesz h)"
    and "i < unat (ph_filesz h) \<Longrightarrow>
      image_bytes elf beyond (unat (ph_offset h)) (unat (ph_filesz h)) ! i = segment_byte elf h i"
  using assms by (simp_all add: image_bytes_def segment_ok_def segment_byte_def)

lemma segment_flags_write:
  "(segment_flags h OR WRITABLE) AND WRITABLE \<noteq> 0" "ph_write h \<Longrightarrow> segment_flags h OR WRITABLE = segment_flags h"
  by (simp_all add: segment_flags_def Let_def PRESENT_def USER_ACCESSIBLE_def WRITABLE_def)

context frame_source
begin

lemma load_segment_ok:
  assumes A: "x86_api_ok A" and laws: "mapper_laws M avail good" and ok: "segment_ok elf h"
    and fa: "good fa" "fresh_supply avail fa" "4 * length (segment_span h) \<le> length (avail fa)"
    and free: "mappable M m (segment_span h)"
  shows "\<exists>m' fa' phys' k. load_segment A M alloc elf beyond h (m, fa, phys) = Ok (m', fa', phys')
     \<and> loaded M elf h m' phys' \<and> good fa' \<and> avail fa' = drop k (avail fa) \<and> k \<le> 4 * length (segment_span h)
     \<and> (\<forall>p. p \<notin> set (segment_span h) \<longrightarrow> walk M m' p = walk M m p)
     \<and> (\<forall>p. unmapped M m' p \<longleftrightarrow> unmapped M m p \<and> p \<notin> set (segment_span h))
     \<and> backed M m' (set (segment_span h)) (set (take k (avail fa)))
     \<and> (\<forall>x. page_down x \<notin> set (take k (avail fa)) \<longrightarrow> phys' x = phys x)"
proof -
  let ?ps = "segment_span h" and ?fl = "segment_flags h OR WRITABLE" and ?v = "ph_vaddr h"
  let ?file = "image_bytes elf beyond (unat (ph_offset h)) (unat (ph_filesz h))"
  obtain m1 fa' fs k where m1: "map_pages M alloc ?fl ?ps (m, fa) = Ok (Inr (m1, fa'))" "good fa'"
    "k \<le> 4 * length ?ps" "avail fa' = drop k (avail fa)" "maps_to M m m1 ?ps fs ?fl"
    "set fs \<subseteq> set (take k (avail fa))" "distinct fs"
    using map_pages_ok[OF laws fa(1,3,2) free] by blast
  have al: "\<forall>f \<in> set fs. page_down f = f"
    using m1(6) fa(2) by (auto simp: fresh_supply_def dest: in_set_takeD)
  note store = mapped_store[OF m1(5) al m1(7) segment_flags_write(1)]
  have mem: "unat (ph_memsz h) < 2 ^ 64" by (rule unat64_bound)
  obtain ph1 where ph1: "store_bytes M m1 ?v (replicate (unat (ph_memsz h)) 0) phys = Some ph1"
    "\<forall>i < unat (ph_memsz h). ph1 (paddr M m1 (?v + of_nat i)) = 0"
    "\<forall>x. page_down x \<notin> set fs \<longrightarrow> ph1 x = phys x"
    using store[of "replicate (unat (ph_memsz h)) 0" ?v phys] mem segment_addr[OF ok] by auto
  have fsz: "unat (ph_filesz h) \<le> unat (ph_memsz h)" using ok by (simp add: segment_ok_def word_le_nat_alt)
  have len: "length ?file = unat (ph_filesz h)" by (rule image_bytes_file(1)[OF ok])
  have bytes: "length ?file < 2 ^ 64" "\<And>i. i < length ?file \<Longrightarrow> page_down (?v + of_nat i) \<in> set ?ps"
    unfolding len using unat64_bound[of "ph_filesz h"] segment_addr[OF ok] fsz by (simp_all only: order_less_le_trans)
  obtain ph2 where ph2: "store_bytes M m1 ?v ?file ph1 = Some ph2"
    "\<forall>i < unat (ph_filesz h). ph2 (paddr M m1 (?v + of_nat i)) = ?file ! i"
    "\<forall>x. (\<forall>i < unat (ph_filesz h). x \<noteq> paddr M m1 (?v + of_nat i)) \<longrightarrow> ph2 x = ph1 x"
    "\<forall>x. page_down x \<notin> set fs \<longrightarrow> ph2 x = ph1 x"
    using store[of ?file ?v ph1, OF bytes] unfolding len by blast
  have byte: "ph2 (paddr M m1 (?v + of_nat i)) = segment_byte elf h i" if "i < unat (ph_memsz h)" for i
  proof (cases "i < unat (ph_filesz h)")
    case True
    then show ?thesis using ph2(2) image_bytes_file(2)[OF ok] by simp
  next
    case False
    have "paddr M m1 (?v + of_nat i) \<noteq> paddr M m1 (?v + of_nat j)" if "j < unat (ph_filesz h)" for j
    proof
      assume e: "paddr M m1 (?v + of_nat i) = paddr M m1 (?v + of_nat j)"
      have j: "j < unat (ph_memsz h)" using that fsz by simp
      have "?v + of_nat i = ?v + of_nat j"
        by (rule mapped_inj[OF m1(5) al m1(7) segment_addr[OF ok \<open>i < unat (ph_memsz h)\<close>]
              segment_addr[OF ok j] e])
      then have "i = j" using of_nat64_inject[of i j] \<open>i < unat (ph_memsz h)\<close> j mem by simp
      then show False using that False by simp
    qed
    then show ?thesis using ph2(3) ph1(2) that False by (simp add: segment_byte_def)
  qed
  have mapped: "walk M m1 p = Some (fst (the (walk M m1 p)), ?fl) \<and> fst (the (walk M m1 p)) \<in> set fs"
    if "p \<in> set ?ps" for p
    by (rule maps_to_page[OF m1(5) that]) simp
  obtain m2 where m2: "(if ph_write h then Ok m1 else update_pages M (segment_flags h) ?ps m1) = Ok m2"
    "unmapped M m2 = unmapped M m1"
    "\<forall>p. walk M m2 p = (if p \<in> set ?ps then Some (fst (the (walk M m1 p)), segment_flags h) else walk M m1 p)"
  proof (cases "ph_write h")
    case True
    then show thesis using that[of m1] mapped segment_flags_write(2)[OF True] by auto
  next
    case False
    have "\<forall>p \<in> set ?ps. walk M m1 p \<noteq> None" using mapped by force
    then show thesis using update_pages_ok[OF laws] that False by (metis (no_types, lifting))
  qed
  have tr: "load_byte M m2 ph2 (?v + of_nat i) = Some (ph2 (paddr M m1 (?v + of_nat i)))"
    if "i < unat (ph_memsz h)" for i
    using mapped_translate[OF m1(5) al segment_addr[OF ok that]] m2(3) segment_addr[OF ok that]
    by (auto simp: load_byte_def translate_def)
  have "load_segment A M alloc elf beyond h (m, fa, phys) = Ok (m2, fa', ph2)"
    using segment_pages_span[OF A ok] m1(1) ph1(1) ph2(1) m2(1) by (simp add: load_segment_def)
  moreover have "loaded M elf h m2 ph2" using tr byte m2(3) by (simp add: loaded_def)
  moreover have "\<forall>p. p \<notin> set ?ps \<longrightarrow> walk M m2 p = walk M m p" using m2(3) maps_toD(3)[OF m1(5)] by simp
  moreover have "\<forall>p. unmapped M m2 p \<longleftrightarrow> unmapped M m p \<and> p \<notin> set ?ps"
    using m2(2) maps_toD(4)[OF m1(5)] by simp
  moreover have "backed M m2 (set ?ps) (set (take k (avail fa)))"
  proof -
    have "frame_of M m2 p = frame_of M m1 p" if "p \<in> set ?ps" for p using m2(3) that by (simp add: frame_of_def)
    then show ?thesis using maps_to_backed[OF m1(5,7,6)] m2(3) by (auto simp: backed_def inj_on_def)
  qed
  moreover have "\<forall>x. page_down x \<notin> set (take k (avail fa)) \<longrightarrow> ph2 x = phys x"
    using ph1(3) ph2(4) m1(6) by (metis subsetD)
  ultimately show ?thesis using m1(2,3,4) by blast
qed

end

section \<open>Loading a program\<close>

abbreviation load_headers :: "program_header list \<Rightarrow> program_header list" where
  "load_headers hs \<equiv> filter (\<lambda>h. ph_type h = Some Load) hs"

text \<open>
  What the loader expects of a program: every header has a type it can parse, the loadable segments are
  well formed and no two of them share a page.
\<close>

definition program_ok :: "u8 list \<Rightarrow> program_header list \<Rightarrow> bool" where
  "program_ok elf hs \<longleftrightarrow> list_all (\<lambda>h. ph_type h \<noteq> None) hs \<and> list_all (segment_ok elf) (load_headers hs)
     \<and> sorted_wrt (\<lambda>h g. set (segment_span h) \<inter> set (segment_span g) = {}) (load_headers hs)"

definition program_span :: "program_header list \<Rightarrow> u64 list" where
  "program_span hs = concat (map segment_span (load_headers hs))"

lemma program_span_simps [simp]:
  "program_span [] = []"
  "program_span (h # hs) = (if ph_type h = Some Load then segment_span h else []) @ program_span hs"
  by (simp_all add: program_span_def)

lemma program_ok_Cons:
  assumes "program_ok elf (h # hs)"
  shows "program_ok elf hs" "ph_type h \<noteq> None" "ph_type h = Some Load \<Longrightarrow> segment_ok elf h"
    and "ph_type h = Some Load \<Longrightarrow> set (segment_span h) \<inter> set (program_span hs) = {}"
  using assms by (auto simp: program_ok_def program_span_def split: if_splits)

lemma loaded_keep:
  assumes l: "loaded M elf h m phys" and ok: "segment_ok elf h"
    and walk: "\<forall>p \<in> set (segment_span h). walk M m' p = walk M m p"
    and frames: "\<forall>p \<in> set (segment_span h). fst (the (walk M m p)) \<notin> K \<and> page_down (fst (the (walk M m p))) = fst (the (walk M m p))"
    and phys: "\<forall>x. page_down x \<notin> K \<longrightarrow> phys' x = phys x"
  shows "loaded M elf h m' phys'"
proof -
  have "load_byte M m' phys' (ph_vaddr h + of_nat i) = load_byte M m phys (ph_vaddr h + of_nat i)"
    if "i < unat (ph_memsz h)" for i
  proof -
    let ?a = "ph_vaddr h + of_nat i"
    let ?p = "page_down ?a"
    have p: "?p \<in> set (segment_span h)" by (rule segment_addr[OF ok that])
    then obtain f where f: "walk M m ?p = Some (f, segment_flags h)" using l by (auto simp: loaded_def)
    have "f \<notin> K \<and> page_down f = f" using frames p f by force
    moreover have "page_down (f + (?a - ?p)) = f" if "page_down f = f"
      using that page_offset by (rule page_down_add)
    ultimately have "phys' (f + (?a - ?p)) = phys (f + (?a - ?p))" using phys by simp
    then show ?thesis using walk p f by (simp add: load_byte_def translate_def)
  qed
  then show ?thesis using l walk by (simp add: loaded_def)
qed

context frame_source
begin

lemma load_segments_ok:
  assumes A: "x86_api_ok A" and laws: "mapper_laws M avail good"
  shows "program_ok elf hs \<Longrightarrow> good fa \<Longrightarrow> fresh_supply avail fa \<Longrightarrow>
    4 * length (program_span hs) \<le> length (avail fa) \<Longrightarrow>
    \<forall>h \<in> set (load_headers hs). mappable M m (segment_span h) \<Longrightarrow>
    \<exists>m' fa' phys' k. load_segments A M alloc elf beyond hs (m, fa, phys) = Ok (m', fa', phys')
     \<and> good fa' \<and> avail fa' = drop k (avail fa)
     \<and> (\<forall>h \<in> set (load_headers hs). loaded M elf h m' phys')
     \<and> (\<forall>p. p \<notin> set (program_span hs) \<longrightarrow> walk M m' p = walk M m p)
     \<and> (\<forall>p. unmapped M m' p \<longleftrightarrow> unmapped M m p \<and> p \<notin> set (program_span hs))
     \<and> (\<forall>x. page_down x \<notin> set (take k (avail fa)) \<longrightarrow> phys' x = phys x)
     \<and> k \<le> 4 * length (program_span hs)
     \<and> backed M m' (set (program_span hs)) (set (take k (avail fa)))"
proof (induction hs arbitrary: m fa phys)
  case Nil
  then show ?case by (intro exI[of _ m] exI[of _ fa] exI[of _ phys] exI[of _ 0]) simp
next
  case (Cons h hs)
  note pok = program_ok_Cons[OF Cons.prems(1)]
  obtain t where t: "ph_type h = Some t" using pok(2) by blast
  show ?case
  proof (cases "t = Load")
    case False
    then show ?thesis using Cons.IH[OF pok(1) Cons.prems(2,3), of m phys] Cons.prems(4,5) t by simp
  next
    case True
    let ?sp = "segment_span h"
    have h: "ph_type h = Some Load" using t True by simp
    have free: "mappable M m ?sp" "4 * length ?sp \<le> length (avail fa)" using Cons.prems(4,5) h by auto
    obtain m1 fa1 ph1 j where s: "load_segment A M alloc elf beyond h (m, fa, phys) = Ok (m1, fa1, ph1)"
      "loaded M elf h m1 ph1" "good fa1" "avail fa1 = drop j (avail fa)" "j \<le> 4 * length ?sp"
      "\<forall>p. p \<notin> set ?sp \<longrightarrow> walk M m1 p = walk M m p"
      "\<forall>p. unmapped M m1 p \<longleftrightarrow> unmapped M m p \<and> p \<notin> set ?sp"
      "backed M m1 (set ?sp) (set (take j (avail fa)))"
      "\<forall>x. page_down x \<notin> set (take j (avail fa)) \<longrightarrow> ph1 x = phys x"
      using load_segment_ok[OF A laws pok(3)[OF h] Cons.prems(2,3) free(2,1), of beyond phys] by blast
    have fresh: "fresh_supply avail fa1"
      using Cons.prems(3) s(4) by (auto simp: fresh_supply_def distinct_drop dest: in_set_dropD)
    have room: "4 * length (program_span hs) \<le> length (avail fa1)" using Cons.prems(4) s(4,5) h by simp
    have "mappable M m1 (segment_span g)" if g: "g \<in> set (load_headers hs)" for g
    proof -
      have "set (segment_span g) \<subseteq> set (program_span hs)" using g by (auto simp: program_span_def)
      then have "set (segment_span g) \<inter> set ?sp = {}" using pok(4)[OF h] by blast
      moreover have "mappable M m (segment_span g)" using Cons.prems(5) g by simp
      ultimately show ?thesis using s(7) by (auto simp: mappable_def)
    qed
    then obtain m' fa' phys' k where r: "load_segments A M alloc elf beyond hs (m1, fa1, ph1) = Ok (m', fa', phys')"
     "good fa'" "avail fa' = drop k (avail fa1)" "\<forall>g \<in> set (load_headers hs). loaded M elf g m' phys'"
     "\<forall>p. p \<notin> set (program_span hs) \<longrightarrow> walk M m' p = walk M m1 p"
     "\<forall>p. unmapped M m' p \<longleftrightarrow> unmapped M m1 p \<and> p \<notin> set (program_span hs)"
     "\<forall>x. page_down x \<notin> set (take k (avail fa1)) \<longrightarrow> phys' x = ph1 x"
     "k \<le> 4 * length (program_span hs)" "backed M m' (set (program_span hs)) (set (take k (avail fa1)))"
      using Cons.IH[OF pok(1) s(3) fresh room] by blast
    have apart: "set (take j (avail fa)) \<inter> set (avail fa1) = {}"
      using Cons.prems(3) s(4) set_take_disj_set_drop_if_distinct[of "avail fa" j j]
      by (simp add: fresh_supply_def)
    have keep: "loaded M elf h m' phys'"
    proof (rule loaded_keep[OF s(2) pok(3)[OF h]])
      show "\<forall>p \<in> set ?sp. walk M m' p = walk M m1 p" using r(5) pok(4)[OF h] by auto
      show "\<forall>p \<in> set ?sp. fst (the (walk M m1 p)) \<notin> set (take k (avail fa1))
          \<and> page_down (fst (the (walk M m1 p))) = fst (the (walk M m1 p))"
        using s(8) apart Cons.prems(3) unfolding fresh_supply_def backed_def frame_of_def
        by (meson disjoint_iff in_set_takeD)
      show "\<forall>x. page_down x \<notin> set (take k (avail fa1)) \<longrightarrow> phys' x = ph1 x" by (rule r(7))
    qed
    have tk: "take (j + k) (avail fa) = take j (avail fa) @ take k (avail fa1)" by (simp add: take_add s(4))
    have "\<forall>x. page_down x \<notin> set (take (j + k) (avail fa)) \<longrightarrow> phys' x = phys x"
      unfolding tk using r(7) s(9) by simp
    moreover have "avail fa' = drop (j + k) (avail fa)" using r(3) s(4) by (simp add: add.commute)
    moreover have "\<forall>p. p \<notin> set (program_span (h # hs)) \<longrightarrow> walk M m' p = walk M m p" using r(5) s(6) h by simp
    moreover have "\<forall>p. unmapped M m' p \<longleftrightarrow> unmapped M m p \<and> p \<notin> set (program_span (h # hs))"
      using r(6) s(7) h by auto
    moreover have "j + k \<le> 4 * length (program_span (h # hs))" using s(5) r(8) h by simp
    moreover have "backed M m' (set (program_span (h # hs))) (set (take (j + k) (avail fa)))"
    proof -
      have "backed M m' (set ?sp) (set (take j (avail fa)))"
        using pok(4)[OF h] r(5) by (intro backed_walk[OF s(8)]) auto
      moreover have "set (take j (avail fa)) \<inter> set (take k (avail fa1)) = {}" using apart by (auto dest: in_set_takeD)
      ultimately show ?thesis unfolding tk using backed_Un[OF _ r(9)] h by simp
    qed
    moreover have "\<forall>g \<in> set (load_headers (h # hs)). loaded M elf g m' phys'" using r(4) keep h by simp
    moreover have "load_segments A M alloc elf beyond (h # hs) (m, fa, phys) = Ok (m', fa', phys')"
      using h s(1) r(1) by simp
    ultimately show ?thesis using r(2) by blast
  qed
qed

lemma stack_pages_ok:
  assumes A: "x86_api_ok A" and laws: "mapper_laws M avail good"
    and base: "page_down stack_base = stack_base"
  shows "good fa \<Longrightarrow> fresh_supply avail fa \<Longrightarrow> 4 * length is \<le> length (avail fa) \<Longrightarrow>
    \<forall>i \<in> set is. unat stack_base + 4096 * i < 2 ^ 47 \<and> unmapped M m (stack_base + of_nat i * 4096) \<Longrightarrow>
    distinct is \<Longrightarrow>
    \<exists>m' fa' fs k. stack_pages A M alloc stack_base is (m, fa) = Ok (m', fa') \<and> good fa'
      \<and> avail fa' = drop k (avail fa) \<and> k \<le> 4 * length is \<and> set fs \<subseteq> set (take k (avail fa)) \<and> distinct fs
      \<and> maps_to M m m' (map (\<lambda>i. stack_base + of_nat i * 4096) is) fs (PRESENT OR WRITABLE OR USER_ACCESSIBLE)"
proof (induction "is" arbitrary: m fa)
  case Nil
  then show ?case using maps_to_Nil[of M m]
    by (intro exI[of _ m] exI[of _ fa] exI[of _ "[]"] exI[of _ 0]) simp
next
  case (Cons i js)
  let ?fl = "PRESENT OR WRITABLE OR USER_ACCESSIBLE" and ?a = "\<lambda>i. stack_base + of_nat i * 4096 :: u64"
  have low: "unat stack_base + 4096 * n < 2 ^ 47 \<Longrightarrow> unat (of_nat n * 4096 :: u64) = 4096 * n" for n
    using unat_of_nat64[of "4096 * n"] by (simp add: mult.commute)
  have addr: "unat (?a n) = unat stack_base + 4096 * n" "page_down (?a n) = ?a n"
    if "unat stack_base + 4096 * n < 2 ^ 47" for n
  proof -
    show "unat (?a n) = unat stack_base + 4096 * n" using low[OF that] that by (simp add: unat_word_ariths)
    then show "page_down (?a n) = ?a n" using base by (simp add: page_down_aligned)
  qed
  have i: "unat stack_base + 4096 * i < 2 ^ 47" "unmapped M m (?a i)" using Cons.prems(4) by auto
  have va: "va_add A stack_base (of_nat i * 4096) = Some (?a i)" "page_containing A (?a i) = ?a i"
    using low[OF i(1)] addr[OF i(1)] i(1) by (auto simp: x86_api_okD(2,4)[OF A])
  have ne: "?a i \<noteq> ?a n" if "n \<in> set js" for n
  proof
    have n: "unat stack_base + 4096 * n < 2 ^ 47" "n \<noteq> i" using Cons.prems(4,5) that by auto
    assume "?a i = ?a n"
    then have "unat (?a i) = unat (?a n)" by (rule arg_cong)
    then show False unfolding addr(1)[OF i(1)] addr(1)[OF n(1)] using n(2) by simp
  qed
  have one: "mappable M m [?a i]" using i addr[OF i(1)] by (simp add: mappable_def)
  obtain m1 fa1 gs j where m1: "map_pages M alloc ?fl [?a i] (m, fa) = Ok (Inr (m1, fa1))" "good fa1"
    "avail fa1 = drop j (avail fa)" "j \<le> 4 * length [?a i]" "maps_to M m m1 [?a i] gs ?fl"
    "set gs \<subseteq> set (take j (avail fa))" "distinct gs"
    using map_pages_ok[OF laws Cons.prems(1) _ Cons.prems(2) one, of ?fl] Cons.prems(3) by auto
  have fresh: "fresh_supply avail fa1"
    using Cons.prems(2) m1(3) by (auto simp: fresh_supply_def distinct_drop dest: in_set_dropD)
  have room: "4 * length js \<le> length (avail fa1)" using Cons.prems(3) m1(3,4) by simp
  have free: "\<forall>n \<in> set js. unat stack_base + 4096 * n < 2 ^ 47 \<and> unmapped M m1 (?a n)"
    using Cons.prems(4) maps_toD(4)[OF m1(5)] ne[symmetric] by auto
  have dist: "distinct js" using Cons.prems(5) by simp
  obtain m' fa' fs k where r: "stack_pages A M alloc stack_base js (m1, fa1) = Ok (m', fa')" "good fa'"
    "avail fa' = drop k (avail fa1)" "set fs \<subseteq> set (take k (avail fa1))" "distinct fs"
    "maps_to M m1 m' (map ?a js) fs ?fl" "k \<le> 4 * length js"
    using Cons.IH[OF m1(2) fresh room free dist] by blast
  obtain g where g: "gs = [g]" using maps_toD(1)[OF m1(5)] by (cases gs) auto
  have "walk M m1 (?a i) = Some (g, ?fl)" using maps_toD(2)[OF m1(5), of 0] g by simp
  then have all: "maps_to M m m' (map ?a (i # js)) (g # fs) ?fl"
    using r(6) m1(5) ne by (auto simp: maps_to_def nth_Cons' image_iff)
  have tk: "take (j + k) (avail fa) = take j (avail fa) @ take k (avail fa1)" by (simp add: take_add m1(3))
  have "set (take j (avail fa)) \<inter> set (avail fa1) = {}"
    using Cons.prems(2) m1(3) set_take_disj_set_drop_if_distinct[of "avail fa" j j]
    by (simp add: fresh_supply_def)
  then have "distinct (g # fs)" using g m1(6) r(4,5) by (auto dest: in_set_takeD)
  moreover have "set (g # fs) \<subseteq> set (take (j + k) (avail fa))" unfolding tk using g m1(6) r(4) by auto
  moreover have "avail fa' = drop (j + k) (avail fa)" using r(3) m1(3) by (simp add: add.commute)
  moreover have "j + k \<le> 4 * length (i # js)" using m1(4) r(7) by simp
  moreover have "stack_pages A M alloc stack_base (i # js) (m, fa) = Ok (m', fa')"
    using va m1(1) r(1) by (simp del: map_pages.simps bindo_Ok_iff)
  ultimately show ?case using r(2) all by blast
qed

end

section \<open>Memory set-up over the boot allocator\<close>

lemma boot_fresh:
  assumes "regions_ok (memory_regions fa)"
  shows "fresh_supply (boot_avail A) fa"
proof -
  have "map page_down (usable_addrs (memory_regions fa)) = usable_addrs (memory_regions fa)"
    using usable_addrs_ok(3)[OF assms] by (intro map_idI) blast
  then show ?thesis
    using usable_addrs_ok(1,3)[OF assms]
    by (auto simp: fresh_supply_def boot_avail_def distinct_drop dest: in_set_dropD)
qed

lemma heap_pages_span:
  assumes "x86_api_ok A"
  shows "heap_pages A = Ok (pages_between 0x444444440000 0x444444458000)"
proof -
  have pd: "page_down 0x444444440000 = 0x444444440000" "page_down 0x444444458FFF = 0x444444458000"
    "page_down 0x444444458000 = 0x444444458000"
    by (simp_all add: page_down_def)
  have "va_new A HEAP_START = Some 0x444444440000" "va_add A 0x444444440000 HEAP_SIZE = Some 0x444444459000"
    "va_sub A 0x444444459000 1 = Some 0x444444458FFF"
    "page_containing A 0x444444440000 = 0x444444440000" "page_containing A 0x444444458FFF = 0x444444458000"
    "page_range A 0x444444440000 0x444444458000 = pages_between 0x444444440000 0x444444458000"
    using x86_api_okD[OF assms] by (simp_all add: HEAP_START_def HEAP_SIZE_def pd)
  then show ?thesis by (simp add: heap_pages_def)
qed

lemma heap_span_ok:
  "distinct (pages_between 0x444444440000 0x444444458000)"
  "length (pages_between 0x444444440000 0x444444458000) = 25"
  "\<forall>p \<in> set (pages_between 0x444444440000 0x444444458000). lower_half p \<and> page_down p = p"
proof -
  have "page_down 0x444444440000 = 0x444444440000" "page_down 0x444444458000 = 0x444444458000"
    by (simp_all add: page_down_def)
  note ok = pages_between_ok[OF _ _ this]
  show "distinct (pages_between 0x444444440000 0x444444458000)" by (rule ok(1)) simp_all
  show "length (pages_between 0x444444440000 0x444444458000) = 25" using ok(3) by simp
  show "\<forall>p \<in> set (pages_between 0x444444440000 0x444444458000). lower_half p \<and> page_down p = p"
  proof
    fix p assume "p \<in> set (pages_between 0x444444440000 0x444444458000)"
    then have "page_down p = p" "p \<le> 0x444444458000" using ok(2)[of p] by simp_all
    then show "lower_half p \<and> page_down p = p" by (simp add: word_le_nat_alt)
  qed
qed

text \<open>
  C27. The kernel heap is mapped before it is used: with a hundred frames at hand \<^verbatim>\<open>init_heap\<close> succeeds,
  maps each of the 25 pages of the heap's 100 KiB writable and not user accessible to its own usable
  frame, leaves every other page's translation alone and gives the heap exactly this range; with no
  frame it returns the error \<^verbatim>\<open>FrameAllocationFailed\<close>.
\<close>

theorem init_heap_maps_heap:
  assumes "x86_api_ok A" and "mapper_laws M (boot_avail A) (boot_good A)"
    and "boot_good A fa" and "regions_ok (memory_regions fa)"
    and "\<forall>p \<in> set (pages_between 0x444444440000 0x444444458000). unmapped M m p"
  shows "(100 \<le> length (boot_avail A fa) \<longrightarrow>
       (\<exists>m' fa' fs. init_heap A M (allocate_frame A) heap_init (m, fa, h)
             = Ok (Inr (m', fa', heap_init HEAP_START HEAP_SIZE h))
          \<and> distinct fs \<and> set fs \<subseteq> set (boot_avail A fa) \<and> set fs \<inter> set (boot_avail A fa') = {}
          \<and> maps_to M m m' (pages_between 0x444444440000 0x444444458000) fs 3))
     \<and> (boot_avail A fa = [] \<longrightarrow>
          init_heap A M (allocate_frame A) heap_init (m, fa, h) = Ok (Inl FrameAllocationFailed))"
proof (intro conjI impI)
  let ?ps = "pages_between 0x444444440000 0x444444458000"
  have fl: "PRESENT OR WRITABLE = 3" by (simp add: PRESENT_def WRITABLE_def)
  have fresh: "fresh_supply (boot_avail A) fa" by (rule boot_fresh[OF assms(4)])
  {
    assume "100 \<le> length (boot_avail A fa)"
    then have room: "4 * length ?ps \<le> length (boot_avail A fa)" using heap_span_ok(2) by simp
    have "mappable M m ?ps" using heap_span_ok(1,3) assms(5) by (simp add: mappable_def)
    from boot_frames.map_pages_ok[OF assms(2,3) room fresh this, of 3]
    obtain m' fa' fs k where r: "map_pages M (allocate_frame A) 3 ?ps (m, fa) = Ok (Inr (m', fa'))"
      "boot_avail A fa' = drop k (boot_avail A fa)" "maps_to M m m' ?ps fs 3"
      "set fs \<subseteq> set (take k (boot_avail A fa))" "distinct fs" by blast
    have "set fs \<inter> set (boot_avail A fa') = {}" "set fs \<subseteq> set (boot_avail A fa)"
      using r(2,4) fresh set_take_disj_set_drop_if_distinct[of "boot_avail A fa" k k]
      by (auto simp: fresh_supply_def dest: in_set_takeD)
    then show "\<exists>m' fa' fs. init_heap A M (allocate_frame A) heap_init (m, fa, h)
             = Ok (Inr (m', fa', heap_init HEAP_START HEAP_SIZE h))
          \<and> distinct fs \<and> set fs \<subseteq> set (boot_avail A fa) \<and> set fs \<inter> set (boot_avail A fa') = {}
          \<and> maps_to M m m' ?ps fs 3"
      using r(1,3,5) by (auto simp: init_heap_def heap_pages_span[OF assms(1)] fl)
  }
  assume none: "boot_avail A fa = []"
  obtain p ps where "?ps = p # ps" using heap_span_ok(2) by (cases ?ps) auto
  then have e: "map_pages M (allocate_frame A) 3 ?ps (m, fa) = Ok (Inl No_Frame)"
    using boot_frames.map_pages_no_frame[OF assms(3) none] by metis
  show "init_heap A M (allocate_frame A) heap_init (m, fa, h) = Ok (Inl FrameAllocationFailed)"
    unfolding init_heap_def heap_pages_span[OF assms(1)] fl by (simp add: e)
qed

text \<open>
  C28. A user stack is private memory: \<^verbatim>\<open>setup_user_stack\<close> returns the address just above the last page
  and has mapped every page of the range user-writable, each to its own frame that the allocator will
  not give again, changing no other translation.
\<close>

theorem setup_user_stack_ok:
  assumes "x86_api_ok A" and "mapper_laws M (boot_avail A) (boot_good A)"
    and "boot_good A fa" and "regions_ok (memory_regions fa)"
    and "page_down base = base" and "unat base + 4096 * unat pages < 2 ^ 47"
    and "4 * unat pages \<le> length (boot_avail A fa)"
    and "\<forall>i < unat pages. unmapped M m (base + of_nat i * 4096)"
  shows "\<exists>m' fa' fs. setup_user_stack A M (allocate_frame A) base pages (m, fa)
       = Ok (base + pages * 4096, m', fa')
     \<and> distinct fs \<and> set fs \<subseteq> set (boot_avail A fa) \<and> set fs \<inter> set (boot_avail A fa') = {}
     \<and> maps_to M m m' (map (\<lambda>i. base + of_nat i * 4096) [0 ..< unat pages]) fs 7"
proof -
  have fl: "PRESENT OR WRITABLE OR USER_ACCESSIBLE = 7"
    by (simp add: PRESENT_def WRITABLE_def USER_ACCESSIBLE_def)
  have fresh: "fresh_supply (boot_avail A) fa" by (rule boot_fresh[OF assms(4)])
  have u: "unat (pages * 4096) = 4096 * unat pages" using assms(6) by (simp add: unat_word_ariths)
  have va: "va_new A base = Some base" "va_add A base (pages * 4096) = Some (base + pages * 4096)"
    using assms(6) by (auto intro!: x86_api_okD[OF assms(1)] simp: u)
  have range: "\<forall>i \<in> set [0 ..< unat pages]. unat base + 4096 * i < 2 ^ 47 \<and> unmapped M m (base + of_nat i * 4096)"
    using assms(6,8) by auto
  have room: "4 * length [0 ..< unat pages] \<le> length (boot_avail A fa)" using assms(7) by simp
  from boot_frames.stack_pages_ok[OF assms(1,2,5,3) fresh room range distinct_upt]
  obtain m' fa' fs k where r: "stack_pages A M (allocate_frame A) base [0 ..< unat pages] (m, fa) = Ok (m', fa')"
    "boot_avail A fa' = drop k (boot_avail A fa)" "set fs \<subseteq> set (take k (boot_avail A fa))" "distinct fs"
    "maps_to M m m' (map (\<lambda>i. base + of_nat i * 4096) [0 ..< unat pages]) fs 7"
    unfolding fl by blast
  have "set fs \<inter> set (boot_avail A fa') = {}" "set fs \<subseteq> set (boot_avail A fa)"
    using r(2,3) fresh set_take_disj_set_drop_if_distinct[of "boot_avail A fa" k k]
    by (auto simp: fresh_supply_def dest: in_set_takeD)
  then show ?thesis using va r(1,4,5) by (auto simp: setup_user_stack_def)
qed

text \<open>
  C11. The loader loads the program: for a well-formed image \<^verbatim>\<open>load_elf\<close> returns its entry point, every
  byte of every loadable segment reads back through the new translation as the file's byte or, past
  the file size, as zero, every page of a segment is user accessible and writable just if the segment
  is, no other page's translation changes, and physical memory changes only in frames taken from the
  allocator.
\<close>

theorem load_elf_loads_program:
  assumes "x86_api_ok A" and "mapper_laws M (boot_avail A) (boot_good A)"
    and "boot_good A fa" and "regions_ok (memory_regions fa)"
    and "elf_parse elf = Some (hs, entry)" and "lower_half entry" and "program_ok elf hs"
    and "4 * length (program_span hs) \<le> length (boot_avail A fa)"
    and "\<forall>h \<in> set (load_headers hs). mappable M m (segment_span h)"
  shows "\<exists>m' fa' phys'. load_elf A elf_parse M (allocate_frame A) elf beyond (m, fa, phys)
       = Ok (entry, m', fa', phys')
     \<and> (\<forall>h \<in> set (load_headers hs).
          (\<forall>i < unat (ph_memsz h). load_byte M m' phys' (ph_vaddr h + of_nat i)
             = Some (if i < unat (ph_filesz h) then elf ! (unat (ph_offset h) + i) else 0))
        \<and> (\<forall>p \<in> set (segment_span h). \<exists>f. walk M m' p = Some (f, if ph_write h then 7 else 5)))
     \<and> (\<forall>p. p \<notin> set (program_span hs) \<longrightarrow> walk M m' p = walk M m p)
     \<and> (\<forall>x. page_down x \<notin> set (boot_avail A fa) \<longrightarrow> phys' x = phys x)"
proof -
  have fl: "segment_flags h = (if ph_write h then 7 else 5)" for h
    by (simp add: segment_flags_def Let_def PRESENT_def WRITABLE_def USER_ACCESSIBLE_def)
  obtain m' fa' phys' k where r: "load_segments A M (allocate_frame A) elf beyond hs (m, fa, phys) = Ok (m', fa', phys')"
     "\<forall>h \<in> set (load_headers hs). loaded M elf h m' phys'"
     "\<forall>p. p \<notin> set (program_span hs) \<longrightarrow> walk M m' p = walk M m p"
     "\<forall>x. page_down x \<notin> set (take k (boot_avail A fa)) \<longrightarrow> phys' x = phys x"
    using boot_frames.load_segments_ok[OF assms(1,2,7,3) boot_fresh[OF assms(4)] assms(8,9), of beyond phys]
    by blast
  have "load_elf A elf_parse M (allocate_frame A) elf beyond (m, fa, phys) = Ok (entry, m', fa', phys')"
    using assms(5) r(1) x86_api_okD(1)[OF assms(1,6)] by (simp add: load_elf_def)
  moreover have "\<forall>x. page_down x \<notin> set (boot_avail A fa) \<longrightarrow> phys' x = phys x"
    using r(4) by (blast dest: in_set_takeD)
  ultimately show ?thesis using r(2,3) unfolding loaded_def segment_byte_def fl by blast
qed


section \<open>A concrete mapper and program\<close>

definition map_ref :: "(u64 \<rightharpoonup> u64 \<times> u64, 'fa) page_mapper" where
  "map_ref = \<lparr>
     map_to = (\<lambda>m p f fl fa. case m p of None \<Rightarrow> Inr (m(p \<mapsto> (f, fl)), fa) | Some e \<Rightarrow> Inl (PageAlreadyMapped (fst e))),
     update_flags = (\<lambda>m p fl. case m p of None \<Rightarrow> None | Some e \<Rightarrow> Some (m(p \<mapsto> (fst e, fl)))),
     walk = (\<lambda>m. m),
     unmapped = (\<lambda>m p. m p = None)\<rparr>"

lemma map_ref_laws: "mapper_laws map_ref avail good"
proof -
  have "\<exists>m' fa' k. k \<le> 3 \<and> map_to map_ref m p f fl fa = Inr (m', fa') \<and> good fa' \<and> avail fa' = drop k (avail fa)
      \<and> walk map_ref m' = (walk map_ref m)(p \<mapsto> (f, fl)) \<and> unmapped map_ref m' = (unmapped map_ref m)(p := False)"
    if "good fa" "unmapped map_ref m p" for m p f fl fa
    using that by (intro exI[of _ "m(p \<mapsto> (f, fl))"] exI[of _ fa] exI[of _ 0]) (auto simp: map_ref_def)
  then show ?thesis by (simp add: mapper_laws_def) (auto simp: map_ref_def)
qed

abbreviation boot_map :: "(u64 \<rightharpoonup> u64 \<times> u64, boot_info_frame_allocator) page_mapper" where
  "boot_map \<equiv> map_ref"

definition tiny_elf :: "u8 list" where
  "tiny_elf = [0x7f, 0x45, 0x4c, 0x46, 0x90, 0xf4]"

definition tiny_header :: program_header where
  "tiny_header = \<lparr>ph_type = Some Load, ph_vaddr = 0x20000010, ph_memsz = 8, ph_filesz = 2,
     ph_offset = 4, ph_write = False\<rparr>"

definition small_allocator :: boot_info_frame_allocator where
  "small_allocator = frame_allocator_init small_map"

lemma small_allocator_ok:
  "boot_good x86_ref small_allocator" "regions_ok (memory_regions small_allocator)"
  "boot_avail x86_ref small_allocator = [0x1000, 0x2000, 0x8000, 0x9000]"
  using boot_start[OF x86_ref_ok small_map_ok] small_map_ok
  by (simp_all add: small_allocator_def small_map_usable frame_allocator_init_def)

lemma tiny_span: "segment_span tiny_header = [0x20000000]"
  by (simp add: segment_span_def tiny_header_def pages_between_def page_down_def upt_rec)

lemma tiny_ok: "program_ok tiny_elf [tiny_header]" "segment_ok tiny_elf tiny_header"
  by (simp_all add: program_ok_def segment_ok_def tiny_header_def tiny_elf_def)

theorem load_elf_loads_program_witness:
  "\<exists>m' fa' phys'. load_elf x86_ref (\<lambda>_. Some ([tiny_header], 0x20000010)) map_ref (allocate_frame x86_ref)
       tiny_elf (\<lambda>_. 0) (Map.empty, small_allocator, \<lambda>_. 0xCC) = Ok (0x20000010, m', fa', phys')
     \<and> load_byte boot_map m' phys' 0x20000011 = Some 0xf4 \<and> load_byte boot_map m' phys' 0x20000012 = Some 0"
proof -
  have room: "4 * length (program_span [tiny_header]) \<le> length (boot_avail x86_ref small_allocator)"
    by (simp add: tiny_span small_allocator_ok(3))
  have free: "\<forall>h \<in> set (load_headers [tiny_header]). mappable boot_map Map.empty (segment_span h)"
    using tiny_span by (simp add: mappable_def) (simp add: map_ref_def page_down_def)
  have low: "lower_half 0x20000010" by simp
  obtain m' fa' phys' where r: "load_elf x86_ref (\<lambda>_. Some ([tiny_header], 0x20000010)) map_ref
      (allocate_frame x86_ref) tiny_elf (\<lambda>_. 0) (Map.empty, small_allocator, \<lambda>_. 0xCC) = Ok (0x20000010, m', fa', phys')"
    "\<forall>h \<in> set (load_headers [tiny_header]).
          (\<forall>i < unat (ph_memsz h). load_byte boot_map m' phys' (ph_vaddr h + of_nat i)
             = Some (if i < unat (ph_filesz h) then tiny_elf ! (unat (ph_offset h) + i) else 0))"
    using load_elf_loads_program[OF x86_ref_ok map_ref_laws small_allocator_ok(1,2) _ low tiny_ok(1) room free,
        of "\<lambda>_. Some ([tiny_header], 0x20000010)" "\<lambda>_. 0" "\<lambda>_. 0xCC"] by blast
  have "load_byte boot_map m' phys' (0x20000010 + of_nat 1) = Some 0xf4"
    "load_byte boot_map m' phys' (0x20000010 + of_nat 2) = Some 0"
    using r(2)[rule_format, of tiny_header 1] r(2)[rule_format, of tiny_header 2]
    by (simp_all add: tiny_header_def tiny_elf_def)
  then show ?thesis using r(1) by auto
qed


theorem setup_user_stack_ok_witness:
  "\<exists>m' fa'. setup_user_stack x86_ref map_ref (allocate_frame x86_ref) 0x30000000 1 (Map.empty, small_allocator)
     = Ok (0x30001000, m', fa')"
proof -
  have "page_down 0x30000000 = 0x30000000" by (simp add: page_down_def)
  moreover have "unat (0x30000000 :: u64) + 4096 * unat (1 :: u64) < 2 ^ 47" by simp
  moreover have "4 * unat (1 :: u64) \<le> length (boot_avail x86_ref small_allocator)"
    by (simp add: small_allocator_ok(3))
  moreover have "\<forall>i < unat (1 :: u64). unmapped boot_map Map.empty (0x30000000 + of_nat i * 4096)"
    by (simp add: map_ref_def)
  ultimately show ?thesis
    using setup_user_stack_ok[OF x86_ref_ok map_ref_laws small_allocator_ok(1,2), of "0x30000000" 1 Map.empty] by auto
qed

definition big_map :: "memory_region list" where
  "big_map = [\<lparr>r_start = 0x100000, r_end = 0x200000, r_kind = Usable\<rparr>]"

lemma big_map_size: "length (usable_addrs big_map) = 256"
proof -
  have "usable_addrs big_map = region_addrs \<lparr>r_start = 0x100000, r_end = 0x200000, r_kind = Usable\<rparr>"
    by (simp add: usable_addrs_def big_map_def)
  moreover have "length (region_addrs r) = region_steps r" for r by (simp add: region_addrs_def)
  ultimately show ?thesis by (simp add: region_steps_def)
qed

theorem init_heap_maps_heap_witness:
  "\<exists>m' fa'. init_heap x86_ref map_ref (allocate_frame x86_ref) (\<lambda>start size _. Some (start, size))
       (Map.empty, frame_allocator_init big_map, None)
     = Ok (Inr (m', fa', Some (HEAP_START, HEAP_SIZE)))"
proof -
  have ok: "regions_ok big_map" by (simp add: regions_ok_def big_map_def region_aligned_def)
  have good: "boot_good x86_ref (frame_allocator_init big_map)"
    by (rule boot_start(1)[OF x86_ref_ok ok])
  have room: "100 \<le> length (boot_avail x86_ref (frame_allocator_init big_map))"
    by (simp add: boot_start(2)[OF x86_ref_ok ok] big_map_size)
  have regs: "regions_ok (memory_regions (frame_allocator_init big_map))"
    using ok by (simp add: frame_allocator_init_def)
  have free: "\<forall>p \<in> set (pages_between 0x444444440000 0x444444458000). unmapped boot_map Map.empty p"
    by (simp add: map_ref_def)
  show ?thesis
    using init_heap_maps_heap[OF x86_ref_ok map_ref_laws good regs free, THEN conjunct1, THEN mp, OF room,
        of "\<lambda>start size _. Some (start, size)" None] by (elim exE conjE) (intro exI, assumption)
qed
end
