(* ===== verification/Interrupts.thy ===== *)
theory Interrupts
  imports Syscalls
begin

text \<open>
  \<^verbatim>\<open>interrupts.rs\<close>: the vectors and the IDT, the scheduler \<^verbatim>\<open>schedule_next\<close> over the list of processes,
  and the handlers the naked wrappers call. A handler gets the stack pointer of the interrupted context
  and returns the one to resume. \<open>None\<close> is a handler that does not return, because the executor it runs
  does not; a panic is an outcome.
\<close>

section \<open>Vectors\<close>

definition PIC_1_OFFSET :: u8 where "PIC_1_OFFSET = 32"
definition PIC_2_OFFSET :: u8 where "PIC_2_OFFSET = PIC_1_OFFSET + 8"

datatype interrupt_index = Timer | Keyboard | Serial

primrec as_u8 :: "interrupt_index \<Rightarrow> u8" where
  "as_u8 Timer = PIC_1_OFFSET"
| "as_u8 Keyboard = PIC_1_OFFSET + 1"
| "as_u8 Serial = PIC_1_OFFSET + 4"

definition as_usize :: "interrupt_index \<Rightarrow> usize" where
  "as_usize i = ucast (as_u8 i)"

datatype idt_handler = Breakpoint_Handler | Double_Fault_Handler | Gpf_Handler_Wrapper
  | Page_Fault_Handler_Wrapper | Timer_Handler | Keyboard_Handler | Serial_Handler

record idt_entry =
  ie_handler :: idt_handler
  ie_ist :: "u16 option"

definition DOUBLE_FAULT_IST_INDEX :: u16 where
  "DOUBLE_FAULT_IST_INDEX = 0"

definition set_handler :: "usize \<Rightarrow> idt_handler \<Rightarrow> (usize \<rightharpoonup> idt_entry) \<Rightarrow> (usize \<rightharpoonup> idt_entry)" where
  "set_handler v h idt = idt(v \<mapsto> \<lparr>ie_handler = h, ie_ist = None\<rparr>)"

definition set_stack_index :: "usize \<Rightarrow> u16 \<Rightarrow> (usize \<rightharpoonup> idt_entry) \<Rightarrow> (usize \<rightharpoonup> idt_entry)" where
  "set_stack_index v i idt = idt(v := map_option (\<lambda>e. e\<lparr>ie_ist := Some i\<rparr>) (idt v))"

text \<open>The exceptions' fields of the table are vectors 3, 8, 13 and 14 of the architecture.\<close>

definition IDT :: "usize \<rightharpoonup> idt_entry" where
  "IDT = (let idt = Map.empty;
              idt = set_handler 3 Breakpoint_Handler idt;
              idt = set_stack_index 8 DOUBLE_FAULT_IST_INDEX (set_handler 8 Double_Fault_Handler idt);
              idt = set_handler 13 Gpf_Handler_Wrapper idt;
              idt = set_handler 14 Page_Fault_Handler_Wrapper idt;
              idt = set_handler (as_usize Timer) Timer_Handler idt;
              idt = set_handler (as_usize Keyboard) Keyboard_Handler idt;
              idt = set_handler (as_usize Serial) Serial_Handler idt
          in idt)"

section \<open>State\<close>

text \<open>
  The list of processes with its lock, the executor's lock, the scheduler's counters, the TSS and the
  vectors acknowledged to the interrupt controllers. The controllers' own lock is taken and released
  within an acknowledgement.
\<close>

record ('f, 'q) machine = "('f, 'q) kernel_globals" +
  task_list :: "task_ref list"
  tl_locked :: bool
  ex_locked :: bool
  cur_idx :: u64
  tick_count :: u64
  ktss :: tss
  eois :: "u8 list"

lemma upd_task_machine [simp]:
  fixes g :: "('f, 'q, 'x) machine_scheme"
  shows "task_list (upd_task r f g) = task_list g" "tl_locked (upd_task r f g) = tl_locked g"
    "ex_locked (upd_task r f g) = ex_locked g" "cur_idx (upd_task r f g) = cur_idx g"
    "tick_count (upd_task r f g) = tick_count g" "ktss (upd_task r f g) = ktss g"
    "eois (upd_task r f g) = eois g" "machine.more (upd_task r f g) = machine.more g"
  by (simp_all add: upd_task_def)

lemma print_machine [simp]:
  fixes g :: "('f, 'q, 'x) machine_scheme"
  shows "task_list (print s g) = task_list g" "tl_locked (print s g) = tl_locked g"
    "ex_locked (print s g) = ex_locked g" "cur_idx (print s g) = cur_idx g"
    "tick_count (print s g) = tick_count g" "ktss (print s g) = ktss g"
    "eois (print s g) = eois g" "machine.more (print s g) = machine.more g"
  by (simp_all add: print_def)

definition notify_end_of_interrupt :: "interrupt_index \<Rightarrow> ('f, 'q, 'x) machine_scheme \<Rightarrow>
    ('f, 'q, 'x) machine_scheme" where
  "notify_end_of_interrupt i m = m\<lparr>eois := eois m @ [as_u8 i]\<rparr>"

section \<open>The scheduler\<close>

type_synonym ('f, 'q, 'x) machine_poll =
  "'f \<Rightarrow> waker \<Rightarrow> ('f, 'q, 'x) machine_scheme \<Rightarrow> bool \<times> 'f \<times> ('f, 'q, 'x) machine_scheme"

text \<open>\<^verbatim>\<open>poll_kernel_tasks\<close>: the executor is locked while it runs; if it is locked already, nothing happens.\<close>

definition poll_kernel_tasks :: "(u64, 'q) array_queue \<Rightarrow> ('f, 'q, 'x) machine_poll \<Rightarrow>
    ('f, 'q, 'x) machine_scheme \<Rightarrow> ('f, 'q, 'x) machine_scheme option" where
  "poll_kernel_tasks Q P m =
     (if ex_locked m then Some m
      else map_option (\<lambda>m. m\<lparr>ex_locked := False\<rparr>) (run_ready_tasks Q P (m\<lparr>ex_locked := True\<rparr>)))"

text \<open>\<^verbatim>\<open>for _ in 0..n\<close> over the ring of \<open>n\<close> slots, stopping at the first that satisfies \<open>ready\<close>.\<close>

fun ring_search :: "(nat \<Rightarrow> bool) \<Rightarrow> nat \<Rightarrow> nat \<Rightarrow> nat \<Rightarrow> nat" where
  "ring_search ready n 0 i = i"
| "ring_search ready n (Suc k) i = (if ready i then i else ring_search ready n k (ring_next n i))"

definition listed :: "('f, 'q, 'x) machine_scheme \<Rightarrow> nat \<Rightarrow> 'f task" where
  "listed m i = heap m (task_list m ! i)"

definition next_index :: "('f, 'q, 'x) machine_scheme \<Rightarrow> nat \<Rightarrow> nat" where
  "next_index m old_idx =
     (let n = length (task_list m)
      in ring_search (\<lambda>i. t_state (listed m i) = Ready) n n (ring_next n old_idx))"

definition slice_over :: "('f, 'q, 'x) machine_scheme \<Rightarrow> 'f task \<Rightarrow> bool \<Rightarrow> bool" where
  "slice_over m old_task force_switch \<longleftrightarrow>
     tick_count m mod (max (t_priority old_task) 1) = 0 \<or> t_state old_task = Terminated \<or> force_switch"

definition switch_to :: "x86_api \<Rightarrow> nat \<Rightarrow> nat \<Rightarrow> u64 \<Rightarrow> ('f, 'q, 'x) machine_scheme \<Rightarrow>
    (u64 \<times> ('f, 'q, 'x) machine_scheme) outcome" where
  "switch_to A old_idx next_idx current_rsp m =
     (let next_task = listed m next_idx;
          m = m\<lparr>cur_idx := of_nat next_idx, cur_id := t_id next_task\<rparr>;
          m = upd_task (task_list m ! old_idx) (\<lambda>t. t\<lparr>t_kernel_rsp := current_rsp\<rparr>) m
      in bindo (expect ''VirtAddr::new'' (va_new A (t_kernel_stack_top next_task))) (\<lambda>top.
           (let m = m\<lparr>ktss := set_interrupt_stack top (ktss m)\<rparr>
            in Ok (t_kernel_rsp (listed m next_idx), m))))"

definition schedule_next :: "x86_api \<Rightarrow> u64 \<Rightarrow> bool \<Rightarrow> ('f, 'q, 'x) machine_scheme \<Rightarrow>
    (u64 \<times> ('f, 'q, 'x) machine_scheme) outcome" where
  "schedule_next A current_rsp force_switch m =
     (if tl_locked m \<or> length (task_list m) < 1 then Ok (current_rsp, m)
      else
        let old_idx = unat (cur_idx m)
        in if length (task_list m) \<le> old_idx then Panic ''index out of bounds''
           else
             let old_task = listed m old_idx
             in if slice_over m old_task force_switch
                then
                  let next_idx = next_index m old_idx
                  in if next_idx \<noteq> old_idx \<or> t_state old_task = Terminated
                     then switch_to A old_idx next_idx current_rsp m
                     else Ok (current_rsp, m)
                else Ok (current_rsp, m))"

section \<open>The handlers\<close>

definition timer_handler_inner :: "x86_api \<Rightarrow> (u64, 'q) array_queue \<Rightarrow> ('f, 'q, 'x) machine_poll \<Rightarrow> u64 \<Rightarrow>
    ('f, 'q, 'x) machine_scheme \<Rightarrow> (u64 \<times> ('f, 'q, 'x) machine_scheme) outcome option" where
  "timer_handler_inner A Q P current_rsp m =
     map_option (\<lambda>m. schedule_next A current_rsp False (m\<lparr>tick_count := tick_count m + 1\<rparr>))
       (poll_kernel_tasks Q P (notify_end_of_interrupt Timer m))"

definition kill_current :: "(u64 \<Rightarrow> string) \<Rightarrow> ('f, 'q, 'x) machine_scheme \<Rightarrow>
    ('f, 'q, 'x) machine_scheme outcome" where
  "kill_current report m =
     (if tl_locked m then Ok m
      else
        let idx = unat (cur_idx m)
        in if length (task_list m) \<le> idx then Panic ''index out of bounds''
           else Ok (upd_task (task_list m ! idx) (\<lambda>t. t\<lparr>t_state := Terminated\<rparr>)
                     (println (report (t_id (listed m idx))) m)))"

definition gpf_report :: "u64 \<Rightarrow> string" where
  "gpf_report pid = CHR 0x0A # esc ''[31;1m[SECURITY] GPF! PID '' @ show_u64 pid
     @ '' killed for illegal instruction.'' @ esc ''[0m''"

definition page_fault_report :: "string \<Rightarrow> u64 \<Rightarrow> string" where
  "page_fault_report cr2 pid = CHR 0x0A # esc ''[31;1m[SECURITY] PAGE FAULT! PID '' @ show_u64 pid
     @ '' accessed '' @ cr2 @ esc ''[0m''"

definition gpf_handler_inner :: "x86_api \<Rightarrow> u64 \<Rightarrow> ('f, 'q, 'x) machine_scheme \<Rightarrow>
    (u64 \<times> ('f, 'q, 'x) machine_scheme) outcome" where
  "gpf_handler_inner A current_rsp m =
     bindo (kill_current gpf_report m) (schedule_next A current_rsp True)"

text \<open>\<open>cr2\<close> is the faulting address as the x86_64 crate prints it.\<close>

definition page_fault_handler_inner :: "x86_api \<Rightarrow> string \<Rightarrow> u64 \<Rightarrow> ('f, 'q, 'x) machine_scheme \<Rightarrow>
    (u64 \<times> ('f, 'q, 'x) machine_scheme) outcome" where
  "page_fault_handler_inner A cr2 current_rsp m =
     bindo (kill_current (page_fault_report cr2) m) (schedule_next A current_rsp True)"

text \<open>The keyboard and serial handlers post the byte they read from their port, labelled 2 or 3.\<close>

definition post_byte :: "u64 \<Rightarrow> u8 \<Rightarrow> ('f, 'q, 'x) machine_scheme \<Rightarrow> ('f, 'q, 'x) machine_scheme" where
  "post_byte label data m =
     (if init_mbox_locked m then m
      else m\<lparr>init_mbox := Some \<lparr>msg_from = 0, msg_to = 1, msg_label = label, msg_payload = (ucast data, 0)\<rparr>\<rparr>)"

definition keyboard_handler_inner :: "(u64, 'q) array_queue \<Rightarrow> ('f, 'q, 'x) machine_poll \<Rightarrow> u8 \<Rightarrow> u64 \<Rightarrow>
    ('f, 'q, 'x) machine_scheme \<Rightarrow> (u64 \<times> ('f, 'q, 'x) machine_scheme) option" where
  "keyboard_handler_inner Q P data rsp m =
     map_option (\<lambda>m. (rsp, m))
       (poll_kernel_tasks Q P (notify_end_of_interrupt Keyboard (post_byte 2 data m)))"

definition serial_handler_inner :: "(u64, 'q) array_queue \<Rightarrow> ('f, 'q, 'x) machine_poll \<Rightarrow> u8 \<Rightarrow> u64 \<Rightarrow>
    ('f, 'q, 'x) machine_scheme \<Rightarrow> (u64 \<times> ('f, 'q, 'x) machine_scheme) option" where
  "serial_handler_inner Q P data rsp m =
     map_option (\<lambda>m. (rsp, m))
       (poll_kernel_tasks Q P (notify_end_of_interrupt Serial (post_byte 3 data m)))"

text \<open>\<open>ip\<close> and \<open>sf\<close> are the debug output of the interrupt frame's address and of the frame.\<close>

definition breakpoint_handler :: "string \<Rightarrow> ('f, 'q, 'x) machine_scheme \<Rightarrow> ('f, 'q, 'x) machine_scheme" where
  "breakpoint_handler ip m = println (''[EXCEPTION] BREAKPOINT hit at '' @ ip @ [CHR 0x0A]) m"

definition double_fault_handler :: "string \<Rightarrow> ('f, 'q, 'x) machine_scheme \<Rightarrow>
    ('f, 'q, 'x) machine_scheme outcome" where
  "double_fault_handler sf m =
     Panic (''[FATAL] DOUBLE FAULT - Potential Stack Mash or TSS Corruption'' @ CHR 0x0A # sf)"

section \<open>The circular search\<close>

lemma ring_search_finds:
  assumes "ready ((ring_next n ^^ d) i)" "\<And>e. e < d \<Longrightarrow> \<not> ready ((ring_next n ^^ e) i)" "d < k"
  shows "ring_search ready n k i = (ring_next n ^^ d) i"
  using assms
proof (induction d arbitrary: i k)
  case 0
  then show ?case by (cases k) simp_all
next
  case (Suc d)
  obtain k' where k: "k = Suc k'" using Suc.prems(3) by (cases k) auto
  have "\<not> ready i" using Suc.prems(2)[of 0] by simp
  moreover have "ring_search ready n k' (ring_next n i) = (ring_next n ^^ d) (ring_next n i)"
    using Suc.prems(1) Suc.prems(2)[of "Suc e" for e] Suc.prems(3) k
    by (intro Suc.IH) (simp_all add: funpow_swap1)
  ultimately show ?case by (simp add: k funpow_swap1)
qed

lemma ring_search_none:
  "(\<And>e. e < k \<Longrightarrow> \<not> ready ((ring_next n ^^ e) i)) \<Longrightarrow> ring_search ready n k i = (ring_next n ^^ k) i"
proof (induction k arbitrary: i)
  case (Suc k)
  have "\<not> ready i" using Suc.prems[of 0] by simp
  moreover have "ring_search ready n k (ring_next n i) = (ring_next n ^^ k) (ring_next n i)"
    using Suc.prems[of "Suc e" for e] by (intro Suc.IH) (simp add: funpow_swap1)
  ultimately show ?case by (simp add: funpow_swap1)
qed simp

text \<open>
  From slot \<open>i\<close> the search finds the nearest ready slot after it, \<open>i\<close> itself coming last; with none
  ready it gives the slot after \<open>i\<close>.
\<close>

lemma ring_search_nearest:
  assumes i: "i < n" and ex: "\<exists>j < n. ready j"
  shows "\<exists>d < n. ring_search ready n n (ring_next n i) = (i + 1 + d) mod n
     \<and> ready ((i + 1 + d) mod n) \<and> (\<forall>e < d. \<not> ready ((i + 1 + e) mod n))"
proof -
  have pow: "(ring_next n ^^ e) (ring_next n i) = (i + 1 + e) mod n" for e
    using ring_next_pow_less[OF i, of "Suc e"] by (simp add: funpow_swap1)
  obtain j where j: "j < n" "ready j" using ex by blast
  define d where "d = (LEAST d. ready ((i + 1 + d) mod n))"
  obtain k where k: "k < n" "(i + 1 + k) mod n = j" using ring_cover[OF i j(1)] by blast
  have d: "ready ((i + 1 + d) mod n)" unfolding d_def by (rule LeastI[of _ k]) (simp only: k(2) j(2))
  have "d \<le> k" unfolding d_def by (rule Least_le) (simp only: k(2) j(2))
  then have dn: "d < n" using k(1) by simp
  have least: "\<forall>e < d. \<not> ready ((i + 1 + e) mod n)" unfolding d_def by (blast dest: not_less_Least)
  have "ring_search ready n n (ring_next n i) = (ring_next n ^^ d) (ring_next n i)"
  proof (rule ring_search_finds[OF _ _ dn])
    show "ready ((ring_next n ^^ d) (ring_next n i))" unfolding pow by (rule d)
    show "\<not> ready ((ring_next n ^^ e) (ring_next n i))" if "e < d" for e
      unfolding pow using least that by blast
  qed
  then have "ring_search ready n n (ring_next n i) = (i + 1 + d) mod n" unfolding pow .
  then show ?thesis using dn d least by blast
qed

lemma ring_search_all_busy:
  assumes i: "i < n" and none: "\<forall>j < n. \<not> ready j"
  shows "ring_search ready n n (ring_next n i) = (i + 1) mod n"
proof -
  have n: "0 < n" "ring_next n i < n" using i by simp_all
  have "ring_search ready n n (ring_next n i) = (ring_next n ^^ n) (ring_next n i)"
    using none n by (intro ring_search_none) (simp add: ring_next_pow_less)
  also have "\<dots> = ring_next n i" using n by (simp add: ring_next_pow_less)
  finally show ?thesis by (simp add: ring_next_def)
qed

lemma ring_search_less: "i < n \<Longrightarrow> ring_search ready n k i < n"
  by (induction k arbitrary: i) simp_all

section \<open>The scheduler in good order\<close>

text \<open>
  The list is not locked, the current index is inside it, no task is listed twice, and the top of each
  task's kernel stack is a canonical address.
\<close>

definition sched_ok :: "x86_api \<Rightarrow> ('f, 'q, 'x) machine_scheme \<Rightarrow> bool" where
  "sched_ok A m \<longleftrightarrow> \<not> tl_locked m \<and> unat (cur_idx m) < length (task_list m)
     \<and> length (task_list m) < 2 ^ 64 \<and> distinct (task_list m)
     \<and> (\<forall>r \<in> set (task_list m). va_new A (t_kernel_stack_top (heap m r)) = Some (t_kernel_stack_top (heap m r)))"

definition after_switch :: "nat \<Rightarrow> nat \<Rightarrow> u64 \<Rightarrow> ('f, 'q, 'x) machine_scheme \<Rightarrow> ('f, 'q, 'x) machine_scheme" where
  "after_switch i j rsp m =
     (upd_task (task_list m ! i) (\<lambda>t. t\<lparr>t_kernel_rsp := rsp\<rparr>) m)
       \<lparr>cur_idx := of_nat j, cur_id := t_id (listed m j),
        ktss := (ktss m)\<lparr>rsp0 := t_kernel_stack_top (listed m j)\<rparr>\<rparr>"

lemma sched_okD:
  assumes "sched_ok A m"
  shows "\<not> tl_locked m" "unat (cur_idx m) < length (task_list m)" "length (task_list m) < 2 ^ 64"
    "distinct (task_list m)"
    "j < length (task_list m) \<Longrightarrow>
       va_new A (t_kernel_stack_top (listed m j)) = Some (t_kernel_stack_top (listed m j))"
  using assms by (simp_all add: sched_ok_def listed_def)

lemma next_index_less: "i < length (task_list m) \<Longrightarrow> next_index m i < length (task_list m)"
proof -
  assume "i < length (task_list m)"
  then have "0 < length (task_list m)" by linarith
  then show ?thesis by (simp add: next_index_def Let_def ring_search_less)
qed

lemma listed_upd:
  assumes "distinct (task_list m)" "i < length (task_list m)" "j < length (task_list m)"
  shows "listed (upd_task (task_list m ! i) f m) j = (if i = j then f (listed m j) else listed m j)"
  using assms by (simp add: listed_def nth_eq_iff_index_eq)

lemma switch_to_Ok:
  fixes m :: "('a, 'b, 'c) machine_scheme"
  assumes "sched_ok A m" "i < length (task_list m)" "j < length (task_list m)"
  shows "switch_to A i j rsp m
     = Ok (if i = j then rsp else t_kernel_rsp (listed m j), after_switch i j rsp m)"
proof -
  let ?m = "m\<lparr>cur_idx := of_nat j, cur_id := t_id (listed m j)\<rparr>"
  let ?m1 = "upd_task (task_list m ! i) (\<lambda>t. t\<lparr>t_kernel_rsp := rsp\<rparr>) ?m"
  have "listed ?m1 j = (if i = j then (listed ?m j)\<lparr>t_kernel_rsp := rsp\<rparr> else listed ?m j)"
    using listed_upd[of ?m i j] sched_okD(4)[OF assms(1)] assms(2,3) by simp
  then have rsp: "t_kernel_rsp (listed ?m1 j) = (if i = j then rsp else t_kernel_rsp (listed m j))"
    by (simp add: listed_def)
  have same: "listed (x\<lparr>ktss := s\<rparr>) j = listed x j" for x :: "('a, 'b, 'c) machine_scheme" and s
    by (simp add: listed_def)
  have "?m1\<lparr>ktss := (ktss ?m1)\<lparr>rsp0 := t_kernel_stack_top (listed m j)\<rparr>\<rparr> = after_switch i j rsp m"
    by (simp add: after_switch_def upd_task_def)
  then show ?thesis
    unfolding switch_to_def Let_def sched_okD(5)[OF assms(1,3)] expect_simps bindo.simps same
      set_interrupt_stack_def using rsp by simp
qed

text \<open>The three outcomes of a scheduling decision.\<close>

lemma schedule_next_switch:
  assumes "sched_ok A m" "i = unat (cur_idx m)" "j = next_index m i"
    and "slice_over m (listed m i) force" "j \<noteq> i \<or> t_state (listed m i) = Terminated"
  shows "schedule_next A rsp force m
     = Ok (if i = j then rsp else t_kernel_rsp (listed m j), after_switch i j rsp m)"
proof -
  have i: "i < length (task_list m)" using sched_okD(2)[OF assms(1)] assms(2) by simp
  have j: "j < length (task_list m)" using next_index_less[OF i] assms(3) by simp
  have "\<not> length (task_list m) \<le> i" "\<not> length (task_list m) < 1" using i by linarith+
  then show ?thesis
    using switch_to_Ok[OF assms(1) i j] sched_okD(1)[OF assms(1)] assms(2-5)
    by (simp add: schedule_next_def Let_def)
qed

lemma schedule_next_stay:
  assumes "sched_ok A m" "i = unat (cur_idx m)"
    and "\<not> slice_over m (listed m i) force \<or> next_index m i = i \<and> t_state (listed m i) \<noteq> Terminated"
  shows "schedule_next A rsp force m = Ok (rsp, m)"
  using sched_okD(1,2)[OF assms(1)] assms(2,3) by (auto simp: schedule_next_def Let_def)

lemma schedule_next_cases:
  assumes "sched_ok A m"
  shows "(\<exists>i j. i = unat (cur_idx m) \<and> j = next_index m i \<and> slice_over m (listed m i) force
            \<and> (j \<noteq> i \<or> t_state (listed m i) = Terminated)
            \<and> schedule_next A rsp force m
              = Ok (if i = j then rsp else t_kernel_rsp (listed m j), after_switch i j rsp m))
       \<or> schedule_next A rsp force m = Ok (rsp, m)"
  using schedule_next_switch[OF assms refl refl] schedule_next_stay[OF assms refl] by blast

lemma after_switch_simps [simp]:
  "task_list (after_switch i j rsp m) = task_list m" "tl_locked (after_switch i j rsp m) = tl_locked m"
  "ex_locked (after_switch i j rsp m) = ex_locked m" "tick_count (after_switch i j rsp m) = tick_count m"
  "cur_idx (after_switch i j rsp m) = of_nat j" "cur_id (after_switch i j rsp m) = t_id (listed m j)"
  "ktss (after_switch i j rsp m) = (ktss m)\<lparr>rsp0 := t_kernel_stack_top (listed m j)\<rparr>"
  "heap (after_switch i j rsp m) = (heap m)(task_list m ! i := (listed m i)\<lparr>t_kernel_rsp := rsp\<rparr>)"
  "registry (after_switch i j rsp m) = registry m" "ex_tasks (after_switch i j rsp m) = ex_tasks m"
  "ex_wakers (after_switch i j rsp m) = ex_wakers m" "ex_queue (after_switch i j rsp m) = ex_queue m"
  "init_mbox (after_switch i j rsp m) = init_mbox m"
  "init_mbox_locked (after_switch i j rsp m) = init_mbox_locked m" "kmem (after_switch i j rsp m) = kmem m"
  "next_id (after_switch i j rsp m) = next_id m" "next_ref (after_switch i j rsp m) = next_ref m"
  "services (after_switch i j rsp m) = services m"
  by (simp_all add: after_switch_def upd_task_def listed_def)

lemma after_switch_sched_ok:
  assumes "sched_ok A m" "i < length (task_list m)" "j < length (task_list m)"
  shows "sched_ok A (after_switch i j rsp m)"
  using assms by (auto simp: sched_ok_def listed_def)

lemma schedule_next_sched_ok:
  assumes "sched_ok A m"
  shows "\<exists>rsp' m'. schedule_next A rsp force m = Ok (rsp', m') \<and> sched_ok A m'"
proof -
  have "unat (cur_idx m) < length (task_list m)" by (rule sched_okD(2)[OF assms])
  then show ?thesis
    using schedule_next_cases[OF assms, of force rsp] after_switch_sched_ok[OF assms] next_index_less assms
    by blast
qed

section \<open>What the scheduler guarantees\<close>

text \<open>
  The scheduler is round robin over the ready processes: when the time slice is over, or the
  current process terminated, or a switch is forced, and some process is ready, the nearest ready one
  after the current index is chosen. If that is another one, the interrupted stack pointer is saved in
  the old task, the new task's saved stack pointer is returned, its kernel stack goes into the TSS and
  its index and identifier become current; if it is the same, everything stays. No other task changes.
\<close>

lemma schedule_picks_nearest_ready:
  assumes "sched_ok A m" and "slice_over m (listed m (unat (cur_idx m))) force"
    and "\<exists>j < length (task_list m). t_state (listed m j) = Ready"
  shows "let i = unat (cur_idx m); n = length (task_list m) in
     \<exists>d < n. let j = (i + 1 + d) mod n in
       t_state (listed m j) = Ready \<and> (\<forall>e < d. t_state (listed m ((i + 1 + e) mod n)) \<noteq> Ready)
     \<and> (j = i \<longrightarrow> schedule_next A rsp force m = Ok (rsp, m))
     \<and> (j \<noteq> i \<longrightarrow> (\<exists>m'. schedule_next A rsp force m = Ok (t_kernel_rsp (listed m j), m')
          \<and> cur_idx m' = of_nat j \<and> cur_id m' = t_id (listed m j)
          \<and> rsp0 (ktss m') = t_kernel_stack_top (listed m j)
          \<and> heap m' = (heap m)(task_list m ! i := (listed m i)\<lparr>t_kernel_rsp := rsp\<rparr>)))"
proof -
  define i n where "i = unat (cur_idx m)" and "n = length (task_list m)"
  have i: "i < n" using sched_okD(2)[OF assms(1)] by (simp add: i_def n_def)
  obtain d where d: "d < n" "next_index m i = (i + 1 + d) mod n"
    "t_state (listed m ((i + 1 + d) mod n)) = Ready"
    "\<forall>e < d. t_state (listed m ((i + 1 + e) mod n)) \<noteq> Ready"
    using ring_search_nearest[OF i, of "\<lambda>j. t_state (listed m j) = Ready"] assms(3)
    unfolding next_index_def Let_def n_def by blast
  let ?j = "(i + 1 + d) mod n"
  have "schedule_next A rsp force m = Ok (rsp, m)" if "?j = i"
    using schedule_next_stay[OF assms(1) i_def, of force rsp] d(2,3) that by simp
  moreover have "\<exists>m'. schedule_next A rsp force m = Ok (t_kernel_rsp (listed m ?j), m')
          \<and> cur_idx m' = of_nat ?j \<and> cur_id m' = t_id (listed m ?j)
          \<and> rsp0 (ktss m') = t_kernel_stack_top (listed m ?j)
          \<and> heap m' = (heap m)(task_list m ! i := (listed m i)\<lparr>t_kernel_rsp := rsp\<rparr>)" if "?j \<noteq> i"
    using schedule_next_switch[OF assms(1) i_def d(2)[symmetric], of force rsp] assms(2) that
    by (simp add: i_def[symmetric])
  ultimately show ?thesis unfolding Let_def i_def[symmetric] n_def[symmetric] using d(1,3,4) by blast
qed

text \<open>
  The scheduler leaves a running process alone: with the list locked, with an empty list, and in the
  middle of a time slice of a process that is not terminated, a call that does not force a switch
  returns the pointer it got and changes nothing.
\<close>

lemma schedule_within_slice:
  "(tl_locked m \<longrightarrow> schedule_next A rsp force m = Ok (rsp, m))
   \<and> (task_list m = [] \<longrightarrow> schedule_next A rsp force m = Ok (rsp, m))
   \<and> (unat (cur_idx m) < length (task_list m)
        \<and> tick_count m mod max (t_priority (listed m (unat (cur_idx m)))) 1 \<noteq> 0
        \<and> t_state (listed m (unat (cur_idx m))) \<noteq> Terminated \<longrightarrow>
      schedule_next A rsp False m = Ok (rsp, m))"
  by (auto simp: schedule_next_def Let_def slice_over_def)

text \<open>
  With no process ready the search falls through: the scheduler switches to the slot after the
  current one although that process is not ready, and a lone terminated process is simply resumed.
\<close>

lemma schedule_without_ready:
  assumes "sched_ok A m" and "slice_over m (listed m (unat (cur_idx m))) force"
    and "\<forall>j < length (task_list m). t_state (listed m j) \<noteq> Ready"
  shows "let i = unat (cur_idx m); n = length (task_list m) in
     (2 \<le> n \<longrightarrow> (\<exists>m'. schedule_next A rsp force m = Ok (t_kernel_rsp (listed m ((i + 1) mod n)), m')
        \<and> cur_idx m' = of_nat ((i + 1) mod n) \<and> t_state (listed m' ((i + 1) mod n)) \<noteq> Ready))
     \<and> (n = 1 \<longrightarrow> (\<exists>m'. schedule_next A rsp force m = Ok (rsp, m') \<and> cur_idx m' = cur_idx m))"
proof -
  define i n where "i = unat (cur_idx m)" and "n = length (task_list m)"
  have i: "i < n" using sched_okD(2)[OF assms(1)] by (simp add: i_def n_def)
  have j: "next_index m i = (i + 1) mod n"
    using ring_search_all_busy[OF i, of "\<lambda>j. t_state (listed m j) = Ready"] assms(3)
    by (simp add: next_index_def Let_def n_def)
  have two: "\<exists>m'. schedule_next A rsp force m = Ok (t_kernel_rsp (listed m ((i + 1) mod n)), m')
        \<and> cur_idx m' = of_nat ((i + 1) mod n) \<and> t_state (listed m' ((i + 1) mod n)) \<noteq> Ready" if "2 \<le> n"
  proof -
    have ne: "(i + 1) mod n \<noteq> i" using i that by (cases "i + 1 = n") simp_all
    have "t_state (listed (after_switch i ((i + 1) mod n) rsp m) ((i + 1) mod n)) \<noteq> Ready"
    proof -
      have less: "(i + 1) mod n < n" using i by (intro mod_less_divisor) linarith
      have "t_state (listed (after_switch i ((i + 1) mod n) rsp m) k) = t_state (listed m k)" for k
        by (simp add: listed_def)
      then show ?thesis using assms(3) less by (simp only: n_def) blast
    qed
    then show ?thesis
      using schedule_next_switch[OF assms(1) i_def j[symmetric], of force rsp] assms(2) ne
      by (simp add: i_def[symmetric])
  qed
  have one: "\<exists>m'. schedule_next A rsp force m = Ok (rsp, m') \<and> cur_idx m' = cur_idx m" if "n = 1"
  proof -
    have "(i + 1) mod n = i" using i that by simp
    moreover have "of_nat i = cur_idx m" by (simp add: i_def)
    ultimately show ?thesis
      using schedule_next_cases[OF assms(1), of force rsp] j by (auto simp: i_def[symmetric])
  qed
  show ?thesis unfolding Let_def i_def[symmetric] n_def[symmetric] using one two by blast
qed

section \<open>Preemption and resumption\<close>

lemma schedule_next_saves:
  assumes "sched_ok A m" "schedule_next A p force m = Ok (q, m1)" "cur_idx m1 \<noteq> cur_idx m"
  shows "t_kernel_rsp (listed m1 (unat (cur_idx m))) = p" "task_list m1 = task_list m"
proof -
  have "m1 \<noteq> m" using assms(3) by auto
  then obtain i j where "i = unat (cur_idx m)" "m1 = after_switch i j p m"
    using schedule_next_cases[OF assms(1), of force p] assms(2) by auto
  then show "t_kernel_rsp (listed m1 (unat (cur_idx m))) = p" "task_list m1 = task_list m"
    by (simp_all add: listed_def)
qed

lemma schedule_next_loads:
  assumes "sched_ok A m" "schedule_next A p force m = Ok (q, m1)" "cur_idx m1 \<noteq> cur_idx m"
  shows "q = t_kernel_rsp (listed m (unat (cur_idx m1)))"
proof -
  have "m1 \<noteq> m" using assms(3) by auto
  then obtain i j where ij: "i = unat (cur_idx m)" "j = next_index m i" "m1 = after_switch i j p m"
    "q = (if i = j then p else t_kernel_rsp (listed m j))"
    using schedule_next_cases[OF assms(1), of force p] assms(2) by auto
  have "j < length (task_list m)" using next_index_less[of i m] sched_okD(2)[OF assms(1)] ij(1,2) by simp
  then have "j < 2 ^ 64" using sched_okD(3)[OF assms(1)] by linarith
  then have "unat (cur_idx m1) = j" using ij(3) by simp
  moreover have "i \<noteq> j" using assms(3) ij(1,3) by auto
  ultimately show ?thesis using ij(4) by simp
qed

text \<open>
  A preempted process resumes where it was: an interrupt saves its context and the scheduler
  switches to another process; whatever happens in between, if the process's saved stack pointer and
  the twenty words it points to are left alone, then the interrupt whose scheduling decision selects
  the process again leaves the wrapper with the context of the first interrupt: all registers, RIP, CS,
  RFLAGS, RSP and SS.
\<close>

lemma preempted_process_resumes:
  assumes "sched_ok A m" and "wrapper_frame (hw_interrupt kcs stk hnd None c) = (mem, p)"
    and "schedule_next A p force m = Ok (q, m1)" and "cur_idx m1 \<noteq> cur_idx m"
    and "sched_ok A m2" and "task_list m2 = task_list m"
    and "t_kernel_rsp (listed m2 (unat (cur_idx m))) = t_kernel_rsp (listed m1 (unat (cur_idx m)))"
    and "schedule_next A p' force' m2 = Ok (q', m3)" and "cur_idx m3 = cur_idx m" and "cur_idx m2 \<noteq> cur_idx m"
    and "frame (cmem (exec (handler_wrapper (rust_call (\<lambda>_ _ _. q') junk scratch 20))
                  (hw_interrupt kcs' stk' hnd' err c'))) p 20 = frame mem p 20"
  shows "q' = p
     \<and> saved_ctx (exec (handler_wrapper (rust_call (\<lambda>_ _ _. q') junk scratch 20))
         (hw_interrupt kcs' stk' hnd' err c')) = saved_ctx c"
proof -
  let ?i = "hw_interrupt kcs' stk' hnd' err c'" and ?h = "rust_call (\<lambda>_ _ _. q') junk scratch 20"
  have "t_kernel_rsp (listed m1 (unat (cur_idx m))) = p"
    by (rule schedule_next_saves(1)[OF assms(1,3,4)])
  moreover have "q' = t_kernel_rsp (listed m2 (unat (cur_idx m3)))"
    using assms(9,10) by (intro schedule_next_loads[OF assms(5,8)]) simp
  ultimately have q: "q' = p" using assms(7,9) by simp
  obtain c1 where "cmem (exec (handler_wrapper ?h) ?i) = cmem (?h c1)"
    "saved_ctx (exec (handler_wrapper ?h) ?i) = frame (cmem (?h c1)) (regs (?h c1) RAX) 20"
    using rust.wrapper_exit[where f = "\<lambda>_ _ _. q'" and junk = junk and scratch = scratch and c = ?i] by auto
  then have "saved_ctx (exec (handler_wrapper ?h) ?i) = frame mem p 20"
    using assms(11) q by (simp add: rust_call_result)
  then show ?thesis using q interrupted_frame[OF assms(2)] by simp
qed

section \<open>No process starves\<close>

text \<open>The scheduling part of a timer tick, and a run of ticks.\<close>

definition tick :: "x86_api \<Rightarrow> u64 \<Rightarrow> ('f, 'q, 'x) machine_scheme \<Rightarrow> ('f, 'q, 'x) machine_scheme outcome" where
  "tick A rsp m = bindo (schedule_next A rsp False (m\<lparr>tick_count := tick_count m + 1\<rparr>)) (\<lambda>(_, m). Ok m)"

primrec run_ticks :: "x86_api \<Rightarrow> u64 list \<Rightarrow> ('f, 'q, 'x) machine_scheme \<Rightarrow> ('f, 'q, 'x) machine_scheme outcome" where
  "run_ticks A [] m = Ok m"
| "run_ticks A (rsp # rsps) m = bindo (tick A rsp m) (run_ticks A rsps)"

definition visits :: "x86_api \<Rightarrow> u64 list \<Rightarrow> ('f, 'q, 'x) machine_scheme \<Rightarrow> nat \<Rightarrow> bool" where
  "visits A rsps m j \<longleftrightarrow> (\<exists>k \<le> length rsps. \<exists>m'. run_ticks A (take k rsps) m = Ok m' \<and> unat (cur_idx m') = j)"

text \<open>Facts about the processes that ticks do not change.\<close>

definition all_slices :: "nat \<Rightarrow> ('f, 'q, 'x) machine_scheme \<Rightarrow> bool" where
  "all_slices P m \<longleftrightarrow> (\<forall>i < length (task_list m). unat (max (t_priority (listed m i)) 1) \<le> P)"

definition still_ready :: "nat \<Rightarrow> ('f, 'q, 'x) machine_scheme \<Rightarrow> bool" where
  "still_ready j m \<longleftrightarrow> j < length (task_list m) \<and> t_state (listed m j) = Ready"

lemma sched_ok_tick [simp]: "sched_ok A (m\<lparr>tick_count := t\<rparr>) = sched_ok A m"
  by (simp add: sched_ok_def)

lemma listed_tick [simp]: "listed (m\<lparr>tick_count := t\<rparr>) = listed m"
  by (simp add: listed_def fun_eq_iff)

lemma next_index_tick [simp]: "next_index (m\<lparr>tick_count := t\<rparr>) = next_index m"
  by (simp add: next_index_def fun_eq_iff)

lemma after_switch_listed:
  "t_state (listed (after_switch i j rsp m) k) = t_state (listed m k)"
  "t_priority (listed (after_switch i j rsp m) k) = t_priority (listed m k)"
  by (simp_all add: listed_def)

definition ring_gap :: "nat \<Rightarrow> nat \<Rightarrow> nat \<Rightarrow> nat" where
  "ring_gap n i j = (j + n - i) mod n"

lemma mod_wrap: "n \<le> x \<Longrightarrow> x < n + n \<Longrightarrow> x mod n = x - (n :: nat)"
  by (simp add: le_mod_geq)

lemma ring_gap_add: "i < n \<Longrightarrow> j < n \<Longrightarrow> (i + ring_gap n i j) mod n = (j :: nat)"
  by (simp add: ring_gap_def mod_add_right_eq)

text \<open>
  One tick: the current process stays or the scheduler moves on, and it moves on no farther than to the
  ready process \<open>j\<close>; it does move when the tick ends the slice.
\<close>

lemma tick_step:
  assumes "sched_ok A m" "all_slices P m" "still_ready j m" "unat (cur_idx m) \<noteq> j"
  shows "\<exists>m'. tick A rsp m = Ok m' \<and> sched_ok A m' \<and> all_slices P m' \<and> still_ready j m'
     \<and> length (task_list m') = length (task_list m) \<and> tick_count m' = tick_count m + 1
     \<and> (if (tick_count m + 1) mod max (t_priority (listed m (unat (cur_idx m)))) 1 = 0
           \<or> t_state (listed m (unat (cur_idx m))) = Terminated
        then ring_gap (length (task_list m)) (unat (cur_idx m')) j
             < ring_gap (length (task_list m)) (unat (cur_idx m)) j
        else cur_idx m' = cur_idx m \<and> t_priority (listed m' (unat (cur_idx m))) = t_priority (listed m (unat (cur_idx m))))"
proof -
  define mt where "mt = m\<lparr>tick_count := tick_count m + 1\<rparr>"
  define n i where "n = length (task_list m)" and "i = unat (cur_idx m)"
  have ok: "sched_ok A mt" using assms(1) by (simp add: mt_def)
  have i: "i < n" and j: "j < n" and ij: "i \<noteq> j"
    using sched_okD(2)[OF assms(1)] assms(3,4) by (simp_all add: n_def i_def still_ready_def)
  show ?thesis
  proof (cases "slice_over mt (listed mt i) False")
    case True
    obtain d where d: "d < n" "next_index m i = (i + 1 + d) mod n"
      "\<forall>e < d. t_state (listed m ((i + 1 + e) mod n)) \<noteq> Ready"
      using ring_search_nearest[OF i, of "\<lambda>j. t_state (listed m j) = Ready"] assms(3)
      unfolding next_index_def Let_def n_def still_ready_def by blast
    define g where "g = ring_gap n i j"
    have gn: "g < n" using i by (simp add: g_def ring_gap_def)
    have gj: "(i + g) mod n = j" using ring_gap_add[OF i j] by (simp add: g_def)
    have g0: "0 < g" using gj i ij by (cases g) auto
    have "\<not> g - 1 < d"
    proof
      assume "g - 1 < d"
      then have "t_state (listed m ((i + 1 + (g - 1)) mod n)) \<noteq> Ready" using d(3) by blast
      then show False using g0 gj assms(3) by (simp add: still_ready_def)
    qed
    then have dg: "d + 1 \<le> g" using g0 by simp
    let ?k = "(i + 1 + d) mod n"
    have k: "?k < n" using i by (intro mod_less_divisor) linarith
    have gap: "ring_gap n ?k j < g"
    proof -
      have "ring_gap n ?k j = (g - (d + 1)) mod n"
      proof (cases "i + 1 + d < n")
        case True
        then have kk: "?k = i + 1 + d" by simp
        show ?thesis
        proof (cases "i + g < n")
          case True
          then have "j = i + g" using gj by simp
          then have "j + n - ?k = (g - (d + 1)) + n" using kk dg by simp
          then show ?thesis by (simp add: ring_gap_def)
        next
          case False
          then have "j = i + g - n" using gj gn i mod_wrap[of n "i + g"] by simp
          then have "j + n - ?k = g - (d + 1)" using kk dg False by simp
          then show ?thesis by (simp add: ring_gap_def)
        qed
      next
        case False
        then have kk: "?k = i + 1 + d - n" using i d(1) mod_wrap[of n "i + 1 + d"] by simp
        have "\<not> i + g < n" using False dg by simp
        then have "j = i + g - n" using gj gn i mod_wrap[of n "i + g"] by simp
        then have "j + n - ?k = (g - (d + 1)) + n" using kk dg False by simp
        then show ?thesis by (simp add: ring_gap_def)
      qed
      also have "\<dots> \<le> g - (d + 1)" by (rule mod_less_eq_dividend)
      finally show ?thesis using dg by simp
    qed
    have ki: "?k \<noteq> i"
    proof
      assume "?k = i"
      then show False using gap by (simp add: g_def)
    qed
    have ci: "i = unat (cur_idx mt)" by (simp add: mt_def i_def)
    have "schedule_next A rsp False mt = Ok (t_kernel_rsp (listed mt ?k), after_switch i ?k rsp mt)"
      using schedule_next_switch[OF ok ci _ True] d(2) ki by (simp add: mt_def)
    then have t: "tick A rsp m = Ok (after_switch i ?k rsp mt)" by (simp add: tick_def mt_def)
    have "k < 2 ^ 64" if "k < n" for k using that sched_okD(3)[OF assms(1)] n_def by linarith
    then have cur: "unat (cur_idx (after_switch i ?k rsp mt)) = ?k" using k by simp
    have "sched_ok A (after_switch i ?k rsp mt)"
      using after_switch_sched_ok[OF ok] i k by (simp add: mt_def n_def)
    moreover have "all_slices P (after_switch i ?k rsp mt)" "still_ready j (after_switch i ?k rsp mt)"
      using assms(2,3) by (simp_all add: all_slices_def still_ready_def after_switch_listed mt_def)
    ultimately show ?thesis
      using t cur gap True unfolding i_def[symmetric] n_def[symmetric]
      by (simp add: slice_over_def g_def mt_def n_def)
  next
    case False
    then have "schedule_next A rsp False mt = Ok (rsp, mt)"
      by (intro schedule_next_stay[OF ok, of i]) (simp_all add: mt_def i_def)
    then have "tick A rsp m = Ok mt" by (simp add: tick_def mt_def)
    then show ?thesis
      using ok assms(2,3) False unfolding i_def[symmetric] n_def[symmetric]
      by (simp add: all_slices_def still_ready_def mt_def slice_over_def i_def n_def)
  qed
qed

lemma slice_pos: "0 < unat (max x (1 :: u64))"
proof -
  have "1 \<le> max x 1" by simp
  then show ?thesis by (simp only: word_le_nat_alt) simp
qed

lemma visits_later:
  assumes "tick A rsp m = Ok m1" "visits A rsps m1 j"
  shows "visits A (rsp # rsps) m j"
proof -
  obtain k m' where "k \<le> length rsps" "run_ticks A (take k rsps) m1 = Ok m'" "unat (cur_idx m') = j"
    using assms(2) by (auto simp: visits_def)
  then show ?thesis using assms(1) unfolding visits_def by (intro exI[of _ "Suc k"]) simp
qed

text \<open>
  The measure of the proof: how many slots the ready process is away, then how many ticks the current
  slice can still last.
\<close>

lemma ticks_reach:
  "sched_ok A m \<Longrightarrow> all_slices P m \<Longrightarrow> still_ready j m \<Longrightarrow>
   unat (tick_count m) + length rsps < 2 ^ 64 \<Longrightarrow>
   (let p = unat (max (t_priority (listed m (unat (cur_idx m)))) 1);
        left = p - unat (tick_count m) mod p
    in (ring_gap (length (task_list m)) (unat (cur_idx m)) j - 1) * P + left \<le> length rsps) \<Longrightarrow>
   visits A rsps m j"
proof (induction rsps arbitrary: m)
  case Nil
  define p where "p = unat (max (t_priority (listed m (unat (cur_idx m)))) 1)"
  have "0 < p" unfolding p_def by (rule slice_pos)
  then have "0 < p - unat (tick_count m) mod p" by simp
  then show ?case using Nil.prems(5) by (simp add: Let_def p_def)
next
  case (Cons rsp rsps)
  define n i where "n = length (task_list m)" and "i = unat (cur_idx m)"
  define p where "p = unat (max (t_priority (listed m i)) 1)"
  have p: "0 < p" "p \<le> P"
    using Cons.prems(2) sched_okD(2)[OF Cons.prems(1)]
    by (simp_all add: p_def slice_pos all_slices_def i_def)
  show ?case
  proof (cases "i = j")
    case True
    then show ?thesis unfolding visits_def i_def by (intro exI[of _ 0]) simp
  next
    case False
    obtain m' where m': "tick A rsp m = Ok m'" "sched_ok A m'" "all_slices P m'" "still_ready j m'"
      "length (task_list m') = n" "tick_count m' = tick_count m + 1"
      "if (tick_count m + 1) mod max (t_priority (listed m i)) 1 = 0 \<or> t_state (listed m i) = Terminated
       then ring_gap n (unat (cur_idx m')) j < ring_gap n i j
       else cur_idx m' = cur_idx m \<and> t_priority (listed m' i) = t_priority (listed m i)"
      using tick_step[OF Cons.prems(1-3), of rsp] False unfolding i_def n_def by blast
    have t: "unat (tick_count m') = unat (tick_count m) + 1"
      using Cons.prems(4) unfolding m'(6) by (simp add: unat_word_ariths)
    have zero: "(tick_count m + 1) mod max (t_priority (listed m i)) 1 = 0 \<longleftrightarrow> (unat (tick_count m) + 1) mod p = 0"
      using t m'(6) by (simp add: p_def word_unat_eq_iff unat_mod)
    have bound: "(ring_gap n i j - 1) * P + (p - unat (tick_count m) mod p) \<le> length rsps + 1"
      using Cons.prems(5) by (simp add: Let_def p_def i_def n_def)
    have "visits A rsps m' j"
    proof (cases "(unat (tick_count m) + 1) mod p = 0 \<or> t_state (listed m i) = Terminated")
      case True
      then have gap: "ring_gap n (unat (cur_idx m')) j < ring_gap n i j" using m'(7) zero by simp
      show ?thesis
      proof (cases "unat (cur_idx m') = j")
        case True
        then show ?thesis unfolding visits_def by (intro exI[of _ 0]) simp
      next
        case False
        define p' where "p' = unat (max (t_priority (listed m' (unat (cur_idx m')))) 1)"
        have "p' \<le> P" using m'(3) sched_okD(2)[OF m'(2)] by (simp add: p'_def all_slices_def)
        then have p': "p' - unat (tick_count m') mod p' \<le> P" by simp
        have "0 < ring_gap n (unat (cur_idx m')) j"
        proof (rule ccontr)
          assume "\<not> 0 < ring_gap n (unat (cur_idx m')) j"
          moreover have "unat (cur_idx m') < n" "j < n"
            using sched_okD(2)[OF m'(2)] m'(4,5) by (simp_all add: still_ready_def)
          ultimately show False using ring_gap_add[of "unat (cur_idx m')" n j] False by simp
        qed
        then obtain h where h: "ring_gap n (unat (cur_idx m')) j = Suc h" by (cases "ring_gap n (unat (cur_idx m')) j") auto
        then have "Suc h \<le> ring_gap n i j - 1" using gap by simp
        then have "Suc h * P \<le> (ring_gap n i j - 1) * P" by (rule mult_le_mono1)
        moreover have "0 < p - unat (tick_count m) mod p" using p(1) by simp
        ultimately have "h * P + (p' - unat (tick_count m') mod p') \<le> length rsps" using bound p' by simp
        then show ?thesis
          using Cons.IH[OF m'(2-4)] Cons.prems(4) t h m'(5) by (simp add: Let_def p'_def)
      qed
    next
      case False
      then have same: "cur_idx m' = cur_idx m" "t_priority (listed m' i) = t_priority (listed m i)"
        using m'(7) zero by auto
      have "(unat (tick_count m) + 1) mod p = unat (tick_count m) mod p + 1"
        using False by (simp add: mod_Suc split: if_splits)
      then have "(ring_gap n i j - 1) * P + (p - unat (tick_count m') mod p) \<le> length rsps"
        using bound mod_less_divisor[OF p(1), of "unat (tick_count m)"] by (simp add: t)
      then show ?thesis
        using Cons.IH[OF m'(2-4)] Cons.prems(4) t same m'(5) by (simp add: Let_def p_def i_def)
    qed
    then show ?thesis by (rule visits_later[OF m'(1)])
  qed
qed

text \<open>
  C8. No process starves: with \<open>n\<close> listed processes whose time slices are at most \<open>P\<close> ticks, a ready
  process becomes the current one within \<open>n * P\<close> timer ticks, whatever stack pointers the interrupted
  contexts have, as long as the tick counter does not wrap meanwhile.
\<close>

theorem no_starvation:
  assumes "sched_ok A m" and "all_slices P m" and "still_ready j m"
    and "length (task_list m) * P \<le> length rsps" and "unat (tick_count m) + length rsps < 2 ^ 64"
  shows "visits A rsps m j"
proof -
  define n i where "n = length (task_list m)" and "i = unat (cur_idx m)"
  define p where "p = unat (max (t_priority (listed m i)) 1)"
  have i: "i < n" using sched_okD(2)[OF assms(1)] by (simp add: i_def n_def)
  then have "p \<le> P" using assms(2) by (simp add: p_def all_slices_def n_def)
  moreover have "ring_gap n i j < n" using i by (simp add: ring_gap_def)
  then have "Suc (ring_gap n i j - 1) \<le> n" using i by simp
  then have "Suc (ring_gap n i j - 1) * P \<le> n * P" by (rule mult_le_mono1)
  ultimately have "(ring_gap n i j - 1) * P + (p - unat (tick_count m) mod p) \<le> n * P" by simp
  then show ?thesis
    using ticks_reach[OF assms(1-3,5)] assms(4) by (simp add: Let_def p_def i_def n_def)
qed

section \<open>Faults\<close>

lemma kill_current_Ok:
  assumes "sched_ok A m"
  shows "\<exists>m'. kill_current report m = Ok m' \<and> sched_ok A m'
     \<and> heap m' = (heap m)(task_list m ! unat (cur_idx m) := (listed m (unat (cur_idx m)))\<lparr>t_state := Terminated\<rparr>)
     \<and> task_list m' = task_list m \<and> cur_idx m' = cur_idx m
     \<and> console m' = console m @ report (t_id (listed m (unat (cur_idx m)))) @ [CHR 0x0A]"
proof -
  have "\<not> length (task_list m) \<le> unat (cur_idx m)" using sched_okD(2)[OF assms] by simp
  then show ?thesis
    using assms by (auto simp: kill_current_def Let_def sched_ok_def println_def listed_def)
qed

text \<open>
  A faulting process is isolated: when the current process raises a general protection fault or a
  page fault and another process is ready, the handler marks the current one terminated, reports its
  identifier, and returns the saved stack pointer of a ready process that is now current; no other
  process changes its state, so the terminated one is not selected while one is ready.
\<close>

lemma faulting_process_is_killed:
  assumes "sched_ok A m" and "j < length (task_list m)" and "j \<noteq> unat (cur_idx m)"
    and "t_state (listed m j) = Ready"
    and "result = gpf_handler_inner A rsp m \<or> result = page_fault_handler_inner A cr2 rsp m"
  shows "\<exists>q m'. result = Ok (q, m') \<and> sched_ok A m'
     \<and> t_state (listed m' (unat (cur_idx m))) = Terminated
     \<and> t_state (listed m' (unat (cur_idx m'))) = Ready
     \<and> q = t_kernel_rsp (listed m (unat (cur_idx m')))
     \<and> (\<forall>k < length (task_list m). k \<noteq> unat (cur_idx m) \<longrightarrow> listed m' k = listed m k)"
proof -
  define i n where "i = unat (cur_idx m)" and "n = length (task_list m)"
  have i: "i < n" using sched_okD(2)[OF assms(1)] by (simp add: i_def n_def)
  obtain report where "result = bindo (kill_current report m) (schedule_next A rsp True)"
    using assms(5) by (auto simp: gpf_handler_inner_def page_fault_handler_inner_def)
  moreover obtain m1 where m1: "kill_current report m = Ok m1" "sched_ok A m1"
    "heap m1 = (heap m)(task_list m ! i := (listed m i)\<lparr>t_state := Terminated\<rparr>)"
    "task_list m1 = task_list m" "cur_idx m1 = cur_idx m"
    using kill_current_Ok[OF assms(1)] unfolding i_def by metis
  ultimately have res: "result = schedule_next A rsp True m1" by simp
  have distinct: "distinct (task_list m)" by (rule sched_okD(4)[OF assms(1)])
  have l1: "listed m1 k = (if k = i then (listed m i)\<lparr>t_state := Terminated\<rparr> else listed m k)" if "k < n" for k
    using that i distinct m1(3,4) by (simp add: listed_def n_def nth_eq_iff_index_eq)
  obtain d where d: "d < n" "next_index m1 i = (i + 1 + d) mod n" "t_state (listed m1 ((i + 1 + d) mod n)) = Ready"
    using ring_search_nearest[OF i, of "\<lambda>j. t_state (listed m1 j) = Ready"] assms(2-4) l1[of j] m1(4)
    unfolding next_index_def Let_def n_def i_def by (metis (no_types, lifting))
  define k where "k = (i + 1 + d) mod n"
  have k: "k < n" unfolding k_def using i by (intro mod_less_divisor) linarith
  have ki: "k \<noteq> i" using d(3) l1[OF i] by (auto simp: k_def)
  have over: "slice_over m1 (listed m1 i) True" by (simp add: slice_over_def)
  have sw: "schedule_next A rsp True m1 = Ok (t_kernel_rsp (listed m1 k), after_switch i k rsp m1)"
    using schedule_next_switch[OF m1(2) _ _ over, of k rsp] d(2) ki m1(5) by (simp add: i_def k_def)
  have "k < 2 ^ 64" using k sched_okD(3)[OF assms(1)] n_def by linarith
  then have cur: "unat (cur_idx (after_switch i k rsp m1)) = k" by simp
  have l2: "listed (after_switch i k rsp m1) x
      = (if x = i then (listed m1 i)\<lparr>t_kernel_rsp := rsp\<rparr> else listed m1 x)" if "x < n" for x
    using that i distinct m1(4) by (simp add: listed_def n_def nth_eq_iff_index_eq)
  have "sched_ok A (after_switch i k rsp m1)"
    using after_switch_sched_ok[OF m1(2)] i k m1(4) by (simp add: n_def)
  moreover have "t_state (listed (after_switch i k rsp m1) i) = Terminated" using l2[OF i] l1[OF i] by simp
  moreover have "t_state (listed (after_switch i k rsp m1) k) = Ready" using l2[OF k] ki d(3) by (simp add: k_def)
  moreover have "t_kernel_rsp (listed m1 k) = t_kernel_rsp (listed m k)" using l1[OF k] ki by simp
  moreover have "\<forall>x < n. x \<noteq> i \<longrightarrow> listed (after_switch i k rsp m1) x = listed m x"
    using l1 l2 by simp
  ultimately show ?thesis
    using res sw cur unfolding i_def[symmetric] n_def[symmetric] by auto
qed

section \<open>Devices\<close>

lemma poll_unlocked:
  "\<not> ex_locked m \<Longrightarrow> poll_kernel_tasks Q P m = Some m' \<Longrightarrow> cur_id m' = 0 \<and> \<not> ex_locked m'"
  by (auto simp: poll_kernel_tasks_def run_ready_tasks_def)

text \<open>
  The part of the state that belongs to the scheduler and the mailbox, and futures that leave it alone.
\<close>

definition task_view :: "'f task \<Rightarrow> u64 \<times> u64 \<times> u64 \<times> u64" where
  "task_view t = (t_id t, t_kernel_rsp t, t_kernel_stack_top t, t_priority t)"

definition same_private :: "('f, 'q, 'x) machine_scheme \<Rightarrow> ('f, 'q, 'x) machine_scheme \<Rightarrow> bool" where
  "same_private g g' \<longleftrightarrow> init_mbox g' = init_mbox g \<and> init_mbox_locked g' = init_mbox_locked g \<and> kmem g' = kmem g
     \<and> services g' = services g \<and> task_list g' = task_list g \<and> cur_idx g' = cur_idx g
     \<and> tl_locked g' = tl_locked g \<and> tick_count g' = tick_count g \<and> ktss g' = ktss g
     \<and> (\<lambda>r. task_view (heap g' r)) = (\<lambda>r. task_view (heap g r))"

definition poll_private :: "('f, 'q, 'x) machine_poll \<Rightarrow> bool" where
  "poll_private P \<longleftrightarrow> (\<forall>f w g. same_private g (snd (snd (P f w g))))"

lemma same_private_refl: "same_private g g"
  by (simp add: same_private_def)

lemma same_private_trans: "same_private g h \<Longrightarrow> same_private h k \<Longrightarrow> same_private g k"
  unfolding same_private_def by simp

lemma same_private_task:
  assumes "same_private g h"
  shows "t_id (heap h r) = t_id (heap g r)" "t_kernel_rsp (heap h r) = t_kernel_rsp (heap g r)"
    "t_kernel_stack_top (heap h r) = t_kernel_stack_top (heap g r)" "t_priority (heap h r) = t_priority (heap g r)"
proof -
  have "task_view (heap h r) = task_view (heap g r)"
    using assms unfolding same_private_def by (blast dest: fun_cong)
  then show "t_id (heap h r) = t_id (heap g r)" "t_kernel_rsp (heap h r) = t_kernel_rsp (heap g r)"
    "t_kernel_stack_top (heap h r) = t_kernel_stack_top (heap g r)" "t_priority (heap h r) = t_priority (heap g r)"
    by (simp_all add: task_view_def)
qed

lemma poll_privateD: "poll_private P \<Longrightarrow> P f w g = (d, f', g') \<Longrightarrow> same_private g g'"
  unfolding poll_private_def by (metis snd_conv)

lemma same_private_exec [simp]:
  "same_private g (h\<lparr>ex_queue := q\<rparr>) = same_private g h" "same_private g (h\<lparr>cur_id := c\<rparr>) = same_private g h"
  "same_private g (h\<lparr>ex_tasks := t\<rparr>) = same_private g h" "same_private g (h\<lparr>ex_wakers := w\<rparr>) = same_private g h"
  "same_private g (h\<lparr>registry := e\<rparr>) = same_private g h" "same_private g (h\<lparr>ex_locked := b\<rparr>) = same_private g h"
  by (simp_all add: same_private_def)

lemma same_private_future [simp]:
  "same_private g (upd_task r (\<lambda>t. t\<lparr>t_future := f\<rparr>) h) = same_private g h"
proof -
  have "(\<lambda>q. task_view (heap (upd_task r (\<lambda>t. t\<lparr>t_future := f\<rparr>) h) q)) = (\<lambda>q. task_view (heap h q))"
    by (simp add: fun_eq_iff task_view_def)
  then show ?thesis unfolding same_private_def by simp
qed

lemma ready_turn_private:
  fixes g :: "('f, 'q, 'x) machine_scheme"
  assumes "poll_private P"
  shows "same_private g (ready_turn P i g)"
proof (cases "ex_tasks g i")
  case (Some r)
  define w where "w = (case ex_wakers g i of Some w \<Rightarrow> w | None \<Rightarrow> i)"
  define g1 where "g1 = g\<lparr>cur_id := i, ex_wakers := (ex_wakers g)(i \<mapsto> w)\<rparr>"
  obtain d f' g2 where P: "P (t_future (heap g1 r)) w g1 = (d, f', g2)"
    "task_poll P r w g1 = (d, upd_task r (\<lambda>t. t\<lparr>t_future := f'\<rparr>) g2)"
    by (rule task_poll_cases)
  have "same_private g g1" by (simp add: g1_def same_private_refl)
  then have "same_private g g2" using poll_privateD[OF assms P(1)] by (rule same_private_trans)
  moreover have "ready_turn P i g = (if t_state (heap g r) \<noteq> Ready then g else
      (let g' = upd_task r (\<lambda>t. t\<lparr>t_future := f'\<rparr>) g2
        in if d then g'\<lparr>ex_tasks := (ex_tasks g')(i := None), registry := (registry g')(i := None),
                       ex_wakers := (ex_wakers g')(i := None)\<rparr> else g'))"
    using Some P(2) by (simp add: ready_turn_def Let_def w_def g1_def split: bool.split)
  ultimately show ?thesis by (simp add: Let_def same_private_refl)
qed (simp add: ready_turn_def same_private_refl)

lemma run_loop_private:
  fixes g :: "('f, 'q, 'x) machine_scheme"
  assumes "poll_private P" "run_loop Q P g = Some h"
  shows "same_private g h"
  using assms(2)
proof (rule run_loop_induct[where R = same_private])
  fix g h :: "('f, 'q, 'x) machine_scheme" and i q
  assume "same_private (ready_turn P i (g\<lparr>ex_queue := q\<rparr>)) h"
  moreover have "same_private g (ready_turn P i (g\<lparr>ex_queue := q\<rparr>))"
    using ready_turn_private[OF assms(1), of "g\<lparr>ex_queue := q\<rparr>" i] by (simp add: same_private_def)
  ultimately show "same_private g h" by (rule same_private_trans[rotated])
qed (rule same_private_refl)

lemma poll_kernel_private:
  assumes "poll_private P" "poll_kernel_tasks Q P m = Some m'"
  shows "same_private m m'"
proof (cases "ex_locked m")
  case True
  then show ?thesis using assms(2) by (simp add: poll_kernel_tasks_def same_private_refl)
next
  case False
  then obtain h where h: "run_loop Q P (m\<lparr>ex_locked := True\<rparr>) = Some h" "m' = h\<lparr>cur_id := 0, ex_locked := False\<rparr>"
    using assms(2) by (auto simp: poll_kernel_tasks_def run_ready_tasks_def)
  have "same_private (m\<lparr>ex_locked := True\<rparr>) h" by (rule run_loop_private[OF assms(1) h(1)])
  then show ?thesis using h(2) by (simp add: same_private_def)
qed

lemma device_post:
  assumes "poll_private P" and "\<not> init_mbox_locked m"
    and "(dev = Serial \<and> serial_handler_inner Q P data rsp m = Some (rsp', m'))
       \<or> (dev = Keyboard \<and> keyboard_handler_inner Q P data rsp m = Some (rsp', m'))"
  shows "rsp' = rsp" "\<not> init_mbox_locked m'"
    "init_mbox m' = Some \<lparr>msg_from = 0, msg_to = 1, msg_label = (if dev = Serial then 3 else 2), msg_payload = (ucast data, 0)\<rparr>"
proof -
  define label :: u64 where "label = (if dev = Serial then 3 else 2)"
  have poll: "poll_kernel_tasks Q P (notify_end_of_interrupt dev (post_byte label data m)) = Some m'"
    and r: "rsp' = rsp"
    using assms(3) by (auto simp: serial_handler_inner_def keyboard_handler_inner_def label_def)
  have "same_private (notify_end_of_interrupt dev (post_byte label data m)) m'"
    by (rule poll_kernel_private[OF assms(1) poll])
  then show "\<not> init_mbox_locked m'"
    "init_mbox m' = Some \<lparr>msg_from = 0, msg_to = 1, msg_label = (if dev = Serial then 3 else 2), msg_payload = (ucast data, 0)\<rparr>"
    using assms(2) by (simp_all add: same_private_def notify_end_of_interrupt_def post_byte_def label_def)
  show "rsp' = rsp" by (rule r)
qed


text \<open>
  C31. A timer tick takes the running process's identity: \<^verbatim>\<open>poll_kernel_tasks\<close> clears the current
  identifier and the scheduler sets it again only when it switches, so after a tick inside a time slice
  the process goes on as task 0, and a service it then registers resolves to 0.
\<close>

theorem timer_clears_identity:
  assumes "poll_private P" and "\<not> ex_locked m" and "sched_ok A m"
    and "timer_handler_inner A Q P rsp m = Some (Ok (rsp', m'))" and "cur_idx m' = cur_idx m"
    and "t_state (listed m' (unat (cur_idx m))) \<noteq> Terminated"
  shows "rsp' = rsp \<and> cur_id m' = 0
     \<and> (let g = sys_state (handle_syscall Q acc 14 name b m')
        in handle_syscall Q acc 15 name b g = Sys_Return 0 g)"
proof -
  obtain m1 where m1: "poll_kernel_tasks Q P (notify_end_of_interrupt Timer m) = Some m1"
    "schedule_next A rsp False (m1\<lparr>tick_count := tick_count m1 + 1\<rparr>) = Ok (rsp', m')"
    using assms(4) by (auto simp: timer_handler_inner_def)
  let ?m = "m1\<lparr>tick_count := tick_count m1 + 1\<rparr>"
  have "\<not> ex_locked (notify_end_of_interrupt Timer m)" using assms(2) by (simp add: notify_end_of_interrupt_def)
  then have id: "cur_id m1 = 0" using poll_unlocked m1(1) by blast
  have same: "same_private (notify_end_of_interrupt Timer m) m1" by (rule poll_kernel_private[OF assms(1) m1(1)])
  then have ok: "sched_ok A ?m" and cur: "cur_idx ?m = cur_idx m"
    using assms(3) same_private_task(3)[OF same]
    by (simp_all add: same_private_def notify_end_of_interrupt_def sched_ok_def)
  have "rsp' = rsp \<and> m' = ?m"
  proof (rule ccontr)
    assume "\<not> (rsp' = rsp \<and> m' = ?m)"
    then obtain i j where ij: "i = unat (cur_idx ?m)" "j = next_index ?m i" "m' = after_switch i j rsp ?m"
      "j \<noteq> i \<or> t_state (listed ?m i) = Terminated"
      using schedule_next_cases[OF ok, of False rsp] m1(2) by auto
    have "j < length (task_list ?m)" using next_index_less[of i ?m] sched_okD(2)[OF ok] ij(1,2) by simp
    then have "j < 2 ^ 64" using sched_okD(3)[OF ok] by linarith
    then have "j = i" using ij(1,3) assms(5) cur by (metis after_switch_simps(5) unat_of_nat64)
    then have "t_state (listed m' i) = Terminated" using ij(3,4) by (simp add: after_switch_listed)
    then show False using assms(6) ij(1) cur by simp
  qed
  then have "rsp' = rsp" "cur_id m' = 0" using id by simp_all
  then show ?thesis by (simp add: Let_def sys_reg_service_def sys_get_service_pid_def)
qed

section \<open>Two processes\<close>

definition two_procs :: "(unit, nat \<times> u64 list) machine" where
  "two_procs = \<lparr>heap = (\<lambda>_. blank_task ())
       (0 := (blank_task ())\<lparr>t_id := 1, t_state := Ready, t_kernel_rsp := 0xFF60, t_kernel_stack_top := 0x10000\<rparr>,
        1 := (blank_task ())\<lparr>t_id := 2, t_state := Ready, t_kernel_rsp := 0x7F60, t_kernel_stack_top := 0x8000\<rparr>),
     next_ref = 2, next_id = 3, cur_id = 1, registry = Map.empty, kmem = (\<lambda>_. 0), ex_tasks = Map.empty,
     ex_queue = (100, []), ex_wakers = Map.empty, console = [], services = Map.empty, init_mbox = None,
     init_mbox_locked = False, task_list = [0, 1], tl_locked = False, ex_locked = False, cur_idx = 0,
     tick_count = 0, ktss = \<lparr>rsp0 = 0x10000, ist0 = 0\<rparr>, eois = []\<rparr>"

lemma two_procs_ok: "sched_ok x86_ref two_procs"
  by (simp add: sched_ok_def two_procs_def x86_ref_def)

lemma two_procs_simps:
  "task_list two_procs = [0, 1]" "cur_idx two_procs = 0" "tick_count two_procs = 0"
  "init_mbox_locked two_procs = False" "init_mbox two_procs = None" "ex_locked two_procs = False"
  "cur_id two_procs = 1" "ex_queue two_procs = (100, [])"
  by (simp_all add: two_procs_def)

lemma two_procs_listed:
  "listed two_procs 0 = (blank_task ())\<lparr>t_id := 1, t_state := Ready, t_kernel_rsp := 0xFF60, t_kernel_stack_top := 0x10000\<rparr>"
  "listed two_procs 1 = (blank_task ())\<lparr>t_id := 2, t_state := Ready, t_kernel_rsp := 0x7F60, t_kernel_stack_top := 0x8000\<rparr>"
  "listed two_procs (Suc 0) = (blank_task ())\<lparr>t_id := 2, t_state := Ready, t_kernel_rsp := 0x7F60, t_kernel_stack_top := 0x8000\<rparr>"
  by (simp_all add: listed_def two_procs_def)

theorem no_starvation_witness: "visits x86_ref (replicate 10 0) two_procs 1"
proof -
  have "all_slices 5 two_procs" "still_ready 1 two_procs"
    by (auto simp: all_slices_def still_ready_def two_procs_simps two_procs_listed less_Suc_eq
        blank_task_def max_def)
  from no_starvation[OF two_procs_ok this, of "replicate 10 0"] show ?thesis
    by (simp add: two_procs_simps)
qed

lemma finish_now_private: "poll_private finish_now"
  by (simp add: poll_private_def finish_now_def same_private_refl)

lemma idle_poll:
  fixes m :: "(unit, nat \<times> u64 list) machine"
  assumes "ex_queue m = (100, [])" "\<not> ex_locked m"
  shows "poll_kernel_tasks list_queue finish_now m = Some (m\<lparr>cur_id := 0, ex_locked := False\<rparr>)"
proof -
  have "run_loop list_queue finish_now (m\<lparr>ex_locked := True\<rparr>) = Some (m\<lparr>ex_locked := True\<rparr>)"
    using assms(1) by (subst run_loop.simps) (simp add: list_queue_def)
  then show ?thesis using assms(2) by (simp add: poll_kernel_tasks_def run_ready_tasks_def)
qed


theorem timer_clears_identity_witness:
  "\<exists>m'. timer_handler_inner x86_ref list_queue finish_now 0xABC two_procs = Some (Ok (0xABC, m')) \<and> cur_id m' = 0"
proof -
  let ?m = "notify_end_of_interrupt Timer two_procs"
  let ?t = "?m\<lparr>cur_id := 0, ex_locked := False, tick_count := 1\<rparr>"
  have idle: "ex_queue ?m = (100, [])" "\<not> ex_locked ?m"
    by (simp_all add: notify_end_of_interrupt_def two_procs_simps)
  have l: "listed ?t 0 = listed two_procs 0" "cur_idx ?t = 0" "task_list ?t = [0, 1]"
    by (simp_all add: listed_def notify_end_of_interrupt_def two_procs_simps)
  have "schedule_next x86_ref 0xABC False ?t = Ok (0xABC, ?t)"
    using l by (simp add: schedule_next_def Let_def slice_over_def two_procs_listed blank_task_def)
  moreover have "tick_count ?m = 0" by (simp add: notify_end_of_interrupt_def two_procs_simps)
  ultimately have t: "timer_handler_inner x86_ref list_queue finish_now 0xABC two_procs = Some (Ok (0xABC, ?t))"
    by (simp add: timer_handler_inner_def idle_poll[OF idle])
  have "\<not> ex_locked two_procs" "cur_idx ?t = cur_idx two_procs"
    "t_state (listed ?t (unat (cur_idx two_procs))) \<noteq> Terminated"
    using l by (simp_all add: two_procs_simps two_procs_listed)
  from timer_clears_identity[OF finish_now_private this(1) two_procs_ok t this(2,3), of open_access 5]
  show ?thesis using t by blast
qed

section \<open>A preemption\<close>

text \<open>A ring 3 program is interrupted on the first process's kernel stack.\<close>

definition user_cpu :: cpu where
  "user_cpu = blank_cpu\<lparr>regs := (\<lambda>r. if r = RSP then 0x30008000 else 7), rip := 0x20000000, cs := 0x33,
     ss := 0x2b, rflags := 0x202\<rparr>"

definition saved_mem :: memory where
  "saved_mem = fst (wrapper_frame (hw_interrupt 8 0x10000 0 None user_cpu))"

lemma user_interrupt_rsp:
  assumes "cs c AND 3 = 3"
  shows "regs (hw_interrupt kcs stk hnd None c) RSP = (stk AND NOT 15) - 40"
  using assms by (simp add: hw_interrupt_def Let_def split_beta diff_diff_eq)

lemma saved_frame: "wrapper_frame (hw_interrupt 8 0x10000 0 None user_cpu) = (saved_mem, 0xFF60)"
proof -
  have "cs user_cpu AND 3 = 3" by (simp add: user_cpu_def)
  from user_interrupt_rsp[OF this, of 8 "0x10000" 0]
  have "snd (wrapper_frame (hw_interrupt 8 0x10000 0 None user_cpu)) = 0xFF60"
    by (simp add: wrapper_frame_def)
  then show ?thesis unfolding saved_mem_def by (metis prod.collapse)
qed

end
