(* ===== verification/Kernel_Trace.thy ===== *)
theory Kernel_Trace
  imports Interrupts
begin

text \<open>
  The kernel as a state machine: after the boot its state changes only in system calls and interrupts,
  which come in any order. Each event is one step, since the kernel runs with interrupts masked. The
  invariants are proved by instantiating the locale \<open>invariant_system\<close> with this machine.
\<close>

section \<open>Events\<close>

inductive kstep :: "x86_api \<Rightarrow> (u64, 'q) array_queue \<Rightarrow> ('f, 'q, 'x) machine_poll \<Rightarrow> access \<Rightarrow>
    ('f, 'q, 'x) machine_scheme \<Rightarrow> ('f, 'q, 'x) machine_scheme \<Rightarrow> bool"
  for A Q P acc where
  step_syscall: "kstep A Q P acc m (sys_state (handle_syscall Q acc i a b m))"
| step_timer: "timer_handler_inner A Q P rsp m = Some (Ok (rsp', m')) \<Longrightarrow> kstep A Q P acc m m'"
| step_keyboard: "keyboard_handler_inner Q P data rsp m = Some (rsp', m') \<Longrightarrow> kstep A Q P acc m m'"
| step_serial: "serial_handler_inner Q P data rsp m = Some (rsp', m') \<Longrightarrow> kstep A Q P acc m m'"
| step_gpf: "gpf_handler_inner A rsp m = Ok (rsp', m') \<Longrightarrow> kstep A Q P acc m m'"
| step_page_fault: "page_fault_handler_inner A cr2 rsp m = Ok (rsp', m') \<Longrightarrow> kstep A Q P acc m m'"
| step_breakpoint: "kstep A Q P acc m (breakpoint_handler ip m)"

section \<open>Each event keeps the scheduler and the executor in order\<close>

definition kernel_ok :: "x86_api \<Rightarrow> ('f, 'q, 'x) machine_scheme \<Rightarrow> bool" where
  "kernel_ok A m \<longleftrightarrow> sched_ok A m \<and> exec_ok m"

lemma exec_ok_ids:
  assumes "exec_ok g" "ex_tasks h = ex_tasks g" "registry h = registry g" "ex_wakers h = ex_wakers g"
    and "\<And>r. t_id (heap h r) = t_id (heap g r)"
  shows "exec_ok h"
  using assms by (simp add: exec_ok_def)

lemma kernel_ok_same:
  assumes "kernel_ok A g" "task_list h = task_list g" "cur_idx h = cur_idx g" "tl_locked h = tl_locked g"
    and "ex_tasks h = ex_tasks g" "registry h = registry g" "ex_wakers h = ex_wakers g"
    and "\<And>r. t_kernel_stack_top (heap h r) = t_kernel_stack_top (heap g r)"
    and "\<And>r. t_id (heap h r) = t_id (heap g r)"
  shows "kernel_ok A h"
  using assms by (simp add: kernel_ok_def sched_ok_def exec_ok_def)

lemma syscall_machine [frame_simps]:
  fixes m :: "('f, 'q, 'x) machine_scheme"
  shows "task_list (sys_state (handle_syscall Q acc i a b m)) = task_list m"
    "cur_idx (sys_state (handle_syscall Q acc i a b m)) = cur_idx m"
    "tl_locked (sys_state (handle_syscall Q acc i a b m)) = tl_locked m"
    "tick_count (sys_state (handle_syscall Q acc i a b m)) = tick_count m"
proof -
  have more: "kernel_globals.more (sys_state (handle_syscall Q acc i a b m)) = kernel_globals.more m"
    by (rule syscall_cases[where i = i and Q = Q and acc = acc and a = a and b = b and g = m];
        simp add: sys_defs split: sys_splits)
  then show "task_list (sys_state (handle_syscall Q acc i a b m)) = task_list m"
    "cur_idx (sys_state (handle_syscall Q acc i a b m)) = cur_idx m"
    "tl_locked (sys_state (handle_syscall Q acc i a b m)) = tl_locked m"
    "tick_count (sys_state (handle_syscall Q acc i a b m)) = tick_count m"
    by (cases m, cases "sys_state (handle_syscall Q acc i a b m)", simp)+
qed

lemma syscall_kernel_ok: "kernel_ok A m \<Longrightarrow> kernel_ok A (sys_state (handle_syscall Q acc i a b m))"
  by (erule kernel_ok_same) (simp_all add: frame_simps)

lemma poll_kernel_ok:
  assumes "poll_ok P" "poll_private P" "kernel_ok A m" "poll_kernel_tasks Q P m = Some m'"
  shows "kernel_ok A m'"
proof -
  have same: "same_private m m'" by (rule poll_kernel_private[OF assms(2,4)])
  have "sched_ok A m'"
    using assms(3) same same_private_task(3)[OF same]
    by (simp add: kernel_ok_def same_private_def sched_ok_def)
  moreover have "exec_ok m'"
  proof (cases "ex_locked m")
    case True
    then show ?thesis using assms(3,4) by (simp add: poll_kernel_tasks_def kernel_ok_def)
  next
    case False
    then obtain h where h: "run_loop Q P (m\<lparr>ex_locked := True\<rparr>) = Some h" "m' = h\<lparr>cur_id := 0, ex_locked := False\<rparr>"
      using assms(4) by (auto simp: poll_kernel_tasks_def run_ready_tasks_def)
    have "exec_ok (m\<lparr>ex_locked := True\<rparr>)" using assms(3) by (simp add: kernel_ok_def exec_ok_def)
    then have "exec_ok h" by (rule run_loop_exec_ok[OF assms(1) h(1)])
    then show ?thesis by (rule exec_ok_ids) (simp_all add: h(2))
  qed
  ultimately show ?thesis by (simp add: kernel_ok_def)
qed

lemma schedule_kernel_ok:
  assumes "kernel_ok A m"
  shows "\<exists>rsp' m'. schedule_next A rsp force m = Ok (rsp', m') \<and> kernel_ok A m'"
proof -
  obtain rsp' m' where s: "schedule_next A rsp force m = Ok (rsp', m')" "sched_ok A m'"
    using schedule_next_sched_ok assms by (metis kernel_ok_def)
  have "m' = m \<or> (\<exists>i j. m' = after_switch i j rsp m)"
    using schedule_next_cases[of A m force rsp] s(1) assms by (auto simp: kernel_ok_def)
  moreover have "exec_ok (after_switch i j rsp m)" for i j
    using assms by (simp add: kernel_ok_def exec_ok_def listed_def)
  ultimately show ?thesis using s assms by (auto simp: kernel_ok_def)
qed

lemma post_kernel_ok: "kernel_ok A (notify_end_of_interrupt d (post_byte l x m)) = kernel_ok A m"
  by (auto simp: kernel_ok_def notify_end_of_interrupt_def post_byte_def sched_ok_def exec_ok_def)

lemma kernel_ok_simps [simp]:
  "kernel_ok A (m\<lparr>tick_count := t\<rparr>) = kernel_ok A m" "kernel_ok A (notify_end_of_interrupt d m) = kernel_ok A m"
  "kernel_ok A (print s m) = kernel_ok A m"
  by (auto simp: kernel_ok_def notify_end_of_interrupt_def sched_ok_def exec_ok_def)

lemma kill_kernel_ok:
  assumes "kernel_ok A m"
  shows "\<exists>m'. kill_current report m = Ok m' \<and> kernel_ok A m'"
proof -
  have ok: "sched_ok A m" using assms by (simp add: kernel_ok_def)
  have "\<not> length (task_list m) \<le> unat (cur_idx m)" "\<not> tl_locked m"
    using sched_okD(1,2)[OF ok] by simp_all
  then have k: "kill_current report m = Ok (upd_task (task_list m ! unat (cur_idx m)) (\<lambda>t. t\<lparr>t_state := Terminated\<rparr>)
      (println (report (t_id (listed m (unat (cur_idx m))))) m))"
    by (simp add: kill_current_def Let_def)
  have "kernel_ok A (upd_task r (\<lambda>t. t\<lparr>t_state := Terminated\<rparr>) (println s m))" for r s
    by (rule kernel_ok_same[OF assms]) (simp_all add: println_def)
  then show ?thesis using k by blast
qed

lemma fault_kernel_ok:
  assumes "kernel_ok A m"
  shows "\<exists>rsp' m'. bindo (kill_current report m) (schedule_next A rsp True) = Ok (rsp', m') \<and> kernel_ok A m'"
  using kill_kernel_ok[OF assms, of report] schedule_kernel_ok by fastforce

lemma kstep_kernel_ok:
  assumes "poll_ok P" "poll_private P" "kernel_ok A m" "kstep A Q P acc m m'"
  shows "kernel_ok A m'"
  using assms(4)
proof cases
  case (step_timer rsp rsp')
  then obtain m1 where m1: "poll_kernel_tasks Q P (notify_end_of_interrupt Timer m) = Some m1"
    "schedule_next A rsp False (m1\<lparr>tick_count := tick_count m1 + 1\<rparr>) = Ok (rsp', m')"
    by (auto simp: timer_handler_inner_def)
  have "kernel_ok A (m1\<lparr>tick_count := tick_count m1 + 1\<rparr>)"
    using poll_kernel_ok[OF assms(1,2) _ m1(1)] assms(3) by simp
  from schedule_kernel_ok[OF this, of rsp False] show ?thesis using m1(2) by auto
next
  case (step_keyboard data rsp rsp')
  then have "poll_kernel_tasks Q P (notify_end_of_interrupt Keyboard (post_byte 2 data m)) = Some m'"
    by (auto simp: keyboard_handler_inner_def)
  from poll_kernel_ok[OF assms(1,2) _ this] show ?thesis using assms(3) by (simp only: post_kernel_ok)
next
  case (step_serial data rsp rsp')
  then have "poll_kernel_tasks Q P (notify_end_of_interrupt Serial (post_byte 3 data m)) = Some m'"
    by (auto simp: serial_handler_inner_def)
  from poll_kernel_ok[OF assms(1,2) _ this] show ?thesis using assms(3) by (simp only: post_kernel_ok)
next
  case (step_gpf rsp rsp')
  then show ?thesis using fault_kernel_ok[OF assms(3), of gpf_report rsp] by (auto simp: gpf_handler_inner_def)
next
  case (step_page_fault cr2 rsp rsp')
  then show ?thesis
    using fault_kernel_ok[OF assms(3), of "page_fault_report cr2" rsp] by (auto simp: page_fault_handler_inner_def)
qed (use assms(3) in \<open>simp_all add: syscall_kernel_ok breakpoint_handler_def println_def\<close>)

interpretation kernel: invariant_system "kernel_ok A" "kstep A Q P acc"
    "\<lambda>m. poll_ok P \<longrightarrow> poll_private P \<longrightarrow> kernel_ok A m" for A Q P acc
  by unfold_locales (auto intro: kstep_kernel_ok)

text \<open>
  C9. The kernel stays in order and its scheduler never panics: from a well-formed state, after any
  sequence of system calls, timer, keyboard and serial interrupts and faults, the scheduler's index is
  inside its list, the executor's maps agree with the registry, and a further scheduling decision or
  fault handler again returns, whatever pointer it is given.
\<close>

theorem kernel_stays_ok:
  assumes "poll_ok P" and "poll_private P" and "reach (kernel_ok A) (kstep A Q P acc) m"
  shows "sched_ok A m \<and> exec_ok m
     \<and> (\<forall>rsp force. \<exists>rsp' m'. schedule_next A rsp force m = Ok (rsp', m'))
     \<and> (\<forall>rsp. \<exists>rsp' m'. gpf_handler_inner A rsp m = Ok (rsp', m'))
     \<and> (\<forall>cr2 rsp. \<exists>rsp' m'. page_fault_handler_inner A cr2 rsp m = Ok (rsp', m'))"
proof -
  have ok: "kernel_ok A m" using kernel.reach_inv[OF assms(3)] assms(1,2) by blast
  then show ?thesis
    using schedule_kernel_ok[OF ok] fault_kernel_ok[OF ok]
    unfolding gpf_handler_inner_def page_fault_handler_inner_def kernel_ok_def by blast
qed

section \<open>The dead stay dead\<close>

definition buried :: "task_ref \<Rightarrow> ('f, 'q, 'x) machine_scheme \<Rightarrow> bool" where
  "buried r m \<longleftrightarrow> t_state (heap m r) = Terminated"

text \<open>No future of a kernel task brings a terminated task back.\<close>

definition poll_buries :: "('f, 'q, 'x) machine_poll \<Rightarrow> bool" where
  "poll_buries P \<longleftrightarrow> (\<forall>f w g r. buried r g \<longrightarrow> buried r (snd (snd (P f w g))))"

lemma ready_turn_buried:
  fixes g :: "('f, 'q, 'x) machine_scheme"
  assumes "poll_buries P" "buried r g"
  shows "buried r (ready_turn P i g)"
proof (cases "ex_tasks g i")
  case (Some t)
  define w where "w = (case ex_wakers g i of Some w \<Rightarrow> w | None \<Rightarrow> i)"
  define g1 where "g1 = g\<lparr>cur_id := i, ex_wakers := (ex_wakers g)(i \<mapsto> w)\<rparr>"
  obtain d f' g2 where P: "P (t_future (heap g1 t)) w g1 = (d, f', g2)"
    "task_poll P t w g1 = (d, upd_task t (\<lambda>t. t\<lparr>t_future := f'\<rparr>) g2)"
    by (rule task_poll_cases)
  have "buried r g1" using assms(2) by (simp add: g1_def buried_def)
  then have "buried r g2" using assms(1) P(1) unfolding poll_buries_def by (metis snd_conv)
  then show ?thesis
    using Some P(2) assms(2) by (auto simp: ready_turn_def Let_def w_def g1_def buried_def split: bool.split)
qed (use assms in \<open>simp add: ready_turn_def\<close>)

lemma poll_kernel_buried:
  fixes m :: "('f, 'q, 'x) machine_scheme"
  assumes "poll_buries P" "buried r m" "poll_kernel_tasks Q P m = Some m'"
  shows "buried r m'"
proof (cases "ex_locked m")
  case False
  then obtain h where h: "run_loop Q P (m\<lparr>ex_locked := True\<rparr>) = Some h" "m' = h\<lparr>cur_id := 0, ex_locked := False\<rparr>"
    using assms(3) by (auto simp: poll_kernel_tasks_def run_ready_tasks_def)
  have "buried r (m\<lparr>ex_locked := True\<rparr>) \<longrightarrow> buried r h"
    using h(1)
  proof (rule run_loop_induct[where R = "\<lambda>g h. buried r g \<longrightarrow> buried r h"])
    fix g h :: "('f, 'q, 'x) machine_scheme" and i q
    assume "buried r (ready_turn P i (g\<lparr>ex_queue := q\<rparr>)) \<longrightarrow> buried r h"
    then show "buried r g \<longrightarrow> buried r h"
      using ready_turn_buried[OF assms(1), of r "g\<lparr>ex_queue := q\<rparr>"] by (simp add: buried_def)
  qed simp
  then show ?thesis using assms(2) h(2) by (simp add: buried_def)
qed (use assms(2,3) in \<open>simp add: poll_kernel_tasks_def\<close>)

lemma syscall_buried:
  fixes m :: "('f, 'q, 'x) machine_scheme"
  assumes "buried r m"
  shows "buried r (sys_state (handle_syscall Q acc i a b m))"
  by (rule syscall_cases[where i = i and Q = Q and acc = acc and a = a and b = b and g = m];
      use assms in \<open>auto simp: sys_defs frame_simps buried_def split: sys_splits\<close>)

lemma schedule_buried:
  assumes "schedule_next A rsp force m = Ok (rsp', m')"
  shows "buried r m' = buried r m"
  using assms by (auto simp: schedule_next_def switch_to_def Let_def buried_def split: if_splits)

lemma kill_buried:
  assumes "kill_current report m = Ok m'" "buried r m"
  shows "buried r m'"
  using assms by (auto simp: kill_current_def Let_def println_def buried_def split: if_splits)

lemma kstep_buried:
  assumes "poll_buries P" "buried r m" "kstep A Q P acc m m'"
  shows "buried r m'"
proof -
  have posted: "buried r (notify_end_of_interrupt d m)" "buried r (notify_end_of_interrupt d (post_byte l x m))" for d l x
    using assms(2) by (simp_all add: buried_def notify_end_of_interrupt_def post_byte_def)
  have fault: "buried r m'" if "bindo (kill_current report m) (schedule_next A rsp True) = Ok (rsp', m')" for report rsp rsp'
    using that kill_buried[OF _ assms(2)] schedule_buried by fastforce
  from assms(3) show ?thesis
  proof cases
    case (step_timer rsp rsp')
    then obtain m1 where m1: "poll_kernel_tasks Q P (notify_end_of_interrupt Timer m) = Some m1"
      "schedule_next A rsp False (m1\<lparr>tick_count := tick_count m1 + 1\<rparr>) = Ok (rsp', m')"
      by (auto simp: timer_handler_inner_def)
    show ?thesis
      using poll_kernel_buried[OF assms(1) posted(1) m1(1)] schedule_buried[OF m1(2), of r] by (simp add: buried_def)
  next
    case (step_keyboard data rsp rsp')
    then show ?thesis by (auto simp: keyboard_handler_inner_def intro: poll_kernel_buried[OF assms(1) posted(2)])
  next
    case (step_serial data rsp rsp')
    then show ?thesis by (auto simp: serial_handler_inner_def intro: poll_kernel_buried[OF assms(1) posted(2)])
  next
    case (step_gpf rsp rsp')
    then show ?thesis using fault unfolding gpf_handler_inner_def by blast
  next
    case (step_page_fault cr2 rsp rsp')
    then show ?thesis using fault unfolding page_fault_handler_inner_def by blast
  qed (use assms(2) syscall_buried in \<open>simp_all add: breakpoint_handler_def println_def buried_def\<close>)
qed

interpretation dead: invariant_system "buried r" "kstep A Q P acc" "\<lambda>m. poll_buries P \<longrightarrow> buried r m" for r A Q P acc
  by unfold_locales (auto intro: kstep_buried)

text \<open>With a ready process in the list no decision of the scheduler leaves the processor to a terminated one.\<close>

lemma schedule_avoids_dead:
  assumes "sched_ok A m" "\<exists>j < length (task_list m). t_state (listed m j) = Ready"
  shows "\<exists>q m'. schedule_next A p force m = Ok (q, m') \<and> t_state (listed m' (unat (cur_idx m'))) \<noteq> Terminated"
proof -
  define i j where "i = unat (cur_idx m)" and "j = next_index m i"
  have i: "i < length (task_list m)" using sched_okD(2)[OF assms(1)] by (simp add: i_def)
  have j: "j < length (task_list m)" "t_state (listed m j) = Ready"
    using ring_search_nearest[OF i assms(2)] next_index_less[OF i] unfolding j_def next_index_def Let_def by auto
  then have "unat (of_nat j :: u64) = j" using sched_okD(3)[OF assms(1)] by (intro unat_of_nat64) linarith
  then have cur: "t_state (listed (after_switch i j p m) (unat (cur_idx (after_switch i j p m)))) = Ready"
    using j(2) by (auto simp: listed_def)
  show ?thesis
  proof (cases "slice_over m (listed m i) force \<and> (j \<noteq> i \<or> t_state (listed m i) = Terminated)")
    case True
    then show ?thesis using schedule_next_switch[OF assms(1) i_def j_def, of force p] cur by simp
  next
    case False
    then have "t_state (listed m i) \<noteq> Terminated" using j(2) by (auto simp: slice_over_def)
    then show ?thesis using schedule_next_stay[OF assms(1) i_def, of force p] False by (auto simp: i_def j_def)
  qed
qed


section \<open>A lock that is never released\<close>

lemma post_locked: "init_mbox_locked m \<Longrightarrow> post_byte l x m = m"
  by (simp add: post_byte_def)

lemma schedule_mbox:
  assumes "schedule_next A rsp force m = Ok (rsp', m')"
  shows "init_mbox_locked m' = init_mbox_locked m" "init_mbox m' = init_mbox m"
  using assms
  by (auto simp: schedule_next_def switch_to_def Let_def split: if_splits)

lemma kill_mbox:
  assumes "kill_current report m = Ok m'"
  shows "init_mbox_locked m' = init_mbox_locked m" "init_mbox m' = init_mbox m"
  using assms by (auto simp: kill_current_def Let_def println_def split: if_splits)

lemma poll_mbox:
  assumes "poll_private P" "poll_kernel_tasks Q P m = Some m'"
  shows "init_mbox_locked m' = init_mbox_locked m" "init_mbox m' = init_mbox m"
  using poll_kernel_private[OF assms] by (simp_all add: same_private_def)

definition mbox_stuck :: "('f, 'q, 'x) machine_scheme \<Rightarrow> bool" where
  "mbox_stuck m \<longleftrightarrow> init_mbox_locked m \<and> init_mbox m = None"

lemma recv_locked: "init_mbox_locked m \<Longrightarrow> handle_syscall Q acc 11 p b m = Sys_Return 0 m"
  by (simp add: sys_recv_def)

lemma kstep_stuck:
  assumes "poll_private P" "mbox_stuck m" "kstep A Q P acc m m'"
  shows "mbox_stuck m'"
proof -
  have l: "init_mbox_locked m" "init_mbox m = None" using assms(2) by (simp_all add: mbox_stuck_def)
  from assms(3) show ?thesis
  proof cases
    case (step_syscall i a b)
    show ?thesis
    proof (cases "i = 11")
      case True
      then show ?thesis using recv_locked[OF l(1)] assms(2) step_syscall by simp
    next
      case False
      then show ?thesis using assms(2) step_syscall by (simp add: mbox_stuck_def syscall_mbox)
    qed
  next
    case (step_timer rsp rsp')
    then show ?thesis using l poll_mbox[OF assms(1)] schedule_mbox
      by (fastforce simp: timer_handler_inner_def mbox_stuck_def notify_end_of_interrupt_def)
  next
    case (step_keyboard data rsp rsp')
    then show ?thesis using l poll_mbox[OF assms(1)]
      by (fastforce simp: keyboard_handler_inner_def mbox_stuck_def notify_end_of_interrupt_def post_locked)
  next
    case (step_serial data rsp rsp')
    then show ?thesis using l poll_mbox[OF assms(1)]
      by (fastforce simp: serial_handler_inner_def mbox_stuck_def notify_end_of_interrupt_def post_locked)
  next
    case (step_gpf rsp rsp')
    then show ?thesis using l schedule_mbox kill_mbox by (fastforce simp: gpf_handler_inner_def mbox_stuck_def)
  next
    case (step_page_fault cr2 rsp rsp')
    then show ?thesis using l schedule_mbox kill_mbox by (fastforce simp: page_fault_handler_inner_def mbox_stuck_def)
  next
    case (step_breakpoint ip)
    then show ?thesis using l by (simp add: mbox_stuck_def breakpoint_handler_def println_def)
  qed
qed

interpretation stuck: invariant_system mbox_stuck "kstep A Q P acc" "\<lambda>m. poll_private P \<longrightarrow> mbox_stuck m" for A Q P acc
  by unfold_locales (auto intro: kstep_stuck)

text \<open>
  C23. One bad receive silences the devices for good: \<^verbatim>\<open>SYS_RECV\<close> checks no pointer, so with a message
  waiting and a buffer that cannot be written it faults while it holds the lock of the global mailbox;
  the lock is never released, and after the fault and any further events every \<^verbatim>\<open>SYS_RECV\<close> of every process
  returns 0 and the mailbox stays empty.
\<close>

theorem bad_receive_locks_mailbox:
  assumes "poll_private P" and "init_mbox m \<noteq> None" and "\<not> init_mbox_locked m"
    and "\<not> msg_range (can_write acc) p"
  shows "\<exists>m'. handle_syscall Q acc 11 p b m = Sys_Fault m'
     \<and> (\<forall>m''. (kstep A Q P acc')\<^sup>*\<^sup>* m' m'' \<longrightarrow>
          init_mbox m'' = None \<and> (\<forall>acc'' p' b'. handle_syscall Q acc'' 11 p' b' m'' = Sys_Return 0 m''))"
proof -
  obtain m' where m': "handle_syscall Q acc 11 p b m = Sys_Fault m'" "mbox_stuck m'"
    using assms(2-4) by (auto simp: sys_recv_def Let_def mbox_stuck_def)
  have "mbox_stuck m''" if "(kstep A Q P acc')\<^sup>*\<^sup>* m' m''" for m''
    using stuck.steps_inv[OF that] m'(2) assms(1) by blast
  then show ?thesis using m'(1) by (auto simp: mbox_stuck_def recv_locked simp del: handle_syscall_simps)
qed

lemma two_procs_kernel_ok: "kernel_ok x86_ref two_procs"
  using two_procs_ok by (simp add: kernel_ok_def exec_ok_def two_procs_def)

theorem kernel_stays_ok_witness:
  "\<exists>rsp' m'. gpf_handler_inner x86_ref 0xABC
     (sys_state (handle_syscall list_queue open_access 14 5 0 two_procs)) = Ok (rsp', m')"
proof -
  have "reach (kernel_ok x86_ref) (kstep x86_ref list_queue finish_now open_access) two_procs"
    by (rule reach_init, rule two_procs_kernel_ok)
  then have "reach (kernel_ok x86_ref) (kstep x86_ref list_queue finish_now open_access)
      (sys_state (handle_syscall list_queue open_access 14 5 0 two_procs))"
    by (rule reach_step) (rule step_syscall)
  from kernel_stays_ok[OF finish_now_ok(1) finish_now_private this] show ?thesis by blast
qed

theorem bad_receive_locks_mailbox_witness:
  "\<exists>m'. handle_syscall list_queue \<lparr>can_read = (\<lambda>_. True), can_write = (\<lambda>_. False)\<rparr> 11 0 0
       (two_procs\<lparr>init_mbox := Some \<lparr>msg_from = 0, msg_to = 1, msg_label = 3, msg_payload = (65, 0)\<rparr>\<rparr>) = Sys_Fault m'
     \<and> init_mbox m' = None"
proof -
  let ?m = "two_procs\<lparr>init_mbox := Some \<lparr>msg_from = 0, msg_to = 1, msg_label = 3, msg_payload = (65, 0)\<rparr>\<rparr>"
  let ?acc = "\<lparr>can_read = (\<lambda>_. True), can_write = (\<lambda>_. False)\<rparr>"
  have "init_mbox ?m \<noteq> None" "\<not> init_mbox_locked ?m" "\<not> msg_range (can_write ?acc) 0"
    by (simp_all add: two_procs_simps msg_range_def upt_rec)
  from bad_receive_locks_mailbox[OF finish_now_private this, of list_queue 0 x86_ref open_access]
  show ?thesis by blast
qed

definition half_dead :: "(unit, nat \<times> u64 list) machine" where
  "half_dead = upd_task 0 (\<lambda>t. t\<lparr>t_state := Terminated\<rparr>) two_procs"


end
