(* ===== verification/Devices.thy ===== *)
theory Devices
  imports Syscalls
begin

text \<open>
  Port input and output: the UART and interrupt controller set-up of \<^verbatim>\<open>serial.rs\<close> and \<^verbatim>\<open>main.rs\<close>, and the
  test framework of \<^verbatim>\<open>lib.rs\<close>, which reports to QEMU through an exit port. A write is logged as port and
  value; bytes on the serial line are the console of the state.
\<close>

section \<open>The serial port and the interrupt mask\<close>

type_synonym port_log = "(u16 \<times> u8) list"

definition init_serial_hardware :: "port_log \<Rightarrow> port_log" where
  "init_serial_hardware io =
     (let base = 0x3F8 in io @ [(base + 1, 0x01), (base + 2, 0xC7), (base + 4, 0x0B)])"

text \<open>Step 6 of \<^verbatim>\<open>kernel_main\<close>: the same three writes, then the mask of the first controller.\<close>

definition unmask_irqs :: "u8 \<Rightarrow> u8" where
  "unmask_irqs imr = imr AND NOT (push_bit 0 1 OR push_bit 1 1 OR push_bit 4 1)"

definition enable_serial_irq :: "u8 \<Rightarrow> port_log \<Rightarrow> port_log" where
  "enable_serial_irq imr io =
     (let base = 0x3F8
      in io @ [(base + 1, 0x01), (base + 2, 0xC7), (base + 4, 0x0B)] @ [(0x21, unmask_irqs imr)])"

text \<open>The timer, keyboard and serial lines are unmasked, every other line keeps its state.\<close>

lemma unmask_irqs_bits:
  "bit (unmask_irqs imr) n \<longleftrightarrow> bit imr n \<and> n \<notin> {0, 1, 4}"
proof -
  have "bit (push_bit 0 1 OR push_bit 1 1 OR push_bit 4 1 :: u8) n \<longleftrightarrow> n \<in> {0, 1, 4}"
    unfolding bit_or_iff bit_push_bit_iff bit_1_iff by (auto simp: possible_bit_word)
  moreover have "bit (imr AND NOT x) n \<longleftrightarrow> bit imr n \<and> \<not> bit x n" for x :: u8
    by (auto simp: bit_and_iff bit_not_iff possible_bit_word dest: bit_imp_le_length)
  ultimately show ?thesis unfolding unmask_irqs_def by blast
qed

lemma serial_hardware_writes: "take 3 (enable_serial_irq imr []) = init_serial_hardware []"
  by (simp add: enable_serial_irq_def init_serial_hardware_def Let_def)

section \<open>Leaving QEMU\<close>

datatype qemu_exit_code = Success | Failed

primrec exit_code :: "qemu_exit_code \<Rightarrow> u32" where
  "exit_code Success = 0x10"
| "exit_code Failed = 0x11"

record test_machine =
  serial_out :: string
  exits :: "u32 list"

definition exit_qemu :: "qemu_exit_code \<Rightarrow> test_machine \<Rightarrow> test_machine" where
  "exit_qemu c m = m\<lparr>exits := exits m @ [exit_code c]\<rparr>"

section \<open>The test framework\<close>

definition out :: "string \<Rightarrow> test_machine \<Rightarrow> test_machine" where
  "out s m = m\<lparr>serial_out := serial_out m @ s\<rparr>"

text \<open>A test has a name and a body, which returns or panics with a message.\<close>

type_synonym test = "string \<times> (test_machine \<Rightarrow> test_machine \<times> string option)"

definition test_panic_handler :: "string \<Rightarrow> test_machine \<Rightarrow> test_machine" where
  "test_panic_handler info m =
     exit_qemu Failed (out (''Error: '' @ info @ [CHR 0x0A, CHR 0x0A])
       (out (esc ''[31;1m[FAILED]'' @ esc ''[0m'' @ [CHR 0x0A]) m))"

definition testable_run :: "test \<Rightarrow> test_machine \<Rightarrow> test_machine \<times> string option" where
  "testable_run t m =
     (case snd t (out (fst t @ ''...'' @ [CHR 0x09]) m) of
        (m, Some e) \<Rightarrow> (m, Some e)
      | (m, None) \<Rightarrow> (out (esc ''[32m[ok]'' @ esc ''[0m'' @ [CHR 0x0A]) m, None))"

fun run_tests :: "test list \<Rightarrow> test_machine \<Rightarrow> test_machine \<times> string option" where
  "run_tests [] m = (m, None)"
| "run_tests (t # ts) m =
     (case testable_run t m of (m, Some e) \<Rightarrow> (m, Some e) | (m, None) \<Rightarrow> run_tests ts m)"

text \<open>\<^verbatim>\<open>test_runner\<close>, with the panic handler of a test build in its place.\<close>

definition test_runner :: "test list \<Rightarrow> test_machine \<Rightarrow> test_machine" where
  "test_runner tests m =
     (case run_tests tests (out (CHR 0x0A # esc ''[33;1m[TEST]'' @ esc ''[0m Running ''
              @ show_nat (length tests) @ '' tests'' @ [CHR 0x0A]) m) of
        (m, Some e) \<Rightarrow> test_panic_handler e m
      | (m, None) \<Rightarrow> exit_qemu Success m)"

text \<open>The panic handler of the kernel binary; it halts for ever afterwards.\<close>

definition kernel_panic :: "string \<Rightarrow> test_machine \<Rightarrow> test_machine" where
  "kernel_panic info m =
     exit_qemu Failed (out (CHR 0x0A # esc ''[31;1m[KERNEL PANIC]'' @ esc ''[0m '' @ info @ [CHR 0x0A]) m)"

lemma panics_exit_failed:
  "exits (kernel_panic info m) = exits m @ [0x11]" "exits (test_panic_handler info m) = exits m @ [0x11]"
  by (simp_all add: kernel_panic_def test_panic_handler_def exit_qemu_def out_def)

text \<open>
  If no test writes to the exit port itself, a run ends with exactly one exit code, and it is success
  just if every test that was reached returned.
\<close>

definition silent_test :: "test \<Rightarrow> bool" where
  "silent_test t \<longleftrightarrow> (\<forall>m. exits (fst (snd t m)) = exits m)"

lemma exits_out [simp]: "exits (out s m) = exits m"
  by (simp add: out_def)

lemma testable_run_exits:
  assumes "silent_test t"
  shows "exits (fst (testable_run t m)) = exits m"
proof -
  let ?m = "out (fst t @ ''...'' @ [CHR 0x09]) m"
  obtain m' r where r: "snd t ?m = (m', r)" by fastforce
  have "exits (fst (snd t ?m)) = exits ?m" using assms unfolding silent_test_def by blast
  then show ?thesis using r by (simp add: testable_run_def split: option.split)
qed

lemma run_tests_exits: "list_all silent_test ts \<Longrightarrow> exits (fst (run_tests ts m)) = exits m"
proof (induction ts arbitrary: m)
  case (Cons t ts)
  obtain m' r where r: "testable_run t m = (m', r)" by fastforce
  then show ?case
    using Cons testable_run_exits[of t m] by (cases r) auto
qed simp

lemma test_runner_exit:
  assumes "list_all silent_test tests"
  shows "\<exists>m0. exits (test_runner tests m)
     = exits m @ [exit_code (if snd (run_tests tests m0) = None then Success else Failed)]"
proof -
  define m0 where "m0 = out (CHR 0x0A # esc ''[33;1m[TEST]'' @ esc ''[0m Running ''
              @ show_nat (length tests) @ '' tests'' @ [CHR 0x0A]) m"
  obtain m' r where r: "run_tests tests m0 = (m', r)" by fastforce
  have e: "exits m' = exits m" using run_tests_exits[OF assms, of m0] r by (simp add: m0_def)
  have "test_runner tests m = (case (m', r) of (m, Some e) \<Rightarrow> test_panic_handler e m | (m, None) \<Rightarrow> exit_qemu Success m)"
    unfolding r[symmetric] m0_def test_runner_def ..
  then have "exits (test_runner tests m) = exits m @ [exit_code (if r = None then Success else Failed)]"
    using e by (cases r) (simp_all add: test_panic_handler_def exit_qemu_def)
  then show ?thesis using r by (intro exI[of _ m0]) simp
qed

end
