(* ===== verification/Boot.thy ===== *)
theory Boot
  imports Paging Kernel_Trace Devices
begin

text \<open>
  \<^verbatim>\<open>kernel_main\<close>: the kernel's start as one composition of the components, from the boot information to
  the first jump into process A, in the order of \<^verbatim>\<open>main.rs\<close>. Everything it calls outside the repository
  is in the environment \<open>boot_env\<close>; the addresses of the leaked kernel stacks are the heap's choice.
\<close>

section \<open>Environment and result\<close>

record ('m, 'g, 'f, 'q, 'h) boot_env =
  be_api :: x86_api
  be_add_entry :: "'g \<Rightarrow> descriptor \<Rightarrow> u16 \<times> 'g"
  be_gdt0 :: 'g
  be_star_write :: "u16 \<Rightarrow> u16 \<Rightarrow> u16 \<Rightarrow> u16 \<Rightarrow> u64 option"
  be_rsp0_stack :: u64
  be_ist0_stack :: u64
  be_syscall_entry :: u64
  be_cr3 :: u64
  be_page_table :: "u64 \<Rightarrow> u64 \<Rightarrow> 'm"
  be_mapper :: "('m, boot_info_frame_allocator) page_mapper"
  be_heap_init :: "u64 \<Rightarrow> u64 \<Rightarrow> 'h \<Rightarrow> 'h"
  be_elf_parse :: "u8 list \<Rightarrow> (program_header list \<times> u64) option"
  be_init_elf :: "u8 list"
  be_beyond :: "nat \<Rightarrow> u8"
  be_kstack_a :: u64
  be_kstack_b :: u64
  be_kstack_monitor :: u64
  be_queue :: "(u64, 'q) array_queue"
  be_empty_future :: 'f
  be_monitor :: 'f
  be_imr :: u8

text \<open>
  What the kernel asks of the bootloader: a mapping of the physical memory at an address of the bootloader's
  choice, which is why step 2 may expect the offset, and a stack of a megabyte. The other settings keep their
  defaults.
\<close>

datatype mapping = Dynamic | Fixed_Address u64

record bootloader_config =
  bc_physical_memory :: "mapping option"
  bc_kernel_stack_size :: u64

definition BOOTLOADER_CONFIG :: "bootloader_config \<Rightarrow> bootloader_config" where
  "BOOTLOADER_CONFIG new_default =
     new_default\<lparr>bc_physical_memory := Some Dynamic, bc_kernel_stack_size := 1024 * 1024\<rparr>"

record boot_info =
  bi_memory_regions :: "memory_region list"
  bi_physical_memory_offset :: "u64 option"

record ('m, 'h, 'mach) booted =
  bt_machine :: 'mach
  bt_cpu :: cpu
  bt_mapper :: 'm
  bt_frames :: boot_info_frame_allocator
  bt_heap :: 'h
  bt_phys :: memory
  bt_io :: port_log
  bt_first_rsp :: u64

section \<open>The steps\<close>

text \<open>\<^verbatim>\<open>kernel::init\<close>; loading the IDT and remapping the interrupt controllers change no modelled state.\<close>

definition kernel_init :: "('m, 'g, 'f, 'q, 'h) boot_env \<Rightarrow> tss \<Rightarrow> cpu \<Rightarrow> (tss \<times> cpu) outcome" where
  "kernel_init E t c =
     (let sel = get_selectors (build_gdt (be_add_entry E) (be_gdt0 E))
      in bindo (gdt_init (be_api E) sel (be_rsp0_stack E) (be_ist0_stack E) t c) (\<lambda>(t, c).
         bindo (syscall_init (be_api E) (be_star_write E) sel (be_syscall_entry E) c) (\<lambda>c. Ok (t, c))))"

text \<open>Step 2: the frame allocator, the mapper and the heap.\<close>

definition boot_memory :: "('m, 'g, 'f, 'q, 'h) boot_env \<Rightarrow> boot_info \<Rightarrow> 'h \<Rightarrow>
    ('m \<times> boot_info_frame_allocator \<times> 'h) outcome" where
  "boot_memory E info h =
     (let fa = frame_allocator_init (bi_memory_regions info)
      in bindo (expect ''Missing offset'' (bi_physical_memory_offset info)) (\<lambda>off.
         bindo (expect ''VirtAddr::new'' (va_new (be_api E) off)) (\<lambda>phys_mem_offset.
         bindo (init_mapper (be_api E) phys_mem_offset (be_cr3 E)) (\<lambda>virt.
         bindo (init_heap (be_api E) (be_mapper E) (allocate_frame (be_api E)) (be_heap_init E)
                  (be_page_table E virt phys_mem_offset, fa, h)) (\<lambda>r.
           case r of Inl e \<Rightarrow> Panic ''Heap failed'' | Inr st \<Rightarrow> Ok st)))))"

text \<open>Steps 3 and 4: the program image, the two stacks and the two processes.\<close>

definition boot_processes :: "('m, 'g, 'f, 'q, 'h) boot_env \<Rightarrow> 'm \<times> boot_info_frame_allocator \<times> memory \<Rightarrow>
    ('f, 'q, 'x) machine_scheme \<Rightarrow>
    (task_ref \<times> task_ref \<times> ('m \<times> boot_info_frame_allocator \<times> memory) \<times> ('f, 'q, 'x) machine_scheme) outcome" where
  "boot_processes E st g =
     (let A = be_api E; M = be_mapper E; alloc = allocate_frame A;
          sel = get_selectors (build_gdt (be_add_entry E) (be_gdt0 E))
      in bindo (load_elf A (be_elf_parse E) M alloc (be_init_elf E) (be_beyond E) st) (\<lambda>(entry, m, fa, phys).
         let g = println (esc ''[33;1m[INFO]'' @ esc ''[0m Spawning Process A and B (Ring 3)...'') g
         in bindo (setup_user_stack A M alloc 0x30000000 8 (m, fa)) (\<lambda>(top_a, m, fa).
         bindo (create_user_process A sel (be_empty_future E) (be_kstack_a E) entry top_a g) (\<lambda>(a, g).
         bindo (setup_user_stack A M alloc 0x40000000 8 (m, fa)) (\<lambda>(top_b, m, fa).
         bindo (create_user_process A sel (be_empty_future E) (be_kstack_b E) entry top_b g) (\<lambda>(b, g).
           Ok (a, b, (m, fa, phys), g\<lparr>task_list := task_list g @ [a] @ [b]\<rparr>)))))))"

text \<open>Step 5: the monitor task.\<close>

definition boot_monitor :: "('m, 'g, 'f, 'q, 'h) boot_env \<Rightarrow> ('f, 'q, 'x) machine_scheme \<Rightarrow>
    ('f, 'q, 'x) machine_scheme outcome" where
  "boot_monitor E g =
     bindo (task_new (be_api E) (be_kstack_monitor E) (be_monitor E) g) (\<lambda>(mon, g). spawn (be_queue E) mon g)"

text \<open>Step 7 up to the jump: process A becomes the current one, and interrupts are enabled.\<close>

definition boot_enter :: "('m, 'g, 'f, 'q, 'h) boot_env \<Rightarrow> task_ref \<Rightarrow> ('f, 'q, 'x) machine_scheme \<Rightarrow> cpu \<Rightarrow>
    (u64 \<times> ('f, 'q, 'x) machine_scheme \<times> cpu) outcome" where
  "boot_enter E a g c =
     bindo (expect ''VirtAddr::new'' (va_new (be_api E) (t_kernel_stack_top (heap g a)))) (\<lambda>stack.
       (let g = g\<lparr>ktss := set_interrupt_stack stack (ktss g)\<rparr>;
            g = g\<lparr>cur_id := t_id (heap g a)\<rparr>;
            first_rsp = t_kernel_rsp (heap g a)
        in Ok (first_rsp, g, c\<lparr>rflags := rflags c OR flag_IF\<rparr>)))"

definition kernel_main :: "('m, 'g, 'f, 'q, 'h) boot_env \<Rightarrow> boot_info \<Rightarrow> 'h \<Rightarrow> memory \<Rightarrow> cpu \<Rightarrow>
    ('f, 'q, 'x) machine_scheme \<Rightarrow> ('m, 'h, ('f, 'q, 'x) machine_scheme) booted outcome" where
  "kernel_main E info h phys c g =
     (let g = println (CHR 0x0A # esc ''[32;1m[INFO]'' @ esc ''[0m Rust Microkernel booting...'') g
      in bindo (kernel_init E (ktss g) c) (\<lambda>(t, c).
         let g = println ''[INFO] Hardware protection & Syscall MSRs ready.'' (g\<lparr>ktss := t\<rparr>)
         in bindo (boot_memory E info h) (\<lambda>(m, fa, h).
            let g = println ''[INFO] Virtual Memory & Kernel Heap ready.'' g
            in bindo (boot_processes E (m, fa, phys) g) (\<lambda>(a, b, (m, fa, phys), g).
               bindo (boot_monitor E g) (\<lambda>g.
               let io = enable_serial_irq (be_imr E) [];
                   g = println ''[INFO] UART Serial hardware fully unmasked (IRQ 4 active).'' g;
                   g = println (esc ''[32;1m[READY]'' @ esc ''[0m Preemptive Multitasking starting...'') g
               in bindo (boot_enter E a g c) (\<lambda>(first_rsp, g, c).
                  Ok \<lparr>bt_machine = g, bt_cpu = c, bt_mapper = m, bt_frames = fa, bt_heap = h, bt_phys = phys,
                       bt_io = io, bt_first_rsp = first_rsp\<rparr>))))))"

section \<open>What the boot needs\<close>

abbreviation heap_span :: "u64 list" where
  "heap_span \<equiv> pages_between 0x444444440000 0x444444458000"

definition stack_span :: "u64 \<Rightarrow> u64 list" where
  "stack_span base = map (\<lambda>i. base + of_nat i * 4096) [0 ..< 8]"

definition areas_apart :: "u64 \<Rightarrow> nat \<Rightarrow> u64 \<Rightarrow> nat \<Rightarrow> bool" where
  "areas_apart a n b k \<longleftrightarrow> unat a + n \<le> unat b \<or> unat b + k \<le> unat a"

definition kstacks_ok :: "('m, 'g, 'f, 'q, 'h) boot_env \<Rightarrow> bool" where
  "kstacks_ok E \<longleftrightarrow> unat (be_kstack_a E) + 0x8000 < 2 ^ 47 \<and> unat (be_kstack_b E) + 0x8000 < 2 ^ 47
     \<and> unat (be_kstack_monitor E) + 0x4000 < 2 ^ 47
     \<and> areas_apart (be_kstack_a E) 0x8000 (be_kstack_b E) 0x8000
     \<and> areas_apart (be_kstack_a E) 0x8000 (be_kstack_monitor E) 0x4000
     \<and> areas_apart (be_kstack_b E) 0x8000 (be_kstack_monitor E) 0x4000"

text \<open>The statics as the kernel image has them.\<close>

definition fresh_machine :: "('q \<Rightarrow> u64 list) \<Rightarrow> ('q \<Rightarrow> nat) \<Rightarrow> ('f, 'q, 'x) machine_scheme \<Rightarrow> bool" where
  "fresh_machine items room g \<longleftrightarrow> next_id g = 1 \<and> task_list g = [] \<and> \<not> tl_locked g \<and> cur_idx g = 0
     \<and> ex_tasks g = Map.empty \<and> ex_wakers g = Map.empty \<and> registry g = Map.empty
     \<and> items (ex_queue g) = [] \<and> 0 < room (ex_queue g)"

text \<open>The crates behave as documented, and the boot loader's data and the program image are sound.\<close>

definition boot_env_ok :: "('m, 'g, 'f, 'q, 'h) boot_env \<Rightarrow> ('g \<Rightarrow> nat) \<Rightarrow> ('q \<Rightarrow> u64 list) \<Rightarrow> ('q \<Rightarrow> nat) \<Rightarrow> bool" where
  "boot_env_ok E used items room \<longleftrightarrow> x86_api_ok (be_api E) \<and> gdt_laws (be_add_entry E) (be_gdt0 E) used
     \<and> star_laws (be_star_write E) \<and> aq_laws (be_queue E) items room
     \<and> mapper_laws (be_mapper E) (boot_avail (be_api E)) (boot_good (be_api E))
     \<and> lower_half (be_syscall_entry E) \<and> unat (be_rsp0_stack E) + 0x5000 < 2 ^ 47
     \<and> unat (be_ist0_stack E) + 0x5000 < 2 ^ 47 \<and> kstacks_ok E"

definition boot_data_ok :: "('m, 'g, 'f, 'q, 'h) boot_env \<Rightarrow> boot_info \<Rightarrow> program_header list \<Rightarrow> u64 \<Rightarrow> bool" where
  "boot_data_ok E info hs entry \<longleftrightarrow> regions_ok (bi_memory_regions info)
     \<and> (\<exists>off virt. bi_physical_memory_offset info = Some off \<and> va_new (be_api E) off = Some off
          \<and> va_add (be_api E) off (be_cr3 E) = Some virt
          \<and> (\<forall>p \<in> set (heap_span @ program_span hs @ stack_span 0x30000000 @ stack_span 0x40000000).
                unmapped (be_mapper E) (be_page_table E virt off) p))
     \<and> 164 + 4 * length (program_span hs) \<le> length (usable_addrs (bi_memory_regions info))
     \<and> be_elf_parse E (be_init_elf E) = Some (hs, entry) \<and> lower_half entry
     \<and> program_ok (be_init_elf E) hs
     \<and> set (program_span hs) \<inter> set (heap_span @ stack_span 0x30000000 @ stack_span 0x40000000) = {}"

section \<open>Each step succeeds\<close>

lemma kernel_init_Ok:
  assumes "boot_env_ok E used items room"
  shows "\<exists>t' c'. kernel_init E t c = Ok (t', c')"
proof -
  have A: "x86_api_ok (be_api E)" and G: "gdt_laws (be_add_entry E) (be_gdt0 E) used"
    and S: "star_laws (be_star_write E)" and e: "lower_half (be_syscall_entry E)"
    and r: "unat (be_rsp0_stack E) + 0x5000 < 2 ^ 47" "unat (be_ist0_stack E) + 0x5000 < 2 ^ 47"
    using assms by (simp_all add: boot_env_ok_def)
  have "va_new (be_api E) (be_rsp0_stack E) = Some (be_rsp0_stack E)"
    "va_new (be_api E) (be_ist0_stack E) = Some (be_ist0_stack E)"
    "va_add (be_api E) (be_rsp0_stack E) STACK_SIZE = Some (be_rsp0_stack E + STACK_SIZE)"
    "va_add (be_api E) (be_ist0_stack E) STACK_SIZE = Some (be_ist0_stack E + STACK_SIZE)"
    using r by (auto intro!: x86_api_okD[OF A] simp: STACK_SIZE_def)
  moreover have "va_new (be_api E) (be_syscall_entry E) = Some (be_syscall_entry E)"
    by (rule x86_api_okD(1)[OF A e])
  ultimately show ?thesis
    unfolding kernel_init_def Let_def build_gdt_selectors[OF G]
    by (simp add: gdt_init_def star_value[OF S])
qed

lemma fresh_drop: "fresh_supply avail fa \<Longrightarrow> avail fa' = drop k (avail fa) \<Longrightarrow> fresh_supply avail fa'"
  by (auto simp: fresh_supply_def distinct_drop dest: in_set_dropD)

lemma init_heap_run:
  assumes "x86_api_ok A" "mapper_laws M (boot_avail A) (boot_good A)" "boot_good A fa"
    and "fresh_supply (boot_avail A) fa" "100 \<le> length (boot_avail A fa)"
    and "\<forall>p \<in> set heap_span. unmapped M m p"
  shows "\<exists>m' fa' k. init_heap A M (allocate_frame A) heap_init (m, fa, h)
       = Ok (Inr (m', fa', heap_init HEAP_START HEAP_SIZE h))
     \<and> boot_good A fa' \<and> k \<le> 100 \<and> boot_avail A fa' = drop k (boot_avail A fa)
     \<and> (\<forall>p. unmapped M m' p \<longleftrightarrow> unmapped M m p \<and> p \<notin> set heap_span)
     \<and> (\<forall>p. p \<notin> set heap_span \<longrightarrow> walk M m' p = walk M m p)
     \<and> (\<forall>p \<in> set heap_span. \<exists>f. walk M m' p = Some (f, 3))
     \<and> backed M m' (set heap_span) (set (take k (boot_avail A fa)))"
proof -
  have room: "4 * length heap_span \<le> length (boot_avail A fa)" using assms(5) heap_span_ok(2) by simp
  have "mappable M m heap_span" using heap_span_ok(1,3) assms(6) by (simp add: mappable_def)
  from boot_frames.map_pages_ok[OF assms(2,3) room assms(4) this, of "PRESENT OR WRITABLE"]
  obtain m' fa' fs k where r: "map_pages M (allocate_frame A) (PRESENT OR WRITABLE) heap_span (m, fa) = Ok (Inr (m', fa'))"
    "boot_good A fa'" "k \<le> 4 * length heap_span" "boot_avail A fa' = drop k (boot_avail A fa)"
    "maps_to M m m' heap_span fs (PRESENT OR WRITABLE)" "set fs \<subseteq> set (take k (boot_avail A fa))" "distinct fs" by blast
  have "\<exists>f. walk M m' p = Some (f, 3)" if "p \<in> set heap_span" for p
    by (rule maps_to_page[OF r(5) that]) (simp add: PRESENT_def WRITABLE_def)
  moreover have "init_heap A M (allocate_frame A) heap_init (m, fa, h) = Ok (Inr (m', fa', heap_init HEAP_START HEAP_SIZE h))"
    using r(1) by (simp add: init_heap_def heap_pages_span[OF assms(1)])
  ultimately show ?thesis
    using r(2-4) heap_span_ok(2) maps_toD(3,4)[OF r(5)] maps_to_backed[OF r(5,7,6)]
    by (intro exI[of _ m'] exI[of _ fa'] exI[of _ k]) simp
qed

lemma setup_stack_run:
  assumes "x86_api_ok A" "mapper_laws M (boot_avail A) (boot_good A)" "boot_good A fa"
    and "fresh_supply (boot_avail A) fa" "32 \<le> length (boot_avail A fa)"
    and "page_down base = base" "unat base + 0x8000 < 2 ^ 47" "\<forall>p \<in> set (stack_span base). unmapped M m p"
  shows "\<exists>m' fa' k. setup_user_stack A M (allocate_frame A) base 8 (m, fa) = Ok (base + 0x8000, m', fa')
     \<and> boot_good A fa' \<and> k \<le> 32 \<and> boot_avail A fa' = drop k (boot_avail A fa)
     \<and> (\<forall>p. p \<notin> set (stack_span base) \<longrightarrow> walk M m' p = walk M m p)
     \<and> (\<forall>p. unmapped M m' p \<longleftrightarrow> unmapped M m p \<and> p \<notin> set (stack_span base))
     \<and> (\<forall>p \<in> set (stack_span base). \<exists>f. walk M m' p = Some (f, 7))
     \<and> backed M m' (set (stack_span base)) (set (take k (boot_avail A fa)))"
proof -
  have range: "\<forall>i \<in> set [0 ..< 8]. unat base + 4096 * i < 2 ^ 47 \<and> unmapped M m (base + of_nat i * 4096)"
    using assms(7,8) by (auto simp: stack_span_def)
  have room: "4 * length [0 ..< 8 :: nat] \<le> length (boot_avail A fa)" using assms(5) by simp
  from boot_frames.stack_pages_ok[OF assms(1,2,6,3,4) room range distinct_upt]
  obtain m' fa' fs k where r: "stack_pages A M (allocate_frame A) base [0 ..< 8] (m, fa) = Ok (m', fa')"
    "boot_good A fa'" "boot_avail A fa' = drop k (boot_avail A fa)" "k \<le> 4 * length [0 ..< 8 :: nat]"
    "maps_to M m m' (map (\<lambda>i. base + of_nat i * 4096) [0 ..< 8]) fs (PRESENT OR WRITABLE OR USER_ACCESSIBLE)"
    "set fs \<subseteq> set (take k (boot_avail A fa))" "distinct fs"
    by blast
  have "\<exists>f. walk M m' p = Some (f, 7)" if "p \<in> set (stack_span base)" for p
    by (rule maps_to_page[OF r(5) that[unfolded stack_span_def]]) (simp add: PRESENT_def WRITABLE_def USER_ACCESSIBLE_def)
  moreover have va: "va_new A base = Some base" "va_add A base 0x8000 = Some (base + 0x8000)"
    using assms(7) by (auto intro!: x86_api_okD[OF assms(1)])
  have "unat (8 :: u64) = 8" by simp
  then have "setup_user_stack A M (allocate_frame A) base 8 (m, fa) = Ok (base + 0x8000, m', fa')"
    using va r(1) by (simp only: setup_user_stack_def) simp
  ultimately show ?thesis
    using r(2-4) maps_toD(3,4)[OF r(5)] maps_to_backed[OF r(5,7,6)] unfolding stack_span_def
    by (intro exI[of _ m'] exI[of _ fa'] exI[of _ k]) simp
qed

lemma segment_span_pages:
  assumes "segment_ok elf h"
  shows "distinct (segment_span h)" "\<forall>p \<in> set (segment_span h). lower_half p \<and> page_down p = p"
proof -
  note b = segment_bounds(3,4)[OF assms]
  note ok = pages_between_ok[OF lower_page[OF b(1)] lower_page[OF b(2)] page_down_idem page_down_idem]
  show "distinct (segment_span h)" unfolding segment_span_def by (rule ok(1))
  have "lower_half p" if "p \<le> page_down (ph_vaddr h + ph_memsz h - 1)" for p
    using that lower_page[OF b(2)] by (simp add: word_le_nat_alt)
  then show "\<forall>p \<in> set (segment_span h). lower_half p \<and> page_down p = p"
    unfolding segment_span_def using ok(2) by blast
qed

lemma program_mappable:
  assumes "program_ok elf hs" "\<forall>p \<in> set (program_span hs). unmapped M m p" "h \<in> set (load_headers hs)"
  shows "mappable M m (segment_span h)"
proof -
  have "segment_ok elf h" using assms(1,3) unfolding program_ok_def list_all_iff by blast
  moreover have "set (segment_span h) \<subseteq> set (program_span hs)" using assms(3) by (auto simp: program_span_def)
  ultimately show ?thesis using segment_span_pages assms(2) by (auto simp: mappable_def)
qed

lemma loaded_walk:
  assumes "loaded M elf h m phys" "segment_ok elf h" "\<forall>p \<in> set (segment_span h). walk M m' p = walk M m p"
  shows "loaded M elf h m' phys"
proof -
  have "load_byte M m' phys (ph_vaddr h + of_nat i) = load_byte M m phys (ph_vaddr h + of_nat i)"
    if "i < unat (ph_memsz h)" for i
    using segment_addr[OF assms(2) that] assms(3) by (simp add: load_byte_def translate_def)
  then show ?thesis using assms(1,3) by (simp add: loaded_def)
qed

lemma stack_span_bounds:
  "x \<in> set (stack_span 0x30000000) \<Longrightarrow> 0x30000000 \<le> x \<and> x < 0x30008000"
  "x \<in> set (stack_span 0x40000000) \<Longrightarrow> 0x40000000 \<le> x \<and> x < 0x40008000"
  by (auto simp: stack_span_def upt_rec)

lemma heap_span_bounds: "x \<in> set heap_span \<Longrightarrow> 0x444444440000 \<le> x"
proof -
  have pd: "page_down 0x444444440000 = 0x444444440000" "page_down 0x444444458000 = 0x444444458000"
    by (simp_all add: page_down_def)
  show "x \<in> set heap_span \<Longrightarrow> 0x444444440000 \<le> x"
    using pages_between_ok(2)[OF _ _ pd] by simp
qed

lemma spans_apart:
  "set heap_span \<inter> set (stack_span 0x30000000) = {}" "set heap_span \<inter> set (stack_span 0x40000000) = {}"
  "set (stack_span 0x30000000) \<inter> set (stack_span 0x40000000) = {}"
proof -
  have "\<not> (0x444444440000 \<le> x \<and> x < 0x30008000)" "\<not> (0x444444440000 \<le> x \<and> x < 0x40008000)"
    "\<not> (0x40000000 \<le> x \<and> x < 0x30008000)" for x :: u64
    by (auto simp: word_le_nat_alt word_less_nat_alt)
  then show "set heap_span \<inter> set (stack_span 0x30000000) = {}" "set heap_span \<inter> set (stack_span 0x40000000) = {}"
    "set (stack_span 0x30000000) \<inter> set (stack_span 0x40000000) = {}"
    using heap_span_bounds stack_span_bounds by (metis disjoint_iff)+
qed

section \<open>Kernel stacks do not disturb each other\<close>

lemma unat_areas_apart:
  assumes "areas_apart a n b k" "unat a + n < 2 ^ 47" "unat b + k < 2 ^ 47" "i < n"
  shows "k \<le> unat (a + of_nat i - b)"
proof -
  have u: "unat (a + of_nat i) = unat a + i" using assms(2,4) by (intro unat_add_of_nat) simp
  show ?thesis
  proof (cases "unat b + k \<le> unat a")
    case True
    then have "unat (a + of_nat i - b) = unat a + i - unat b"
      using u by (subst unat_sub) (simp_all add: word_le_nat_alt)
    then show ?thesis using True by simp
  next
    case False
    then have less: "unat a + i < unat b" using assms(1,4) by (simp add: areas_apart_def)
    define d where "d = b - (a + of_nat i)"
    have d: "unat d = unat b - (unat a + i)"
      unfolding d_def using less u by (subst unat_sub) (simp_all add: word_le_nat_alt)
    then have "d \<noteq> 0" using less by auto
    then have "unat (- d) = 2 ^ 64 - unat d" by (rule unat64_neg)
    then show ?thesis using d assms(3) by (simp add: d_def)
  qed
qed

lemma kstack_private:
  assumes "0x8000 \<le> unat (x - kstack)" "length ws = 20"
  shows "fst (push_all (mem_fill m kstack 0 0x8000, kstack + 0x8000) ws) x = m x"
proof -
  have "x - (kstack + 0x7F60) = (x - kstack) - 0x7F60" by simp
  also have "unat \<dots> = unat (x - kstack) - 0x7F60"
    using assms(1) by (subst unat_sub) (simp_all add: word_le_nat_alt)
  finally have "160 \<le> unat (x - (kstack + 0x7F60))" using assms(1) by linarith
  then have "fst (push_all (mem_fill m kstack 0 0x8000, kstack + 0x8000) ws) x = mem_fill m kstack 0 0x8000 x"
    using assms(2) by (intro push_all_other) (simp_all add: algebra_simps)
  then show ?thesis using assms(1) by (simp add: mem_fill_other)
qed

definition process_frame :: "u64 \<Rightarrow> u64 \<Rightarrow> u64 list" where
  "process_frame entry ustack = replicate 15 0 @ [entry, 0x33, 0x202, ustack, 0x2b]"

lemma initial_frame_kernel: "rev (initial_frame kernel_selectors entry ustack) = process_frame entry ustack"
  by (simp add: initial_frame_def process_frame_def kernel_selectors_def)

lemma machine_more:
  fixes g g' :: "('f, 'q, 'x) machine_scheme"
  assumes "task_globals.more g' = task_globals.more g"
  shows "task_list g' = task_list g" "tl_locked g' = tl_locked g" "cur_idx g' = cur_idx g"
    "ex_tasks g' = ex_tasks g" "ex_wakers g' = ex_wakers g" "ex_queue g' = ex_queue g" "ktss g' = ktss g"
  using assms by (cases g, cases g', simp)+

text \<open>Creating a user process during the boot.\<close>

lemma boot_process:
  fixes g :: "('f, 'q, 'x) machine_scheme"
  assumes "x86_api_ok A" "unat kstack + 0x8000 < 2 ^ 47"
  shows "\<exists>g'. create_user_process A kernel_selectors fut kstack entry ustack g = Ok (next_ref g, g')
    \<and> frame (kmem g') (kstack + 0x7F60) 20 = process_frame entry ustack
    \<and> (\<forall>x. 0x8000 \<le> unat (x - kstack) \<longrightarrow> kmem g' x = kmem g x)
    \<and> heap g' = (heap g)(next_ref g := \<lparr>t_id = next_id g, t_state = Ready, t_priority = 5,
        t_future = fut, t_kernel_rsp = kstack + 0x7F60, t_kernel_stack_top = kstack + 0x8000,
        t_mailbox = None, t_waker = None\<rparr>)
    \<and> next_ref g' = next_ref g + 1 \<and> next_id g' = next_id g + 1 \<and> cur_id g' = cur_id g
    \<and> registry g' = registry g \<and> task_list g' = task_list g \<and> tl_locked g' = tl_locked g
    \<and> cur_idx g' = cur_idx g \<and> ex_tasks g' = ex_tasks g \<and> ex_wakers g' = ex_wakers g
    \<and> ex_queue g' = ex_queue g \<and> ktss g' = ktss g"
proof -
  have b: "unat kstack + 4096 * 8 < 2 ^ 47" using assms(2) by simp
  obtain g' where g': "create_user_process A kernel_selectors fut kstack entry ustack g = Ok (next_ref g, g')"
    "kmem g' = fst (push_all (mem_fill (kmem g) kstack 0 0x8000, kstack + 0x8000)
                      (initial_frame kernel_selectors entry ustack))"
    "heap g' = (heap g)(next_ref g := \<lparr>t_id = next_id g, t_state = Ready, t_priority = 5,
        t_future = fut, t_kernel_rsp = kstack + 0x8000 - 160, t_kernel_stack_top = kstack + 0x8000,
        t_mailbox = None, t_waker = None\<rparr>)"
    "next_ref g' = next_ref g + 1" "next_id g' = next_id g + 1" "cur_id g' = cur_id g"
    "registry g' = registry g" "task_globals.more g' = task_globals.more g"
    using create_user_process_Ok[OF assms(1) b, of kernel_selectors fut entry ustack g] by blast
  have len: "length (initial_frame kernel_selectors entry ustack) = 20" by (simp add: initial_frame_def)
  have "frame (kmem g') (kstack + 0x7F60) 20 = process_frame entry ustack"
    using push_all_frame[of "initial_frame kernel_selectors entry ustack" "mem_fill (kmem g) kstack 0 0x8000"
        "kstack + 0x8000"] len g'(2) by (simp add: initial_frame_kernel algebra_simps)
  moreover have "\<forall>x. 0x8000 \<le> unat (x - kstack) \<longrightarrow> kmem g' x = kmem g x"
    unfolding g'(2) using kstack_private len by blast
  ultimately show ?thesis using g'(1,3-7) machine_more[OF g'(8)] by (simp add: algebra_simps)
qed

section \<open>The booted kernel\<close>

text \<open>
  What step 2 leaves in the page tables: the heap's own pages, not accessible to ring 3, and elsewhere what
  the boot loader had mapped.
\<close>

definition heap_mapped :: "('m, 'g, 'f, 'q, 'h) boot_env \<Rightarrow> boot_info \<Rightarrow> 'm \<Rightarrow> boot_info_frame_allocator \<Rightarrow> bool" where
  "heap_mapped E info m fa \<longleftrightarrow>
     own_pages (be_mapper E) (boot_avail (be_api E)) (set (usable_addrs (bi_memory_regions info))) m fa (set heap_span)
   \<and> (\<forall>p \<in> set heap_span. \<exists>f. walk (be_mapper E) m p = Some (f, 3))
   \<and> (\<exists>virt off. \<forall>p. p \<notin> set heap_span \<longrightarrow> walk (be_mapper E) m p = walk (be_mapper E) (be_page_table E virt off) p)"

lemma boot_memory_Ok:
  assumes "boot_env_ok E used items room" "boot_data_ok E info hs entry"
  shows "\<exists>m fa. boot_memory E info h = Ok (m, fa, be_heap_init E HEAP_START HEAP_SIZE h)
     \<and> boot_good (be_api E) fa \<and> fresh_supply (boot_avail (be_api E)) fa
     \<and> 64 + 4 * length (program_span hs) \<le> length (boot_avail (be_api E) fa)
     \<and> (\<forall>p \<in> set (program_span hs @ stack_span 0x30000000 @ stack_span 0x40000000). unmapped (be_mapper E) m p)
     \<and> heap_mapped E info m fa"
proof -
  let ?A = "be_api E" and ?M = "be_mapper E" and ?fa = "frame_allocator_init (bi_memory_regions info)"
  have A: "x86_api_ok ?A" and L: "mapper_laws ?M (boot_avail ?A) (boot_good ?A)"
    using assms(1) by (simp_all add: boot_env_ok_def)
  have R: "regions_ok (bi_memory_regions info)"
    and n: "164 + 4 * length (program_span hs) \<le> length (usable_addrs (bi_memory_regions info))"
    and ap: "set (program_span hs) \<inter> set heap_span = {}"
    using assms(2) by (auto simp: boot_data_ok_def)
  obtain off virt where o: "bi_physical_memory_offset info = Some off" "va_new ?A off = Some off"
    "va_add ?A off (be_cr3 E) = Some virt"
    and free: "\<forall>p \<in> set (heap_span @ program_span hs @ stack_span 0x30000000 @ stack_span 0x40000000).
                unmapped ?M (be_page_table E virt off) p"
    using assms(2) unfolding boot_data_ok_def by blast
  have good: "boot_good ?A ?fa" and av: "boot_avail ?A ?fa = usable_addrs (bi_memory_regions info)"
    by (rule boot_start[OF A R])+
  have fresh: "fresh_supply (boot_avail ?A) ?fa"
    using R by (intro boot_fresh) (simp add: frame_allocator_init_def)
  have "100 \<le> length (boot_avail ?A ?fa)" "\<forall>p \<in> set heap_span. unmapped ?M (be_page_table E virt off) p"
    using n av free by simp_all
  from init_heap_run[OF A L good fresh this, of "be_heap_init E" h]
  obtain m fa k where r: "init_heap ?A ?M (allocate_frame ?A) (be_heap_init E) (be_page_table E virt off, ?fa, h)
       = Ok (Inr (m, fa, be_heap_init E HEAP_START HEAP_SIZE h))"
    "boot_good ?A fa" "k \<le> 100" "boot_avail ?A fa = drop k (boot_avail ?A ?fa)"
    "\<forall>p. unmapped ?M m p \<longleftrightarrow> unmapped ?M (be_page_table E virt off) p \<and> p \<notin> set heap_span"
    "\<forall>p. p \<notin> set heap_span \<longrightarrow> walk ?M m p = walk ?M (be_page_table E virt off) p"
    "\<forall>p \<in> set heap_span. \<exists>f. walk ?M m p = Some (f, 3)"
    "backed ?M m (set heap_span) (set (take k (boot_avail ?A ?fa)))" by blast
  have "own_pages ?M (boot_avail ?A) (set (usable_addrs (bi_memory_regions info))) (be_page_table E virt off) ?fa {}"
    using av by (intro own_pages_start) simp
  from own_pages_extend[OF this r(8,6) _ fresh r(4)]
  have "heap_mapped E info m fa" using r(6,7) unfolding heap_mapped_def by auto
  moreover have "boot_memory E info h = Ok (m, fa, be_heap_init E HEAP_START HEAP_SIZE h)"
    using o r(1) by (simp add: boot_memory_def init_mapper_def del: bindo_Ok_iff)
  moreover have "64 + 4 * length (program_span hs) \<le> length (boot_avail ?A fa)" using r(3,4) n av by simp
  moreover have "\<forall>p \<in> set (program_span hs @ stack_span 0x30000000 @ stack_span 0x40000000). unmapped ?M m p"
    using r(5) free ap spans_apart by auto
  ultimately show ?thesis using r(2) fresh_drop[OF fresh r(4)] by blast
qed

definition process_of :: "u64 \<Rightarrow> 'f \<Rightarrow> u64 \<Rightarrow> 'f task" where
  "process_of i fut kstack = \<lparr>t_id = i, t_state = Ready, t_priority = 5, t_future = fut,
     t_kernel_rsp = kstack + 0x7F60, t_kernel_stack_top = kstack + 0x8000, t_mailbox = None, t_waker = None\<rparr>"

text \<open>
  What steps 3 and 4 leave there: program, stacks and heap on frames of their own, the stacks accessible to
  ring 3, every other page as the boot loader had it.
\<close>

definition user_pages_mapped :: "('m, 'g, 'f, 'q, 'h) boot_env \<Rightarrow> boot_info \<Rightarrow> program_header list \<Rightarrow> 'm \<Rightarrow> bool" where
  "user_pages_mapped E info hs m \<longleftrightarrow>
     backed (be_mapper E) m (set (heap_span @ program_span hs @ stack_span 0x30000000 @ stack_span 0x40000000))
       (set (usable_addrs (bi_memory_regions info)))
   \<and> (\<forall>p \<in> set heap_span. \<exists>f. walk (be_mapper E) m p = Some (f, 3))
   \<and> (\<forall>p \<in> set (stack_span 0x30000000 @ stack_span 0x40000000). \<exists>f. walk (be_mapper E) m p = Some (f, 7))
   \<and> (\<exists>virt off. \<forall>p. p \<notin> set (heap_span @ program_span hs @ stack_span 0x30000000 @ stack_span 0x40000000) \<longrightarrow>
        walk (be_mapper E) m p = walk (be_mapper E) (be_page_table E virt off) p)"

lemma boot_processes_Ok:
  fixes g :: "('f, 'q, 'x) machine_scheme"
  assumes E: "boot_env_ok E used items room" and D: "boot_data_ok E info hs entry" and g: "fresh_machine items room g"
    and fa: "boot_good (be_api E) fa" "fresh_supply (boot_avail (be_api E)) fa"
      "64 + 4 * length (program_span hs) \<le> length (boot_avail (be_api E) fa)"
    and free: "\<forall>p \<in> set (program_span hs @ stack_span 0x30000000 @ stack_span 0x40000000). unmapped (be_mapper E) m p"
    and heap: "heap_mapped E info m fa"
  shows "\<exists>m' fa' phys' g'. boot_processes E (m, fa, phys) g = Ok (next_ref g, next_ref g + 1, (m', fa', phys'), g')
     \<and> task_list g' = [next_ref g, next_ref g + 1] \<and> next_ref g' = next_ref g + 2 \<and> next_id g' = 3
     \<and> heap g' = (heap g)(next_ref g := process_of 1 (be_empty_future E) (be_kstack_a E),
                          next_ref g + 1 := process_of 2 (be_empty_future E) (be_kstack_b E))
     \<and> frame (kmem g') (be_kstack_a E + 0x7F60) 20 = process_frame entry 0x30008000
     \<and> frame (kmem g') (be_kstack_b E + 0x7F60) 20 = process_frame entry 0x40008000
     \<and> registry g' = registry g \<and> tl_locked g' = tl_locked g \<and> cur_idx g' = cur_idx g
     \<and> ex_tasks g' = ex_tasks g \<and> ex_wakers g' = ex_wakers g \<and> ex_queue g' = ex_queue g
     \<and> (\<forall>h \<in> set (load_headers hs). loaded (be_mapper E) (be_init_elf E) h m' phys')
     \<and> user_pages_mapped E info hs m'"
proof -
  let ?A = "be_api E" and ?M = "be_mapper E" and ?elf = "be_init_elf E"
  have A: "x86_api_ok ?A" and L: "mapper_laws ?M (boot_avail ?A) (boot_good ?A)"
    and G: "gdt_laws (be_add_entry E) (be_gdt0 E) used" and K: "kstacks_ok E"
    using E by (simp_all add: boot_env_ok_def)
  have P: "program_ok ?elf hs" "be_elf_parse E ?elf = Some (hs, entry)" "lower_half entry"
    and ap: "set (program_span hs) \<inter> set (stack_span 0x30000000) = {}"
      "set (program_span hs) \<inter> set (stack_span 0x40000000) = {}"
    using D by (auto simp: boot_data_ok_def)
  have "\<forall>h \<in> set (load_headers hs). mappable ?M m (segment_span h)"
    by (intro ballI program_mappable[OF P(1)]) (use free in auto)
  moreover have "4 * length (program_span hs) \<le> length (boot_avail ?A fa)" using fa(3) by simp
  ultimately obtain m1 fa1 ph1 k1 where
    s1: "load_segments ?A ?M (allocate_frame ?A) ?elf (be_beyond E) hs (m, fa, phys) = Ok (m1, fa1, ph1)"
    "boot_good ?A fa1" "boot_avail ?A fa1 = drop k1 (boot_avail ?A fa)"
    "\<forall>h \<in> set (load_headers hs). loaded ?M ?elf h m1 ph1"
    "\<forall>p. unmapped ?M m1 p \<longleftrightarrow> unmapped ?M m p \<and> p \<notin> set (program_span hs)"
    "k1 \<le> 4 * length (program_span hs)" "\<forall>p. p \<notin> set (program_span hs) \<longrightarrow> walk ?M m1 p = walk ?M m p"
    "backed ?M m1 (set (program_span hs)) (set (take k1 (boot_avail ?A fa)))"
    using boot_frames.load_segments_ok[OF A L P(1) fa(1,2), of m "be_beyond E" phys] by blast
  have elf: "load_elf ?A (be_elf_parse E) ?M (allocate_frame ?A) ?elf (be_beyond E) (m, fa, phys) = Ok (entry, m1, fa1, ph1)"
    using s1(1) P(2) x86_api_okD(1)[OF A P(3)] by (simp add: load_elf_def)
  have f1: "fresh_supply (boot_avail ?A) fa1" by (rule fresh_drop[OF fa(2) s1(3)])
  have room1: "32 \<le> length (boot_avail ?A fa1)" using s1(3,6) fa(3) by simp
  have al: "page_down 0x30000000 = 0x30000000" "page_down 0x40000000 = 0x40000000" by (simp_all add: page_down_def)
  have free1: "\<forall>p \<in> set (stack_span 0x30000000). unmapped ?M m1 p" using free s1(5) ap by auto
  obtain m2 fa2 k2 where s2: "setup_user_stack ?A ?M (allocate_frame ?A) 0x30000000 8 (m1, fa1) = Ok (0x30008000, m2, fa2)"
    "boot_good ?A fa2" "k2 \<le> 32" "boot_avail ?A fa2 = drop k2 (boot_avail ?A fa1)"
    "\<forall>p. p \<notin> set (stack_span 0x30000000) \<longrightarrow> walk ?M m2 p = walk ?M m1 p"
    "\<forall>p. unmapped ?M m2 p \<longleftrightarrow> unmapped ?M m1 p \<and> p \<notin> set (stack_span 0x30000000)"
    "\<forall>p \<in> set (stack_span 0x30000000). \<exists>f. walk ?M m2 p = Some (f, 7)"
    "backed ?M m2 (set (stack_span 0x30000000)) (set (take k2 (boot_avail ?A fa1)))"
    using setup_stack_run[OF A L s1(2) f1 room1 al(1) _ free1] by auto
  have f2: "fresh_supply (boot_avail ?A) fa2" by (rule fresh_drop[OF f1 s2(4)])
  have room2: "32 \<le> length (boot_avail ?A fa2)" using s1(3,6) s2(3,4) fa(3) by simp
  have free2: "\<forall>p \<in> set (stack_span 0x40000000). unmapped ?M m2 p" using free s1(5) s2(6) ap spans_apart(3) by auto
  obtain m3 fa3 k3 where s3: "setup_user_stack ?A ?M (allocate_frame ?A) 0x40000000 8 (m2, fa2) = Ok (0x40008000, m3, fa3)"
    "\<forall>p. p \<notin> set (stack_span 0x40000000) \<longrightarrow> walk ?M m3 p = walk ?M m2 p"
    "boot_avail ?A fa3 = drop k3 (boot_avail ?A fa2)"
    "\<forall>p \<in> set (stack_span 0x40000000). \<exists>f. walk ?M m3 p = Some (f, 7)"
    "backed ?M m3 (set (stack_span 0x40000000)) (set (take k3 (boot_avail ?A fa2)))"
    using setup_stack_run[OF A L s2(2) f2 room2 al(2) _ free2] by auto
  have mapped: "user_pages_mapped E info hs m3"
  proof -
    let ?U = "set (usable_addrs (bi_memory_regions info))" and ?H = "set heap_span" and ?P = "set (program_span hs)"
      and ?A3 = "set (stack_span 0x30000000)" and ?B4 = "set (stack_span 0x40000000)"
    have hp: "?H \<inter> ?P = {}" using D by (auto simp: boot_data_ok_def)
    have o: "own_pages ?M (boot_avail ?A) ?U m fa ?H" using heap by (simp add: heap_mapped_def)
    have o1: "own_pages ?M (boot_avail ?A) ?U m1 fa1 (?H \<union> ?P)"
      by (rule own_pages_extend[OF o s1(8,7) hp fa(2) s1(3)])
    have o2: "own_pages ?M (boot_avail ?A) ?U m2 fa2 (?H \<union> ?P \<union> ?A3)"
      using ap(1) spans_apart(1) by (intro own_pages_extend[OF o1 s2(8,5) _ f1 s2(4)]) auto
    have o3: "own_pages ?M (boot_avail ?A) ?U m3 fa3 (?H \<union> ?P \<union> ?A3 \<union> ?B4)"
      using ap(2) spans_apart(2,3) by (intro own_pages_extend[OF o2 s3(5,2) _ f2 s3(3)]) auto
    have "backed ?M m3 (?H \<union> ?P \<union> ?A3 \<union> ?B4) ?U" using o3 unfolding own_pages_def by (blast intro: backed_mono)
    moreover have keep: "walk ?M m3 p = walk ?M m p" if "p \<notin> ?P" "p \<notin> ?A3" "p \<notin> ?B4" for p
      using that s1(7) s2(5) s3(2) by simp
    have "\<exists>f. walk ?M m3 p = Some (f, 3)" if "p \<in> ?H" for p
      using that heap keep[of p] hp spans_apart(1,2) unfolding heap_mapped_def by (metis disjoint_iff)
    moreover have "\<exists>f. walk ?M m3 p = Some (f, 7)" if "p \<in> ?A3" for p
      using that s2(7) s3(2) spans_apart(3) by (metis disjoint_iff)
    moreover have "\<exists>virt off. \<forall>p. p \<notin> ?H \<union> ?P \<union> ?A3 \<union> ?B4 \<longrightarrow> walk ?M m3 p = walk ?M (be_page_table E virt off) p"
      using heap keep unfolding heap_mapped_def by (metis UnI1 UnI2)
    ultimately show ?thesis using s3(4) by (auto simp: user_pages_mapped_def Un_assoc)
  qed
  have ka: "unat (be_kstack_a E) + 0x8000 < 2 ^ 47" and kb: "unat (be_kstack_b E) + 0x8000 < 2 ^ 47"
    and kab: "areas_apart (be_kstack_a E) 0x8000 (be_kstack_b E) 0x8000"
    using K by (simp_all add: kstacks_ok_def)
  define gp where "gp = println (esc ''[33;1m[INFO]'' @ esc ''[0m Spawning Process A and B (Ring 3)...'') g"
  obtain ga where ga: "create_user_process ?A kernel_selectors (be_empty_future E) (be_kstack_a E) entry 0x30008000 gp = Ok (next_ref g, ga)"
    "frame (kmem ga) (be_kstack_a E + 0x7F60) 20 = process_frame entry 0x30008000"
    "heap ga = (heap g)(next_ref g := process_of (next_id g) (be_empty_future E) (be_kstack_a E))"
    "next_ref ga = next_ref g + 1" "next_id ga = next_id g + 1" "registry ga = registry g" "task_list ga = task_list g"
    "tl_locked ga = tl_locked g" "cur_idx ga = cur_idx g" "ex_tasks ga = ex_tasks g" "ex_wakers ga = ex_wakers g"
    "ex_queue ga = ex_queue g"
    using boot_process[OF A ka, of "be_empty_future E" entry "0x30008000" gp] by (auto simp: process_of_def gp_def println_def)
  obtain gb where gb: "create_user_process ?A kernel_selectors (be_empty_future E) (be_kstack_b E) entry 0x40008000 ga = Ok (next_ref ga, gb)"
    "frame (kmem gb) (be_kstack_b E + 0x7F60) 20 = process_frame entry 0x40008000"
    "\<forall>x. 0x8000 \<le> unat (x - be_kstack_b E) \<longrightarrow> kmem gb x = kmem ga x"
    "heap gb = (heap ga)(next_ref ga := process_of (next_id ga) (be_empty_future E) (be_kstack_b E))"
    "next_ref gb = next_ref ga + 1" "next_id gb = next_id ga + 1" "registry gb = registry ga" "task_list gb = task_list ga"
    "tl_locked gb = tl_locked ga" "cur_idx gb = cur_idx ga" "ex_tasks gb = ex_tasks ga" "ex_wakers gb = ex_wakers ga"
    "ex_queue gb = ex_queue ga"
    using boot_process[OF A kb, of "be_empty_future E" entry "0x40008000" ga] unfolding process_of_def by blast
  have "frame (kmem gb) (be_kstack_a E + 0x7F60) 20 = frame (kmem ga) (be_kstack_a E + 0x7F60) 20"
  proof (rule frame_cong)
    fix i :: nat assume i: "i < 8 * 20"
    have "0x8000 \<le> unat (be_kstack_a E + of_nat (0x7F60 + i) - be_kstack_b E)"
      using i by (intro unat_areas_apart[OF kab ka kb]) simp
    then have "0x8000 \<le> unat (be_kstack_a E + 0x7F60 + of_nat i - be_kstack_b E)"
      by (simp add: add.assoc)
    then show "kmem gb (be_kstack_a E + 0x7F60 + of_nat i) = kmem ga (be_kstack_a E + 0x7F60 + of_nat i)"
      using gb(3) by blast
  qed
  then have fr: "frame (kmem gb) (be_kstack_a E + 0x7F60) 20 = process_frame entry 0x30008000" using ga(2) by simp
  have ld: "loaded ?M ?elf h m3 ph1" if h: "h \<in> set (load_headers hs)" for h
  proof (rule loaded_walk)
    show "loaded ?M ?elf h m1 ph1" using s1(4) h by blast
    show "segment_ok ?elf h" using P(1) h unfolding program_ok_def list_all_iff by blast
    show "\<forall>p \<in> set (segment_span h). walk ?M m3 p = walk ?M m1 p"
    proof
      fix p assume "p \<in> set (segment_span h)"
      then have "p \<in> set (program_span hs)" using h by (auto simp: program_span_def)
      then have "p \<notin> set (stack_span 0x30000000)" "p \<notin> set (stack_span 0x40000000)" using ap by (meson disjoint_iff)+
      then show "walk ?M m3 p = walk ?M m1 p" using s2(5) s3(2) by simp
    qed
  qed
  define g' where "g' = gb\<lparr>task_list := task_list gb @ [next_ref g] @ [next_ref ga]\<rparr>"
  have "boot_processes E (m, fa, phys) g = Ok (next_ref g, next_ref ga, (m3, fa3, ph1), g')"
    unfolding boot_processes_def Let_def build_gdt_selectors[OF G]
    using elf s2(1) s3(1) ga(1) gb(1) by (simp add: g'_def gp_def[symmetric] del: bindo_Ok_iff)
  then show ?thesis
    using ga gb fr ld g mapped by (simp add: g'_def fresh_machine_def)
qed

lemma boot_monitor_Ok:
  fixes g :: "('f, 'q, 'x) machine_scheme"
  assumes "boot_env_ok E used items room" "ex_tasks g = Map.empty" "ex_wakers g = Map.empty"
    and "items (ex_queue g) = []" "0 < room (ex_queue g)"
  shows "\<exists>g'. boot_monitor E g = Ok g' \<and> exec_ok g' \<and> items (ex_queue g') = [next_id g]
     \<and> ex_tasks g' = [next_id g \<mapsto> next_ref g] \<and> (\<forall>r \<noteq> next_ref g. heap g' r = heap g r)
     \<and> (\<forall>x. 0x4000 \<le> unat (x - be_kstack_monitor E) \<longrightarrow> kmem g' x = kmem g x)
     \<and> task_list g' = task_list g \<and> tl_locked g' = tl_locked g \<and> cur_idx g' = cur_idx g"
proof -
  have A: "x86_api_ok (be_api E)" and Q: "aq_laws (be_queue E) items room"
    and k: "unat (be_kstack_monitor E) + 0x4000 < 2 ^ 47"
    using assms(1) by (simp_all add: boot_env_ok_def kstacks_ok_def)
  have va: "va_new (be_api E) (be_kstack_monitor E) = Some (be_kstack_monitor E)"
    "va_add (be_api E) (be_kstack_monitor E) 0x4000 = Some (be_kstack_monitor E + 0x4000)"
    using k by (auto intro!: x86_api_okD[OF A])
  obtain q where q: "aq_push (be_queue E) (ex_queue g) (next_id g) = Some q" "items q = [next_id g]"
    using aq_push_room[OF Q, of "ex_queue g" "next_id g"] assms(4,5) by auto
  have other: "mem_fill (kmem g) (be_kstack_monitor E) 0 0x4000 x = kmem g x"
    if "0x4000 \<le> unat (x - be_kstack_monitor E)" for x
    using that by (simp add: mem_fill_other)
  show ?thesis
    using va q(1) assms(2,3) unfolding boot_monitor_def task_new_def
    by (simp add: Let_def KSTACK_SIZE_KERNEL_def task_id_new_def arc_new_def spawn_def exec_ok_def q(2) other)
qed

lemma fresh_machine_io [simp]:
  "fresh_machine items room (println s g) = fresh_machine items room g"
  "fresh_machine items room (g\<lparr>ktss := t\<rparr>) = fresh_machine items room g"
  by (simp_all add: fresh_machine_def println_def)

lemma boot_process_frames:
  fixes g :: "('f, 'q, 'x) machine_scheme"
  assumes "kstacks_ok E"
    and "\<forall>x. 0x4000 \<le> unat (x - be_kstack_monitor E) \<longrightarrow> kmem g' x = kmem g x"
  shows "frame (kmem g') (be_kstack_a E + 0x7F60) 20 = frame (kmem g) (be_kstack_a E + 0x7F60) 20"
    "frame (kmem g') (be_kstack_b E + 0x7F60) 20 = frame (kmem g) (be_kstack_b E + 0x7F60) 20"
proof -
  note k = assms(1)[unfolded kstacks_ok_def]
  have keep: "frame (kmem g') (a + 0x7F60) 20 = frame (kmem g) (a + 0x7F60) 20"
    if "unat a + 0x8000 < 2 ^ 47" "areas_apart a 0x8000 (be_kstack_monitor E) 0x4000" for a
  proof (rule frame_cong)
    fix i :: nat assume i: "i < 8 * 20"
    have "0x4000 \<le> unat (a + of_nat (0x7F60 + i) - be_kstack_monitor E)"
      using i k by (intro unat_areas_apart[OF that(2,1)]) simp_all
    then have "0x4000 \<le> unat (a + 0x7F60 + of_nat i - be_kstack_monitor E)" by (simp add: add.assoc)
    then show "kmem g' (a + 0x7F60 + of_nat i) = kmem g (a + 0x7F60 + of_nat i)" using assms(2) by blast
  qed
  show "frame (kmem g') (be_kstack_a E + 0x7F60) 20 = frame (kmem g) (be_kstack_a E + 0x7F60) 20"
    "frame (kmem g') (be_kstack_b E + 0x7F60) 20 = frame (kmem g) (be_kstack_b E + 0x7F60) 20"
    using k by (auto intro!: keep)
qed

lemma first_jump_frame:
  "saved_ctx (exec (first_jump rsp) (c\<lparr>cmem := m\<rparr>)) = frame m rsp 20"
  using restore_frame[of "exec1 (MovImm RSP rsp) (c\<lparr>cmem := m\<rparr>)"] by (simp add: first_jump_def)

text \<open>The two processes of the task list, as the scheduler finds them after the boot.\<close>

definition two_processes :: "('m, 'g, 'f, 'q, 'h) boot_env \<Rightarrow> ('f, 'q, 'x) machine_scheme \<Rightarrow> bool" where
  "two_processes E m \<longleftrightarrow> length (task_list m) = 2 \<and> \<not> tl_locked m \<and> cur_idx m = 0
     \<and> listed m 0 = process_of 1 (be_empty_future E) (be_kstack_a E)
     \<and> listed m 1 = process_of 2 (be_empty_future E) (be_kstack_b E)"

lemma two_processes_sched_ok:
  assumes "x86_api_ok (be_api E)" "kstacks_ok E" "two_processes E m"
  shows "sched_ok (be_api E) m"
proof -
  have k: "unat (be_kstack_a E) + 0x8000 < 2 ^ 47" "unat (be_kstack_b E) + 0x8000 < 2 ^ 47"
    using assms(2) by (simp_all add: kstacks_ok_def)
  have "va_new (be_api E) (s + 0x8000) = Some (s + 0x8000)" if "unat s + 0x8000 < 2 ^ 47" for s
    using that unat_add_of_nat[of s "0x8000"] by (intro x86_api_okD(1)[OF assms(1)]) simp
  then have v: "va_new (be_api E) (t_kernel_stack_top (listed m i)) = Some (t_kernel_stack_top (listed m i))"
    if "i < 2" for i
    using that assms(3) k by (auto simp: two_processes_def process_of_def less_2_cases_iff)
  have l: "length (task_list m) = 2" and ne: "listed m 0 \<noteq> listed m 1"
    using assms(3) by (auto simp: two_processes_def process_of_def)
  then obtain a b where ab: "task_list m = [a, b]" by (auto simp: length_Suc_conv eval_nat_numeral)
  show ?thesis
    using v[of 0] v[of 1] ne assms(3) by (auto simp: sched_ok_def two_processes_def ab listed_def)
qed

lemma kernel_main_run:
  fixes g :: "('f, 'q, 'x) machine_scheme"
  assumes "boot_env_ok E used items room" and "boot_data_ok E info hs entry" and "fresh_machine items room g"
  shows "\<exists>r. kernel_main E info h phys c g = Ok r \<and> kernel_ok (be_api E) (bt_machine r)
     \<and> two_processes E (bt_machine r) \<and> cur_id (bt_machine r) = 1
     \<and> rsp0 (ktss (bt_machine r)) = be_kstack_a E + 0x8000
     \<and> items (ex_queue (bt_machine r)) = [3]
     \<and> bt_heap r = be_heap_init E HEAP_START HEAP_SIZE h
     \<and> (\<forall>h \<in> set (load_headers hs). loaded (be_mapper E) (be_init_elf E) h (bt_mapper r) (bt_phys r))
     \<and> saved_ctx (exec (first_jump (bt_first_rsp r)) ((bt_cpu r)\<lparr>cmem := kmem (bt_machine r)\<rparr>))
         = process_frame entry 0x30008000
     \<and> frame (kmem (bt_machine r)) (t_kernel_rsp (listed (bt_machine r) 1)) 20 = process_frame entry 0x40008000
     \<and> user_pages_mapped E info hs (bt_mapper r)"
proof -
  let ?M = "be_mapper E"
  have A: "x86_api_ok (be_api E)" and K: "kstacks_ok E" using assms(1) by (simp_all add: boot_env_ok_def)
  define g0 where "g0 = println (CHR 0x0A # esc ''[32;1m[INFO]'' @ esc ''[0m Rust Microkernel booting...'') g"
  obtain t c' where init: "kernel_init E (ktss g0) c = Ok (t, c')" using kernel_init_Ok[OF assms(1)] by blast
  define g1 where "g1 = println ''[INFO] Virtual Memory & Kernel Heap ready.''
     (println ''[INFO] Hardware protection & Syscall MSRs ready.'' (g0\<lparr>ktss := t\<rparr>))"
  have g1: "fresh_machine items room g1" using assms(3) by (simp add: g1_def g0_def)
  obtain m fa where mem: "boot_memory E info h = Ok (m, fa, be_heap_init E HEAP_START HEAP_SIZE h)"
    "boot_good (be_api E) fa" "fresh_supply (boot_avail (be_api E)) fa"
    "64 + 4 * length (program_span hs) \<le> length (boot_avail (be_api E) fa)"
    "\<forall>p \<in> set (program_span hs @ stack_span 0x30000000 @ stack_span 0x40000000). unmapped ?M m p"
    "heap_mapped E info m fa"
    using boot_memory_Ok[OF assms(1,2), of h] by (elim exE conjE) (rule that)
  obtain m' fa' phys' g2 where pr:
    "boot_processes E (m, fa, phys) g1 = Ok (next_ref g1, next_ref g1 + 1, (m', fa', phys'), g2)"
    "task_list g2 = [next_ref g1, next_ref g1 + 1]" "next_ref g2 = next_ref g1 + 2" "next_id g2 = 3"
    "heap g2 = (heap g1)(next_ref g1 := process_of 1 (be_empty_future E) (be_kstack_a E),
                          next_ref g1 + 1 := process_of 2 (be_empty_future E) (be_kstack_b E))"
    "frame (kmem g2) (be_kstack_a E + 0x7F60) 20 = process_frame entry 0x30008000"
    "frame (kmem g2) (be_kstack_b E + 0x7F60) 20 = process_frame entry 0x40008000"
    "tl_locked g2 = tl_locked g1" "cur_idx g2 = cur_idx g1"
    "ex_tasks g2 = ex_tasks g1" "ex_wakers g2 = ex_wakers g1" "ex_queue g2 = ex_queue g1"
    "\<forall>h \<in> set (load_headers hs). loaded ?M (be_init_elf E) h m' phys'" "user_pages_mapped E info hs m'"
    using boot_processes_Ok[OF assms(1,2) g1 mem(2-6), of phys] by (elim exE conjE) (rule that)
  have "ex_tasks g2 = Map.empty" "ex_wakers g2 = Map.empty" "items (ex_queue g2) = []" "0 < room (ex_queue g2)"
    using g1 pr(10-12) by (simp_all add: fresh_machine_def)
  from boot_monitor_Ok[OF assms(1) this] obtain g3 where mon: "boot_monitor E g2 = Ok g3" "exec_ok g3"
    "items (ex_queue g3) = [next_id g2]" "\<forall>r \<noteq> next_ref g2. heap g3 r = heap g2 r"
    "\<forall>x. 0x4000 \<le> unat (x - be_kstack_monitor E) \<longrightarrow> kmem g3 x = kmem g2 x"
    "task_list g3 = task_list g2" "tl_locked g3 = tl_locked g2" "cur_idx g3 = cur_idx g2" by blast
  define g4 where "g4 = println (esc ''[32;1m[READY]'' @ esc ''[0m Preemptive Multitasking starting...'')
     (println ''[INFO] UART Serial hardware fully unmasked (IRQ 4 active).'' g3)"
  have a: "heap g4 (next_ref g1) = process_of 1 (be_empty_future E) (be_kstack_a E)"
    and b: "heap g4 (next_ref g1 + 1) = process_of 2 (be_empty_future E) (be_kstack_b E)"
    using mon(4) pr(3,5) by (simp_all add: g4_def println_def)
  define g5 where "g5 = (g4\<lparr>ktss := set_interrupt_stack (be_kstack_a E + 0x8000) (ktss g4)\<rparr>)\<lparr>cur_id := 1\<rparr>"
  define c5 where "c5 = c'\<lparr>rflags := rflags c' OR flag_IF\<rparr>"
  have k: "unat (be_kstack_a E) + 0x8000 < 2 ^ 47" using K by (simp add: kstacks_ok_def)
  then have va: "va_new (be_api E) (be_kstack_a E + 0x8000) = Some (be_kstack_a E + 0x8000)"
    using unat_add_of_nat[of "be_kstack_a E" "0x8000"] by (intro x86_api_okD(1)[OF A]) simp
  have enter: "boot_enter E (next_ref g1) g4 c' = Ok (be_kstack_a E + 0x7F60, g5, c5)"
    unfolding boot_enter_def a process_of_def using va by (simp add: a g5_def c5_def process_of_def Let_def)
  define r where "r = \<lparr>bt_machine = g5, bt_cpu = c5, bt_mapper = m', bt_frames = fa',
     bt_heap = be_heap_init E HEAP_START HEAP_SIZE h, bt_phys = phys',
     bt_io = enable_serial_irq (be_imr E) [], bt_first_rsp = be_kstack_a E + 0x7F60\<rparr>"
  have main: "kernel_main E info h phys c g = Ok r"
    unfolding kernel_main_def Let_def g0_def[symmetric] init
    using mem(1) pr(1) mon(1) enter
    by (simp add: g1_def[symmetric] g4_def[symmetric] r_def del: bindo_Ok_iff)
  have two: "two_processes E g5"
    using a b g1 pr(2,8,9) mon(6-8) by (simp add: two_processes_def listed_def g5_def g4_def println_def fresh_machine_def)
  have "exec_ok g5" using mon(2) by (simp add: exec_ok_def g5_def g4_def println_def)
  then have ok: "kernel_ok (be_api E) g5" using two_processes_sched_ok[OF A K two] by (simp add: kernel_ok_def)
  have fr: "frame (kmem g5) (be_kstack_a E + 0x7F60) 20 = process_frame entry 0x30008000"
    "frame (kmem g5) (be_kstack_b E + 0x7F60) 20 = process_frame entry 0x40008000"
    using boot_process_frames[OF K mon(5)] pr(6,7) by (simp_all add: g5_def g4_def println_def)
  have "t_kernel_rsp (listed g5 1) = be_kstack_b E + 0x7F60" using two by (simp add: two_processes_def process_of_def)
  moreover have "rsp0 (ktss g5) = be_kstack_a E + 0x8000" "cur_id g5 = 1"
    by (simp_all add: g5_def set_interrupt_stack_def)
  moreover have "items (ex_queue g5) = [3]" using mon(3) pr(4) by (simp add: g5_def g4_def println_def)
  ultimately show ?thesis using main ok two fr pr(13,14) by (simp add: r_def first_jump_frame)
qed

text \<open>
  C7. The kernel boots: with sound boot data, \<^verbatim>\<open>kernel_main\<close> reaches its last instruction without a panic
  and leaves the two user processes, identifiers 1 and 2, ready in the scheduler with process A current;
  the program is loaded, the interrupt stack is A's, the monitor task is queued in a consistent
  executor, the kernel invariant holds, the final jump starts A at the program's entry point in ring 3
  on its stack, and the first switch to B will start it there on the other stack.
\<close>

theorem kernel_boots:
  fixes g :: "('f, 'q, 'x) machine_scheme"
  assumes "boot_env_ok E used items room" and "boot_data_ok E info hs entry" and "fresh_machine items room g"
  shows "\<exists>r. kernel_main E info h phys c g = Ok r \<and> kernel_ok (be_api E) (bt_machine r)
     \<and> two_processes E (bt_machine r) \<and> cur_id (bt_machine r) = 1
     \<and> rsp0 (ktss (bt_machine r)) = be_kstack_a E + 0x8000
     \<and> items (ex_queue (bt_machine r)) = [3]
     \<and> bt_heap r = be_heap_init E HEAP_START HEAP_SIZE h
     \<and> (\<forall>h \<in> set (load_headers hs). loaded (be_mapper E) (be_init_elf E) h (bt_mapper r) (bt_phys r))
     \<and> saved_ctx (exec (first_jump (bt_first_rsp r)) ((bt_cpu r)\<lparr>cmem := kmem (bt_machine r)\<rparr>))
         = process_frame entry 0x30008000
     \<and> frame (kmem (bt_machine r)) (t_kernel_rsp (listed (bt_machine r) 1)) 20 = process_frame entry 0x40008000"
  using kernel_main_run[OF assms, of h phys c] by blast

section \<open>A machine that boots\<close>

definition tiny_boot :: "((u64 \<rightharpoonup> u64 \<times> u64), descriptor list, unit, nat \<times> u64 list, (u64 \<times> u64) option) boot_env" where
  "tiny_boot = \<lparr>be_api = x86_ref, be_add_entry = list_gdt, be_gdt0 = [], be_star_write = star_ref,
     be_rsp0_stack = 0x600000, be_ist0_stack = 0x610000, be_syscall_entry = 0x200000, be_cr3 = 0x1000,
     be_page_table = (\<lambda>_ _. Map.empty), be_mapper = map_ref, be_heap_init = (\<lambda>start size _. Some (start, size)),
     be_elf_parse = (\<lambda>_. Some ([tiny_header], 0x20000010)), be_init_elf = tiny_elf, be_beyond = (\<lambda>_. 0),
     be_kstack_a = 0x444444441000, be_kstack_b = 0x44444444A000, be_kstack_monitor = 0x444444453000,
     be_queue = list_queue, be_empty_future = (), be_monitor = (), be_imr = 0xb8\<rparr>"

definition tiny_info :: boot_info where
  "tiny_info = \<lparr>bi_memory_regions = big_map, bi_physical_memory_offset = Some 0x10000000000\<rparr>"

definition statics :: "(unit, nat \<times> u64 list) machine" where
  "statics = \<lparr>heap = (\<lambda>_. blank_task ()), next_ref = 0, next_id = 1, cur_id = 0, registry = Map.empty,
     kmem = (\<lambda>_. 0), ex_tasks = Map.empty, ex_queue = (100, []), ex_wakers = Map.empty, console = [],
     services = Map.empty, init_mbox = None, init_mbox_locked = False, task_list = [], tl_locked = False,
     ex_locked = False, cur_idx = 0, tick_count = 0, ktss = \<lparr>rsp0 = 0, ist0 = 0\<rparr>, eois = []\<rparr>"

lemma tiny_boot_ok: "boot_env_ok tiny_boot (\<lambda>ds. 1 + sum_list (map slots_of ds)) snd fst"
proof -
  have "kstacks_ok tiny_boot" by (simp add: kstacks_ok_def areas_apart_def tiny_boot_def)
  then show ?thesis
    using list_gdt_laws
    by (simp add: boot_env_ok_def) (simp add: tiny_boot_def x86_ref_ok star_ref_laws list_queue_laws map_ref_laws)
qed

lemma tiny_data_ok: "boot_data_ok tiny_boot tiny_info [tiny_header] 0x20000010"
proof -
  have "regions_ok big_map" by (simp add: regions_ok_def big_map_def region_aligned_def)
  moreover have "0x20000000 \<notin> set heap_span" "0x20000000 \<notin> set (stack_span 0x30000000)"
    "0x20000000 \<notin> set (stack_span 0x40000000)"
    using heap_span_bounds[of "0x20000000"] stack_span_bounds[of "0x20000000"] by auto
  moreover have "be_api tiny_boot = x86_ref" "be_mapper tiny_boot = boot_map" "be_cr3 tiny_boot = 0x1000"
    "be_page_table tiny_boot = (\<lambda>_ _. Map.empty)" "be_init_elf tiny_boot = tiny_elf"
    "be_elf_parse tiny_boot = (\<lambda>_. Some ([tiny_header], 0x20000010))" by (simp_all add: tiny_boot_def)
  moreover have "unmapped boot_map Map.empty p" for p by (simp add: map_ref_def)
  moreover have "va_new x86_ref 0x10000000000 = Some 0x10000000000"
    "va_add x86_ref 0x10000000000 0x1000 = Some 0x10000001000" by (simp_all add: x86_ref_def)
  ultimately show ?thesis
    using tiny_ok(1) by (simp add: boot_data_ok_def tiny_info_def big_map_size tiny_span)
qed

lemma statics_fresh: "fresh_machine snd fst statics"
  by (simp add: fresh_machine_def statics_def)

theorem kernel_boots_witness:
  "\<exists>r. kernel_main tiny_boot tiny_info None (\<lambda>_. 0) blank_cpu statics = Ok r
     \<and> kernel_ok x86_ref (bt_machine r) \<and> cur_id (bt_machine r) = 1 \<and> snd (ex_queue (bt_machine r)) = [3]
     \<and> saved_ctx (exec (first_jump (bt_first_rsp r)) ((bt_cpu r)\<lparr>cmem := kmem (bt_machine r)\<rparr>))
         = process_frame 0x20000010 0x30008000"
proof -
  have "be_api tiny_boot = x86_ref" by (simp add: tiny_boot_def)
  then show ?thesis
    using kernel_boots[OF tiny_boot_ok tiny_data_ok statics_fresh, of None "\<lambda>_. 0" blank_cpu] by (elim exE conjE) auto
qed

end
