(* ===== verification/Init_Process.thy ===== *)
theory Init_Process
  imports Boot "HOL-Library.Sublist"
begin

text \<open>
  The ring 3 program of \<^verbatim>\<open>user/init\<close>: its system call wrappers and the two roles it plays, the echo server
  (process A) and the faulting client (process B). Between two calls of a process anything may run;
  \<open>env\<close> is what interrupts and other processes do to the kernel's state until its next instruction.
\<close>

type_synonym ('f, 'q, 'x) kstate = "('f, 'q, 'x) kernel_globals_scheme"
type_synonym ('f, 'q, 'x) surroundings = "('f, 'q, 'x) kstate \<Rightarrow> ('f, 'q, 'x) kstate"

section \<open>System call wrappers\<close>

definition SERVICE_NAME_SERIAL :: u64 where
  "SERVICE_NAME_SERIAL = 0x20204C4149524553"

text \<open>\<open>None\<close>: the kernel faulted inside the call, which never returns to the process.\<close>

definition trap :: "(u64, 'q) array_queue \<Rightarrow> access \<Rightarrow> ('f, 'q, 'x) surroundings \<Rightarrow>
    u64 \<Rightarrow> u64 \<Rightarrow> u64 \<Rightarrow> ('f, 'q, 'x) kstate \<Rightarrow> (u64 \<times> ('f, 'q, 'x) kstate) option" where
  "trap Q acc env i a b g =
     (case handle_syscall Q acc i a b g of
        Sys_Return v g' \<Rightarrow> Some (v, env g')
      | Sys_Halt v g' \<Rightarrow> Some (v, env g')
      | Sys_Fault g' \<Rightarrow> None)"

definition u_print_char :: "(u64, 'q) array_queue \<Rightarrow> access \<Rightarrow> ('f, 'q, 'x) surroundings \<Rightarrow> u8 \<Rightarrow> ('f, 'q, 'x) kstate \<Rightarrow> ('f, 'q, 'x) kstate option" where
  "u_print_char Q acc env c g = map_option snd (trap Q acc env 1 (ucast (c :: u8)) 0 g)"

definition u_recv :: "(u64, 'q) array_queue \<Rightarrow> access \<Rightarrow> ('f, 'q, 'x) surroundings \<Rightarrow> u64 \<Rightarrow> ('f, 'q, 'x) kstate \<Rightarrow> (u64 \<times> ('f, 'q, 'x) kstate) option" where
  "u_recv Q acc env p g = trap Q acc env 11 p 0 g"

definition u_yield :: "(u64, 'q) array_queue \<Rightarrow> access \<Rightarrow> ('f, 'q, 'x) surroundings \<Rightarrow> ('f, 'q, 'x) kstate \<Rightarrow> ('f, 'q, 'x) kstate option" where
  "u_yield Q acc env g = map_option snd (trap Q acc env 12 0 0 g)"

definition u_reg_service :: "(u64, 'q) array_queue \<Rightarrow> access \<Rightarrow> ('f, 'q, 'x) surroundings \<Rightarrow> u64 \<Rightarrow> ('f, 'q, 'x) kstate \<Rightarrow> ('f, 'q, 'x) kstate option" where
  "u_reg_service Q acc env name g = map_option snd (trap Q acc env 14 name 0 g)"

definition u_get_service_pid :: "(u64, 'q) array_queue \<Rightarrow> access \<Rightarrow> ('f, 'q, 'x) surroundings \<Rightarrow> u64 \<Rightarrow> ('f, 'q, 'x) kstate \<Rightarrow> (u64 \<times> ('f, 'q, 'x) kstate) option" where
  "u_get_service_pid Q acc env name g = trap Q acc env 15 name 0 g"

text \<open>The state in which \<^verbatim>\<open>sys_exit\<close> loops for ever, once its call has returned.\<close>

definition u_exit :: "(u64, 'q) array_queue \<Rightarrow> access \<Rightarrow> ('f, 'q, 'x) surroundings \<Rightarrow> ('f, 'q, 'x) kstate \<Rightarrow> ('f, 'q, 'x) kstate option" where
  "u_exit Q acc env g = map_option snd (trap Q acc env 2 0 0 g)"

fun u_print_str :: "(u64, 'q) array_queue \<Rightarrow> access \<Rightarrow> ('f, 'q, 'x) surroundings \<Rightarrow> string \<Rightarrow> ('f, 'q, 'x) kstate \<Rightarrow> ('f, 'q, 'x) kstate option" where
  "u_print_str Q acc env [] g = Some g"
| "u_print_str Q acc env (b # bs) g =
     Option.bind (u_print_char Q acc env (of_char b) g) (u_print_str Q acc env bs)"

text \<open>The wrapper of the \<^verbatim>\<open>common\<close> crate takes a Rust character, whose code point may need more than a byte.\<close>

definition syscall_print :: "(u64, 'q) array_queue \<Rightarrow> access \<Rightarrow> ('f, 'q, 'x) surroundings \<Rightarrow> u32 \<Rightarrow> ('f, 'q, 'x) kstate \<Rightarrow> ('f, 'q, 'x) kstate option" where
  "syscall_print Q acc env c g = map_option snd (trap Q acc env 1 (ucast c) 0 g)"

section \<open>The two roles\<close>

text \<open>One round of the echo server's loop; \<open>p\<close> is the address of its message buffer.\<close>

definition echo_round :: "(u64, 'q) array_queue \<Rightarrow> access \<Rightarrow> ('f, 'q, 'x) surroundings \<Rightarrow> u64 \<Rightarrow> ('f, 'q, 'x) kstate \<Rightarrow> ('f, 'q, 'x) kstate option" where
  "echo_round Q acc env p g =
     Option.bind (u_recv Q acc env p g) (\<lambda>(res, g).
       if res = 1 then
         (let msg = read_msg (kmem g) p
          in if msg_label msg = 3 then
               Option.bind (u_print_str Q acc env (esc ''[32;1m'') g) (\<lambda>g.
               Option.bind (u_print_char Q acc env (ucast (fst (msg_payload msg))) g)
                 (u_print_str Q acc env (esc ''[0m'')))
             else Some g)
       else u_yield Q acc env g)"

fun echo_rounds :: "(u64, 'q) array_queue \<Rightarrow> access \<Rightarrow> ('f, 'q, 'x) surroundings \<Rightarrow> u64 \<Rightarrow> nat \<Rightarrow> ('f, 'q, 'x) kstate \<Rightarrow> ('f, 'q, 'x) kstate option" where
  "echo_rounds Q acc env p 0 g = Some g"
| "echo_rounds Q acc env p (Suc n) g = Option.bind (echo_round Q acc env p g) (echo_rounds Q acc env p n)"

definition process_a :: "(u64, 'q) array_queue \<Rightarrow> access \<Rightarrow> ('f, 'q, 'x) surroundings \<Rightarrow> u64 \<Rightarrow> nat \<Rightarrow> ('f, 'q, 'x) kstate \<Rightarrow> ('f, 'q, 'x) kstate option" where
  "process_a Q acc env p n g =
     Option.bind (u_reg_service Q acc env SERVICE_NAME_SERIAL g) (\<lambda>g.
     Option.bind (u_print_str Q acc env (esc ''[32;1m[Process A] SERIAL server online. Type something!'' @ esc ''[0m'' @
                    [CHR 0x0A] @ ''> '') g)
       (echo_rounds Q acc env p n))"

definition b_banner :: string where
  "b_banner = esc ''[33m[Process B] Started. Target: Search & Die.'' @ esc ''[0m'' @ [CHR 0x0A]"

definition b_service_text :: string where
  "b_service_text = ''[Process B] Service SERIAL is at PID ''"

definition b_last_words :: string where
  "b_last_words = esc ''[31;1m[Process B] Executing '' @ [CHR 0x27] @ ''hlt'' @ [CHR 0x27] @
     '' to test Fault Isolation...'' @ esc ''[0m'' @ [CHR 0x0A]"

text \<open>Process B up to its \<^verbatim>\<open>hlt\<close>, which faults in ring 3; the delay loop only lets others run.\<close>

definition process_b :: "(u64, 'q) array_queue \<Rightarrow> access \<Rightarrow> ('f, 'q, 'x) surroundings \<Rightarrow> ('f, 'q, 'x) kstate \<Rightarrow> ('f, 'q, 'x) kstate option" where
  "process_b Q acc env g =
     Option.bind (u_print_str Q acc env b_banner g) (\<lambda>g.
     Option.bind (u_get_service_pid Q acc env SERVICE_NAME_SERIAL (env g)) (\<lambda>(pid, g).
     Option.bind (if pid = - 1 then Some g
                  else Option.bind (u_print_str Q acc env b_service_text g) (\<lambda>g.
                       Option.bind (u_print_char Q acc env ((ucast pid :: u8) + 0x30) g)
                         (u_print_str Q acc env [CHR 0x0A])))
       (u_print_str Q acc env b_last_words)))"

definition is_process_b :: "u64 \<Rightarrow> bool" where
  "is_process_b rsp \<longleftrightarrow> 0x35000000 < rsp"

definition init_start :: "(u64, 'q) array_queue \<Rightarrow> access \<Rightarrow> ('f, 'q, 'x) surroundings \<Rightarrow> u64 \<Rightarrow> u64 \<Rightarrow> nat \<Rightarrow> ('f, 'q, 'x) kstate \<Rightarrow> ('f, 'q, 'x) kstate option" where
  "init_start Q acc env rsp p n g =
     (if is_process_b rsp then process_b Q acc env g else process_a Q acc env p n g)"

section \<open>The message buffer\<close>

text \<open>The program declares the message on its own; a receive fills it with the kernel's.\<close>

record init_message =
  im_from :: u64
  im_to :: u64
  im_label :: u64
  im_payload :: "u64 \<times> u64"

definition init_message_at :: "memory \<Rightarrow> u64 \<Rightarrow> init_message" where
  "init_message_at m p = \<lparr>im_from = read64 m p, im_to = read64 m (p + 8), im_label = read64 m (p + 16),
     im_payload = (read64 m (p + 24), read64 m (p + 32))\<rparr>"

lemma init_message_layout:
  "init_message_at (write_msg m p x) p
     = \<lparr>im_from = msg_from x, im_to = msg_to x, im_label = msg_label x, im_payload = msg_payload x\<rparr>"
  using write_msg_frame[of m p x]
  by (simp add: init_message_at_def msg_words_def eval_nat_numeral frame_Suc add.assoc)

section \<open>Facts about the program\<close>

lemma service_name_bytes:
  "map (\<lambda>i. unat (drop_bit (8 * i) SERVICE_NAME_SERIAL) mod 256) [0 ..< 8] = map of_char ''SERIAL  ''"
  by (simp add: SERVICE_NAME_SERIAL_def upt_rec)

lemma unat_of_char [simp]: "unat (of_char b :: u8) = of_char b"
proof -
  have "(of_char b :: u8) = of_nat (of_char b)" by (simp only: of_nat_of_char)
  moreover have "unat (of_nat (of_char b) :: u8) = of_char b"
    by (subst unat_of_nat) (simp add: take_bit_eq_mod)
  ultimately show ?thesis by simp
qed

text \<open>
  Leaving does not end a process that is not in the registry: the call returns, and the loop behind it burns
  the process's time slices.
\<close>

lemma exit_loops: "registry g (cur_id g) = None \<Longrightarrow> u_exit Q acc env g = Some (env g)"
  by (simp add: u_exit_def trap_def sys_exit_def)

text \<open>The role follows from the stack \<^verbatim>\<open>kernel_main\<close> gave the process.\<close>

lemma role_by_stack:
  "0x30000000 \<le> rsp \<Longrightarrow> rsp \<le> 0x30008000 \<Longrightarrow> \<not> is_process_b rsp"
  "0x40000000 \<le> rsp \<Longrightarrow> rsp \<le> 0x40008000 \<Longrightarrow> is_process_b rsp"
  unfolding is_process_b_def by (simp_all add: word_le_nat_alt word_less_nat_alt)

text \<open>Text reaches the console in order, possibly between other output.\<close>

definition writes :: "string \<Rightarrow> ('f, 'q, 'x) kstate \<Rightarrow> ('f, 'q, 'x) kstate \<Rightarrow> bool" where
  "writes s g g' \<longleftrightarrow> (\<exists>t. console g' = console g @ t \<and> subseq s t)"

lemma writes_trans: "writes s g g' \<Longrightarrow> writes t g' g'' \<Longrightarrow> writes (s @ t) g g''"
  by (auto simp: writes_def intro: list_emb_append_mono)

text \<open>What a process relies on: others only add output and leave its message buffer alone.\<close>

definition env_ok :: "u64 \<Rightarrow> ('f, 'q, 'x) surroundings \<Rightarrow> bool" where
  "env_ok p env \<longleftrightarrow> (\<forall>g. writes [] g (env g) \<and> read_msg (kmem (env g)) p = read_msg (kmem g) p)"

lemma ucast_char: "unat (ucast (c :: u8) :: u64) = unat c"
proof -
  have "unat c < 256" using unsigned_less[of c] by simp
  then show ?thesis by (simp add: unsigned_ucast_eq take_bit_eq_mod)
qed

lemma ucast_back: "(ucast (ucast (c :: u8) :: u64) :: u8) = c"
  by (rule bit_word_eqI) (simp add: bit_ucast_iff)

text \<open>The kernel prints the low byte only, so code points 256 apart print the same character.\<close>

lemma syscall_print_truncates:
  "syscall_print Q acc env c g = Some (env (print [char_of (unat c mod 256)] g))"
proof -
  have "unat c < 2 ^ 32" using unsigned_less[of c] by simp
  then have "unat (ucast c :: u64) = unat c" by (simp add: unsigned_ucast_eq take_bit_eq_mod)
  then show ?thesis by (simp add: syscall_print_def trap_def sys_print_def u8_char_def)
qed

lemma print_char_ok:
  assumes "env_ok p env"
  shows "\<exists>g'. u_print_char Q acc env c g = Some g' \<and> writes [char_of (unat c)] g g'
     \<and> read_msg (kmem g') p = read_msg (kmem g) p"
proof -
  have c: "u8_char (ucast c) = char_of (unat c)"
    by (simp add: u8_char_def ucast_char)
  have "writes [char_of (unat c)] g (print [char_of (unat c)] g)" by (simp add: writes_def)
  moreover have "writes [] (print [char_of (unat c)] g) (env (print [char_of (unat c)] g))"
    using assms by (simp add: env_ok_def)
  ultimately have "writes [char_of (unat c)] g (env (print [char_of (unat c)] g))" using writes_trans by fastforce
  then show ?thesis using assms by (simp add: u_print_char_def trap_def sys_print_def c env_ok_def)
qed

lemma print_str_ok:
  assumes "env_ok p env"
  shows "\<exists>g'. u_print_str Q acc env s g = Some g' \<and> writes s g g' \<and> read_msg (kmem g') p = read_msg (kmem g) p"
proof (induction s arbitrary: g)
  case Nil
  then show ?case by (simp add: writes_def)
next
  case (Cons b s)
  obtain g1 where g1: "u_print_char Q acc env (of_char b) g = Some g1" "writes [b] g g1"
    "read_msg (kmem g1) p = read_msg (kmem g) p"
    using print_char_ok[OF assms, of Q acc "of_char b" g] by auto
  obtain g2 where "u_print_str Q acc env s g1 = Some g2" "writes s g1 g2" "read_msg (kmem g2) p = read_msg (kmem g1) p"
    using Cons by blast
  then show ?case using g1 writes_trans[OF g1(2)] by auto
qed

section \<open>The echo server echoes\<close>

lemma echo_round_serial:
  assumes "env_ok p env" "\<not> init_mbox_locked g" "init_mbox g = Some msg" "msg_label msg = 3"
    and "msg_range (can_write acc) p"
  shows "\<exists>g'. echo_round Q acc env p g = Some g'
     \<and> writes (esc ''[32;1m'' @ [char_of (unat (ucast (fst (msg_payload msg)) :: u8))] @ esc ''[0m'') g g'"
proof -
  define h0 where "h0 = g\<lparr>init_mbox := None, kmem := write_msg (kmem g) p msg, init_mbox_locked := False\<rparr>"
  define h where "h = env h0"
  have recv: "u_recv Q acc env p g = Some (1, h)" using assms(2,3,5) by (simp add: u_recv_def trap_def sys_recv_def Let_def h_def h0_def)
  have buf: "read_msg (kmem h) p = msg" using assms(1) by (simp add: h_def h0_def env_ok_def)
  have "writes [] h0 h" using assms(1) by (simp add: h_def env_ok_def)
  then have w0: "writes [] g h" by (simp add: writes_def h0_def)
  obtain g1 where g1: "u_print_str Q acc env (esc ''[32;1m'') h = Some g1" "writes (esc ''[32;1m'') h g1"
    using print_str_ok[OF assms(1)] by blast
  obtain g2 where g2: "u_print_char Q acc env (ucast (fst (msg_payload msg))) g1 = Some g2"
    "writes [char_of (unat (ucast (fst (msg_payload msg)) :: u8))] g1 g2"
    using print_char_ok[OF assms(1)] by blast
  obtain g3 where g3: "u_print_str Q acc env (esc ''[0m'') g2 = Some g3" "writes (esc ''[0m'') g2 g3"
    using print_str_ok[OF assms(1)] by blast
  have "echo_round Q acc env p g = Some g3"
    using recv buf assms(4) g1(1) g2(1) g3(1) by (simp add: echo_round_def Let_def)
  then show ?thesis using writes_trans[OF w0 writes_trans[OF g1(2) writes_trans[OF g2(2) g3(2)]]] by auto
qed

text \<open>The server never stops: as long as its buffer is writable, no call of its loop faults.\<close>

lemma echo_round_total:
  assumes "env_ok p env" "msg_range (can_write acc) p"
  shows "\<exists>g'. echo_round Q acc env p g = Some g'"
proof -
  have "\<exists>x. u_recv Q acc env p g = Some x"
    using assms(2) by (simp add: u_recv_def trap_def sys_recv_def Let_def split: option.split)
  then obtain v h where recv: "u_recv Q acc env p g = Some (v, h)" by auto
  have "\<exists>g'. Option.bind (u_print_str Q acc env s h) (\<lambda>g. Option.bind (u_print_char Q acc env c g) (u_print_str Q acc env t)) = Some g'"
    for s c t
  proof -
    obtain g1 where "u_print_str Q acc env s h = Some g1" using print_str_ok[OF assms(1)] by blast
    moreover obtain g2 where "u_print_char Q acc env c g1 = Some g2" using print_char_ok[OF assms(1)] by blast
    moreover obtain g3 where "u_print_str Q acc env t g2 = Some g3" using print_str_ok[OF assms(1)] by blast
    ultimately show ?thesis by simp
  qed
  then show ?thesis
    using recv by (simp add: echo_round_def Let_def u_yield_def trap_def sys_yield_def)
qed

lemma echo_rounds_total:
  assumes "env_ok p env" "msg_range (can_write acc) p"
  shows "\<exists>g'. echo_rounds Q acc env p n g = Some g'"
proof (induction n arbitrary: g)
  case (Suc n)
  then show ?case using echo_round_total[OF assms, of Q g] by auto
qed simp



section \<open>The client finds the server\<close>

lemma print_char_services:
  assumes "\<forall>g. services (env g) = services g" "u_print_char Q acc env c g = Some g'"
  shows "services g' = services g"
  using assms by (auto simp: u_print_char_def trap_def sys_print_def)

lemma print_str_services:
  assumes "\<forall>g. services (env g) = services g"
  shows "u_print_str Q acc env s g = Some g' \<Longrightarrow> services g' = services g"
proof (induction s arbitrary: g)
  case (Cons b s)
  then obtain g1 where "u_print_char Q acc env (of_char b) g = Some g1" "u_print_str Q acc env s g1 = Some g'"
    by (auto simp: bind_eq_Some_conv)
  then show ?case using Cons.IH print_char_services[OF assms] by metis
qed simp

text \<open>
  C37. The name service connects the two processes: once the server has registered, and while others leave
  the service table alone, the client runs to its \<^verbatim>\<open>hlt\<close> without a fault and writes its banner, the line
  with the digit of the identifier the server registered under, and its last message, in this order.
\<close>

theorem client_finds_server:
  assumes "env_ok p env" and "\<forall>g. services (env g) = services g"
    and "u_reg_service Q acc env SERVICE_NAME_SERIAL g = Some g1" and "cur_id g \<noteq> - 1" and "services g2 = services g1"
  shows "\<exists>g3. process_b Q acc env g2 = Some g3
     \<and> writes (b_banner @ b_service_text @ [char_of (unat ((ucast (cur_id g) :: u8) + 0x30)), CHR 0x0A] @ b_last_words) g2 g3"
proof -
  have reg: "services g2 SERVICE_NAME_SERIAL = Some (cur_id g)"
    using assms(2,3,5) by (auto simp: u_reg_service_def trap_def sys_reg_service_def)
  obtain h1 where h1: "u_print_str Q acc env b_banner g2 = Some h1" "writes b_banner g2 h1"
    using print_str_ok[OF assms(1)] by blast
  define h2 where "h2 = env (env h1)"
  have "services h1 SERVICE_NAME_SERIAL = Some (cur_id g)" using print_str_services[OF assms(2) h1(1)] reg by simp
  then have pid: "u_get_service_pid Q acc env SERVICE_NAME_SERIAL (env h1) = Some (cur_id g, h2)"
    using assms(2) by (simp add: u_get_service_pid_def trap_def sys_get_service_pid_def h2_def)
  have "writes [] h1 (env h1)" "writes [] (env h1) h2" using assms(1) by (simp_all add: h2_def env_ok_def)
  then have w2: "writes b_banner g2 h2" using writes_trans[OF h1(2)] writes_trans by fastforce
  obtain h3 where h3: "u_print_str Q acc env b_service_text h2 = Some h3" "writes b_service_text h2 h3"
    using print_str_ok[OF assms(1)] by blast
  obtain h4 where h4: "u_print_char Q acc env ((ucast (cur_id g) :: u8) + 0x30) h3 = Some h4"
    "writes [char_of (unat ((ucast (cur_id g) :: u8) + 0x30))] h3 h4"
    using print_char_ok[OF assms(1)] by blast
  obtain h5 where h5: "u_print_str Q acc env [CHR 0x0A] h4 = Some h5" "writes [CHR 0x0A] h4 h5"
    using print_str_ok[OF assms(1)] by blast
  obtain h6 where h6: "u_print_str Q acc env b_last_words h5 = Some h6" "writes b_last_words h5 h6"
    using print_str_ok[OF assms(1)] by blast
  have "process_b Q acc env g2 = Some h6"
    using h1(1) pid assms(4) h3(1) h4(1) h5(1) h6(1) by (simp add: process_b_def del: u_print_str.simps)
  then show ?thesis
    using writes_trans[OF w2 writes_trans[OF h3(2) writes_trans[OF h4(2) writes_trans[OF h5(2) h6(2)]]]] by auto
qed

theorem client_finds_server_witness:
  "\<exists>g3. process_b list_queue open_access id (two_procs\<lparr>services := [SERVICE_NAME_SERIAL \<mapsto> 1], cur_id := 2\<rparr>) = Some g3
     \<and> subseq (b_service_text @ ''1'') (console g3)"
proof -
  let ?g2 = "two_procs\<lparr>services := [SERVICE_NAME_SERIAL \<mapsto> 1], cur_id := 2\<rparr>"
  have a: "env_ok 0 (id :: (unit, nat \<times> u64 list, _) surroundings)" by (simp add: env_ok_def writes_def)
  have r: "u_reg_service list_queue open_access id SERVICE_NAME_SERIAL two_procs
     = Some (two_procs\<lparr>services := [SERVICE_NAME_SERIAL \<mapsto> 1]\<rparr>)"
    by (simp add: u_reg_service_def trap_def sys_reg_service_def) (simp add: two_procs_def)
  have c: "cur_id two_procs \<noteq> - 1" by (simp add: two_procs_simps)
  obtain g3 where g3: "process_b list_queue open_access id ?g2 = Some g3"
    "writes (b_banner @ b_service_text @ [char_of (unat ((ucast (cur_id two_procs) :: u8) + 0x30)), CHR 0x0A] @ b_last_words) ?g2 g3"
    using client_finds_server[OF a _ r c, of ?g2] by auto
  have "char_of (unat ((ucast (cur_id two_procs) :: u8) + 0x30)) = CHR ''1''" by (simp add: two_procs_simps char_of_def bit_Suc_0_iff)
  moreover have "console ?g2 = []" by (simp add: two_procs_def)
  ultimately have "subseq (b_banner @ (b_service_text @ ''1'') @ [CHR 0x0A] @ b_last_words) (console g3)"
    using g3(2) by (simp add: writes_def)
  then have "subseq (b_service_text @ ''1'') (console g3)"
    by (meson list_emb_append2 list_emb_prefix subseq_order.trans subseq_order.refl)
  then show ?thesis using g3(1) by blast
qed

end
