(* ===== verification/Idle_Programs.thy ===== *)
theory Idle_Programs
  imports Main
begin

text \<open>
  The programs and handlers whose code is an endless loop: \<^verbatim>\<open>user/shell\<close>, \<^verbatim>\<open>user/drivers/virtio_disk\<close> and the
  panic handlers of the user programs. Divergence is the value \<open>None\<close>.
\<close>

partial_function (option) spin :: "'s \<Rightarrow> 's option" where
  "spin s = spin s"

definition shell_start :: "'s \<Rightarrow> 's option" where
  "shell_start = spin"

definition shell_panic :: "string \<Rightarrow> 's \<Rightarrow> 's option" where
  "shell_panic info = spin"

definition virtio_disk_start :: "'s \<Rightarrow> 's option" where
  "virtio_disk_start = spin"

definition virtio_disk_panic :: "string \<Rightarrow> 's \<Rightarrow> 's option" where
  "virtio_disk_panic info = spin"

definition init_panic :: "string \<Rightarrow> 's \<Rightarrow> 's option" where
  "init_panic info = spin"

lemma spin_never_returns: "spin s = None"
proof (rule ccontr)
  assume "spin s \<noteq> None"
  then obtain t where "spin s = Some t" by blast
  then show False by (rule spin.raw_induct[rotated])
qed

text \<open>None of them returns, whatever state it starts in.\<close>

lemma idle_programs_spin:
  "shell_start s = None" "shell_panic info s = None" "virtio_disk_start s = None" "virtio_disk_panic info s = None"
  "init_panic info s = None"
  by (simp_all add: shell_start_def shell_panic_def virtio_disk_start_def virtio_disk_panic_def init_panic_def
      spin_never_returns)

end
