(* ===== verification/Memory_Separation.thy ===== *)
theory Memory_Separation
  imports Boot
begin

text \<open>
  Who can reach which memory after the boot: the one page table that \<^verbatim>\<open>kernel_main\<close> leaves behind, with the
  kernel heap, where the kernel stacks of the processes are, the program and the two user stacks.
\<close>

section \<open>Reaching memory through the page table\<close>

abbreviation boot_pages :: "program_header list \<Rightarrow> u64 set" where
  "boot_pages hs \<equiv> set (heap_span @ program_span hs @ stack_span 0x30000000 @ stack_span 0x40000000)"

text \<open>Ring 3 reaches the physical address \<open>pa\<close> through the virtual address \<open>a\<close>.\<close>

definition user_reaches :: "('m, 'fa) page_mapper \<Rightarrow> 'm \<Rightarrow> u64 \<Rightarrow> u64 \<Rightarrow> bool" where
  "user_reaches M m a pa \<longleftrightarrow> (\<exists>fl. translate M m a = Some (pa, fl) \<and> fl AND USER_ACCESSIBLE \<noteq> 0)"

text \<open>The boot loader maps nothing for ring 3.\<close>

definition loader_maps_kernel_only :: "('m, 'g, 'f, 'q, 'h) boot_env \<Rightarrow> bool" where
  "loader_maps_kernel_only E \<longleftrightarrow>
     (\<forall>virt off p f fl. walk (be_mapper E) (be_page_table E virt off) p = Some (f, fl) \<longrightarrow> fl AND USER_ACCESSIBLE = 0)"

lemma user_walk: "user_reaches M m a pa \<Longrightarrow> \<exists>f fl. walk M m (page_down a) = Some (f, fl) \<and> fl AND USER_ACCESSIBLE \<noteq> 0"
  by (auto simp: user_reaches_def translate_def split: option.splits)

lemma backed_translate:
  assumes "backed M m ps K" "\<forall>f \<in> K. page_down f = f" "page_down a \<in> ps"
  shows "\<exists>fl. translate M m a = Some (frame_of M m (page_down a) + (a - page_down a), fl)"
    and "page_down (frame_of M m (page_down a) + (a - page_down a)) = frame_of M m (page_down a)"
    and "frame_of M m (page_down a) \<in> K"
proof -
  obtain f fl where w: "walk M m (page_down a) = Some (f, fl)" and k: "frame_of M m (page_down a) \<in> K"
    using assms(1,3) by (auto simp: backed_def)
  show "\<exists>fl. translate M m a = Some (frame_of M m (page_down a) + (a - page_down a), fl)"
    using w by (simp add: translate_def frame_of_def)
  show "page_down (frame_of M m (page_down a) + (a - page_down a)) = frame_of M m (page_down a)"
    using assms(2) k page_offset by (intro page_down_add) auto
  show "frame_of M m (page_down a) \<in> K" by (rule k)
qed

text \<open>Pages with frames of their own do not alias.\<close>

lemma backed_apart:
  assumes "backed M m ps K" "\<forall>f \<in> K. page_down f = f" "page_down a \<in> ps" "page_down b \<in> ps" "a \<noteq> b"
    and "translate M m a = Some (pa, fla)" "translate M m b = Some (pb, flb)"
  shows "pa \<noteq> pb"
proof
  note ta = backed_translate[OF assms(1-3)] and tb = backed_translate[OF assms(1,2,4)]
  assume "pa = pb"
  then have e: "frame_of M m (page_down a) + (a - page_down a) = frame_of M m (page_down b) + (b - page_down b)"
    using ta(1) tb(1) assms(6,7) by auto
  then have "frame_of M m (page_down a) = frame_of M m (page_down b)" using ta(2) tb(2) by metis
  then have "page_down a = page_down b" using assms(1,3,4) by (auto simp: backed_def dest: inj_onD)
  then show False using e assms(5) by simp
qed

lemma store_elsewhere:
  assumes "backed M m ps K" "\<forall>f \<in> K. page_down f = f" "page_down a \<in> ps" "page_down b \<in> ps" "a \<noteq> b"
    and "translate M m a = Some (pa, fl)"
  shows "load_byte M m (phys(pa := v)) b = load_byte M m phys b"
proof -
  obtain pb flb where b: "translate M m b = Some (pb, flb)" using backed_translate(1)[OF assms(1,2,4)] by blast
  then have "pa \<noteq> pb" by (rule backed_apart[OF assms])
  then show ?thesis using b by (simp add: load_byte_def)
qed

section \<open>After the boot\<close>

text \<open>
  C4. Ring 3 cannot reach the kernel heap: if the boot loader maps nothing for ring 3, then after the boot
  an address that ring 3 reaches lies in the program or in a user stack and in a frame of the usable
  memory, and a store through it changes the byte at this address and no other byte of the heap, with the
  kernel stacks in it, of the program or of the stacks. The heap's pages are mapped for ring 0 only.
\<close>

theorem ring3_cannot_reach_heap:
  fixes g :: "('f, 'q, 'x) machine_scheme"
  assumes "boot_env_ok E used items room" and "boot_data_ok E info hs entry" and "fresh_machine items room g"
    and "loader_maps_kernel_only E"
  shows "\<exists>r. kernel_main E info h phys c g = Ok r
     \<and> (\<forall>p \<in> set heap_span. \<exists>f. walk (be_mapper E) (bt_mapper r) p = Some (f, PRESENT OR WRITABLE))
     \<and> (\<forall>a pa. user_reaches (be_mapper E) (bt_mapper r) a pa \<longrightarrow>
          page_down a \<in> boot_pages hs \<and> page_down a \<notin> set heap_span
        \<and> page_down pa \<in> set (usable_addrs (bi_memory_regions info))
        \<and> (\<forall>b v mem. page_down b \<in> boot_pages hs \<longrightarrow> b \<noteq> a \<longrightarrow>
             load_byte (be_mapper E) (bt_mapper r) (mem(pa := v)) b = load_byte (be_mapper E) (bt_mapper r) mem b))"
proof -
  let ?M = "be_mapper E" and ?U = "set (usable_addrs (bi_memory_regions info))"
  obtain r where r: "kernel_main E info h phys c g = Ok r" "user_pages_mapped E info hs (bt_mapper r)"
    using kernel_main_run[OF assms(1-3), of h phys c] by blast
  let ?m = "bt_mapper r"
  have B: "backed ?M ?m (boot_pages hs) ?U" and H: "\<forall>p \<in> set heap_span. \<exists>f. walk ?M ?m p = Some (f, 3)"
    using r(2) unfolding user_pages_mapped_def by blast+
  obtain virt off where rest: "\<forall>p. p \<notin> boot_pages hs \<longrightarrow> walk ?M ?m p = walk ?M (be_page_table E virt off) p"
    using r(2) unfolding user_pages_mapped_def by blast
  have al: "\<forall>f \<in> ?U. page_down f = f" using assms(2) usable_addrs_ok(3) by (auto simp: boot_data_ok_def)
  have "page_down a \<in> boot_pages hs \<and> page_down a \<notin> set heap_span \<and> page_down pa \<in> ?U
      \<and> (\<forall>b v mem. page_down b \<in> boot_pages hs \<longrightarrow> b \<noteq> a \<longrightarrow> load_byte ?M ?m (mem(pa := v)) b = load_byte ?M ?m mem b)"
    if u: "user_reaches ?M ?m a pa" for a pa
  proof -
    obtain f fl where w: "walk ?M ?m (page_down a) = Some (f, fl)" "fl AND USER_ACCESSIBLE \<noteq> 0" using user_walk[OF u] by blast
    have in_boot: "page_down a \<in> boot_pages hs"
      using rest w assms(4) unfolding loader_maps_kernel_only_def by metis
    moreover have "page_down a \<notin> set heap_span" using H w by (auto simp: USER_ACCESSIBLE_def)
    moreover obtain fla where t: "translate ?M ?m a = Some (pa, fla)" using u by (auto simp: user_reaches_def)
    moreover have "page_down pa \<in> ?U" using backed_translate[OF B al in_boot] t by auto
    moreover have "load_byte ?M ?m (mem(pa := v)) b = load_byte ?M ?m mem b"
      if "page_down b \<in> boot_pages hs" "b \<noteq> a" for b v mem
      using store_elsewhere[OF B al in_boot that(1) that(2)[symmetric] t] .
    ultimately show ?thesis by blast
  qed
  moreover have "PRESENT OR WRITABLE = 3" by (simp add: PRESENT_def WRITABLE_def)
  ultimately show ?thesis using r(1) H by auto
qed

lemma stack_page:
  assumes "page_down base = base" "unat base + 0x8000 < 2 ^ 47" "unat base \<le> unat a" "unat a < unat base + 0x8000"
  shows "page_down a \<in> set (stack_span base)"
proof -
  define i where "i = (unat a - unat base) div 4096"
  have i: "i < 8" using assms(4) by (simp add: i_def less_mult_imp_div_less)
  have "unat (of_nat i * 4096 :: u64) = i * 4096" using i unat_of_nat64[of "i * 4096"] by simp
  then have "unat (base + of_nat i * 4096) = unat base + i * 4096" using i assms(2) by (simp add: unat_word_ariths)
  moreover have "unat base mod 4096 = 0" using assms(1) by (simp add: page_down_aligned)
  then have "unat (page_down a) = unat base + i * 4096"
    using assms(3) unfolding page_down_unat i_def by (metis le_add_diff_inverse minus_mod_eq_div_mult mod_0_imp_dvd div_plus_div_distrib_dvd_left add_mult_distrib dvd_div_mult_self)
  ultimately have "page_down a = base + of_nat i * 4096" by (simp add: word_unat_eq_iff)
  then show ?thesis using i by (auto simp: stack_span_def)
qed

text \<open>
  C22. The processes are not isolated from each other: there is one page table, and after the boot every
  byte of both user stacks, on which the first frames of A and B start them, is writable and accessible to
  ring 3 in it, so whichever process runs can overwrite the other's stack.
\<close>

theorem processes_share_stacks:
  fixes g :: "('f, 'q, 'x) machine_scheme"
  assumes "boot_env_ok E used items room" and "boot_data_ok E info hs entry" and "fresh_machine items room g"
  shows "\<exists>r. kernel_main E info h phys c g = Ok r
     \<and> saved_ctx (exec (first_jump (bt_first_rsp r)) ((bt_cpu r)\<lparr>cmem := kmem (bt_machine r)\<rparr>))
         = process_frame entry 0x30008000
     \<and> frame (kmem (bt_machine r)) (t_kernel_rsp (listed (bt_machine r) 1)) 20 = process_frame entry 0x40008000
     \<and> (\<forall>a v mem. 0x30000000 \<le> a \<and> a < 0x30008000 \<or> 0x40000000 \<le> a \<and> a < 0x40008000 \<longrightarrow>
          (\<exists>pa. user_reaches (be_mapper E) (bt_mapper r) a pa)
        \<and> (\<exists>mem'. store_bytes (be_mapper E) (bt_mapper r) a [v] mem = Some mem'
             \<and> load_byte (be_mapper E) (bt_mapper r) mem' a = Some v))"
proof -
  let ?M = "be_mapper E"
  obtain r where r: "kernel_main E info h phys c g = Ok r" "user_pages_mapped E info hs (bt_mapper r)"
    "saved_ctx (exec (first_jump (bt_first_rsp r)) ((bt_cpu r)\<lparr>cmem := kmem (bt_machine r)\<rparr>)) = process_frame entry 0x30008000"
    "frame (kmem (bt_machine r)) (t_kernel_rsp (listed (bt_machine r) 1)) 20 = process_frame entry 0x40008000"
    using kernel_main_run[OF assms, of h phys c] by blast
  let ?m = "bt_mapper r"
  have al: "page_down 0x30000000 = 0x30000000" "page_down 0x40000000 = 0x40000000" by (simp_all add: page_down_def)
  have "(\<exists>pa. user_reaches ?M ?m a pa)
      \<and> (\<exists>mem'. store_bytes ?M ?m a [v] mem = Some mem' \<and> load_byte ?M ?m mem' a = Some v)"
    if a: "0x30000000 \<le> a \<and> a < 0x30008000 \<or> 0x40000000 \<le> a \<and> a < 0x40008000" for a v mem
  proof -
    have "page_down a \<in> set (stack_span 0x30000000 @ stack_span 0x40000000)"
      using a stack_page[OF al(1), of a] stack_page[OF al(2), of a] by (auto simp: word_le_nat_alt word_less_nat_alt)
    then obtain f where "walk ?M ?m (page_down a) = Some (f, 7)"
      using r(2) unfolding user_pages_mapped_def by blast
    then have "translate ?M ?m a = Some (f + (a - page_down a), 7)" by (simp add: translate_def)
    then show ?thesis by (simp add: user_reaches_def USER_ACCESSIBLE_def WRITABLE_def load_byte_def)
  qed
  then show ?thesis using r(1,3,4) by blast
qed

section \<open>Witnesses\<close>

lemma tiny_kernel_only: "loader_maps_kernel_only tiny_boot"
  by (simp add: loader_maps_kernel_only_def tiny_boot_def map_ref_def)

lemma heap_start_page: "page_down 0x444444440000 \<in> set heap_span"
proof -
  have pd: "page_down 0x444444440000 = 0x444444440000" "page_down 0x444444458000 = 0x444444458000"
    by (simp_all add: page_down_def)
  show ?thesis unfolding pd(1) using pages_between_ok(2)[OF _ _ pd] pd(1) by simp
qed

theorem ring3_cannot_reach_heap_witness:
  "\<exists>r. kernel_main tiny_boot tiny_info None (\<lambda>_. 0) blank_cpu statics = Ok r
     \<and> (\<forall>pa. \<not> user_reaches (be_mapper tiny_boot) (bt_mapper r) 0x444444440000 pa)"
proof -
  obtain r where r: "kernel_main tiny_boot tiny_info None (\<lambda>_. 0) blank_cpu statics = Ok r"
    "\<forall>a pa. user_reaches (be_mapper tiny_boot) (bt_mapper r) a pa \<longrightarrow> page_down a \<notin> set heap_span"
    using ring3_cannot_reach_heap[OF tiny_boot_ok tiny_data_ok statics_fresh tiny_kernel_only, of None "\<lambda>_. 0" blank_cpu]
    by (elim exE conjE) (rule that, assumption, blast)
  have "\<not> user_reaches (be_mapper tiny_boot) (bt_mapper r) 0x444444440000 pa" for pa
    using r(2) heap_start_page by blast
  then show ?thesis using r(1) by blast
qed

theorem processes_share_stacks_witness:
  "\<exists>r. kernel_main tiny_boot tiny_info None (\<lambda>_. 0) blank_cpu statics = Ok r
     \<and> (\<exists>pa. user_reaches (be_mapper tiny_boot) (bt_mapper r) 0x30007FF8 pa)
     \<and> (\<exists>pa. user_reaches (be_mapper tiny_boot) (bt_mapper r) 0x40007FF8 pa)"
proof -
  obtain r where r: "kernel_main tiny_boot tiny_info None (\<lambda>_. 0) blank_cpu statics = Ok r"
    "\<And>a. 0x30000000 \<le> a \<and> a < 0x30008000 \<or> 0x40000000 \<le> a \<and> a < 0x40008000 \<Longrightarrow>
       \<exists>pa. user_reaches (be_mapper tiny_boot) (bt_mapper r) a pa"
    using processes_share_stacks[OF tiny_boot_ok tiny_data_ok statics_fresh, of None "\<lambda>_. 0" blank_cpu]
    by (elim exE conjE) (rule that, assumption, blast)
  show ?thesis using r(1) r(2)[of "0x30007FF8"] r(2)[of "0x40007FF8"] by simp
qed

end
