(* ===== verification/Isolation.thy ===== *)
theory Isolation
  imports Boot
begin

text \<open>
  The processor and the kernel together: ring 3 code of the current process, interrupts through the
  wrapper and its Rust handler, faults, and system calls, in any order, on one memory. The contexts of the
  processes that are not running lie in their kernel stacks; they are what the machine must not lose.
\<close>

section \<open>Kernel stacks in memory\<close>

definition kbase :: "'f task \<Rightarrow> u64" where
  "kbase t = t_kernel_stack_top t - 0x8000"

definition in_kstack :: "'f task \<Rightarrow> u64 \<Rightarrow> bool" where
  "in_kstack t x \<longleftrightarrow> unat (x - kbase t) < 0x8000"

text \<open>The kernel stacks of the listed processes do not overlap.\<close>

definition layout_ok :: "('f, 'q, 'x) machine_scheme \<Rightarrow> bool" where
  "layout_ok m \<longleftrightarrow> (\<forall>i < length (task_list m). unat (kbase (listed m i)) + 0x8000 < 2 ^ 47
     \<and> (\<forall>j < length (task_list m). i \<noteq> j \<longrightarrow> areas_apart (kbase (listed m i)) 0x8000 (kbase (listed m j)) 0x8000))"

text \<open>Memory is unchanged on the kernel stacks of all processes that satisfy \<open>who\<close>.\<close>

definition keeps_kstacks :: "(nat \<Rightarrow> bool) \<Rightarrow> ('f, 'q, 'x) machine_scheme \<Rightarrow> memory \<Rightarrow> memory \<Rightarrow> bool" where
  "keeps_kstacks who m mem mem' \<longleftrightarrow>
     (\<forall>k < length (task_list m). who k \<longrightarrow> (\<forall>x. in_kstack (listed m k) x \<longrightarrow> mem' x = mem x))"

text \<open>The task's saved stack pointer lies in its kernel stack and points to the context.\<close>

definition saved_at :: "memory \<Rightarrow> 'f task \<Rightarrow> u64 list \<Rightarrow> bool" where
  "saved_at mem t ctx \<longleftrightarrow> unat (t_kernel_rsp t - kbase t) + 160 \<le> 0x8000 \<and> frame mem (t_kernel_rsp t) 20 = ctx"

section \<open>The system\<close>

text \<open>
  The last component of a state is a record of the contexts for the statement only: the words the kernel
  saved for a process when an interrupt or a fault last took the processor from it. After an interrupt they
  are its context; after a fault the wrapper leaves the error code among them, which shifts them by one.
\<close>

definition entry_ctx :: "u64 option \<Rightarrow> cpu \<Rightarrow> u64 list" where
  "entry_ctx err c = (case err of None \<Rightarrow> saved_ctx c
     | Some e \<Rightarrow> map (regs c) wrapper_pops @ [e, rip c, cs c, rflags c, regs c RSP])"

type_synonym ('f, 'q) system = "cpu \<times> ('f, 'q) machine \<times> (nat \<rightharpoonup> u64 list)"

definition irq_result :: "x86_api \<Rightarrow> (u64, 'q) array_queue \<Rightarrow> ('f, 'q, 'x) machine_poll \<Rightarrow> u64 \<Rightarrow>
    ('f, 'q, 'x) machine_scheme \<Rightarrow> u64 \<Rightarrow> ('f, 'q, 'x) machine_scheme \<Rightarrow> bool" where
  "irq_result A Q P p m q m' \<longleftrightarrow> timer_handler_inner A Q P p m = Some (Ok (q, m'))
     \<or> (\<exists>data. serial_handler_inner Q P data p m = Some (q, m'))
     \<or> (\<exists>data. keyboard_handler_inner Q P data p m = Some (q, m'))"

definition fault_result :: "x86_api \<Rightarrow> u64 \<Rightarrow> ('f, 'q, 'x) machine_scheme \<Rightarrow> u64 \<Rightarrow> ('f, 'q, 'x) machine_scheme \<Rightarrow> bool" where
  "fault_result A p m q m' \<longleftrightarrow> gpf_handler_inner A p m = Ok (q, m')
     \<or> (\<exists>cr2. page_fault_handler_inner A cr2 p m = Ok (q, m'))"

text \<open>The processor after an interrupt whose handler returned \<open>q\<close>, and its context in memory on entry.\<close>

definition irq_entry :: "u64 \<Rightarrow> u64 \<Rightarrow> u64 option \<Rightarrow> cpu \<Rightarrow> ('f, 'q, 'x) machine_scheme \<Rightarrow> memory \<times> u64" where
  "irq_entry kcs hnd err c m = wrapper_frame (hw_interrupt kcs (rsp0 (ktss m)) hnd err c)"

definition irq_exit :: "u64 \<Rightarrow> u64 \<Rightarrow> u64 option \<Rightarrow> u64 \<Rightarrow> (reg \<Rightarrow> u64) \<Rightarrow> memory \<Rightarrow> cpu \<Rightarrow> ('f, 'q, 'x) machine_scheme \<Rightarrow> cpu" where
  "irq_exit kcs hnd err q junk scratch c m =
     exec (handler_wrapper (rust_call (\<lambda>_ _ _. q) junk scratch 20)) (hw_interrupt kcs (rsp0 (ktss m)) hnd err c)"

text \<open>
  Ring 3 code cannot write kernel pages, load CS or write a machine register. A handler's Rust code may use its own kernel stack and any memory
  but the other processes' kernel stacks. A system call runs on the caller's stack and writes the caller's
  buffer, with interrupts masked: the step is for calls that return and stay off the kernel stacks, which the
  kernel does not check. \<^verbatim>\<open>SYS_YIELD\<close>, which halts inside the call, is treated at the end.
\<close>

inductive sys_step :: "x86_api \<Rightarrow> (u64, 'q) array_queue \<Rightarrow> ('f, 'q, unit) machine_poll \<Rightarrow> access \<Rightarrow>
    ('f, 'q) system \<Rightarrow> ('f, 'q) system \<Rightarrow> bool"
  for A Q P acc where
  sys_user: "keeps_kstacks (\<lambda>_. True) m (cmem c) (cmem c') \<Longrightarrow> cs c' = cs c \<Longrightarrow> msr_star c' = msr_star c \<Longrightarrow>
    sys_step A Q P acc (c, m, g) (c', m, g)"
| sys_irq: "cs c AND 3 = 3 \<Longrightarrow> irq_entry kcs hnd None c m = (mem, p) \<Longrightarrow> irq_result A Q P p (m\<lparr>kmem := mem\<rparr>) q m' \<Longrightarrow>
    keeps_kstacks (\<lambda>k. k \<noteq> unat (cur_idx m)) m mem scratch \<Longrightarrow>
    sys_step A Q P acc (c, m, g) (irq_exit kcs hnd None q junk scratch c m, m',
      if cur_idx m' = cur_idx m then g else g(unat (cur_idx m) \<mapsto> saved_ctx c))"
| sys_fault: "cs c AND 3 = 3 \<Longrightarrow> irq_entry kcs hnd (Some e) c m = (mem, p) \<Longrightarrow> fault_result A p (m\<lparr>kmem := mem\<rparr>) q m' \<Longrightarrow>
    keeps_kstacks (\<lambda>k. k \<noteq> unat (cur_idx m)) m mem scratch \<Longrightarrow>
    sys_step A Q P acc (c, m, g) (irq_exit kcs hnd (Some e) q junk scratch c m, m', g(unat (cur_idx m) \<mapsto> entry_ctx (Some e) c))"
| sys_call: "handle_syscall Q acc (regs c RAX) (regs c RDI) (regs c RSI)
      (m\<lparr>kmem := cmem (exec (map Push syscall_pushes) (hw_syscall c))\<rparr>) = Sys_Return v m' \<Longrightarrow>
    c' = exec (syscall_entry (rust_call (\<lambda>_ _ _. v) junk scratch 20)) (hw_syscall c) \<Longrightarrow>
    keeps_kstacks (\<lambda>_. True) m (cmem c) (cmem c') \<Longrightarrow> sys_step A Q P acc (c, m, g) (c', m', g)"

section \<open>The invariant\<close>

definition isolated :: "x86_api \<Rightarrow> ('f, 'q) system \<Rightarrow> bool" where
  "isolated A s \<longleftrightarrow> (case s of (c, m, g) \<Rightarrow>
     sched_ok A m \<and> layout_ok m \<and> rsp0 (ktss m) = t_kernel_stack_top (listed m (unat (cur_idx m)))
     \<and> (\<forall>k < length (task_list m). k \<noteq> unat (cur_idx m) \<longrightarrow>
          (\<forall>ctx. g k = Some ctx \<longrightarrow> saved_at (cmem c) (listed m k) ctx)))"

section \<open>Where an interrupt writes\<close>

lemma align16: "(a :: u64) AND NOT 15 = a - take_bit 4 a" "unat (take_bit 4 a) \<le> 15"
proof -
  have m: "(15 :: u64) = mask 4" by (simp add: mask_eq_exp_minus_1)
  have "a - take_bit 4 a = a AND NOT (take_bit 4 a)"
    by (rule disjunctive_diff_eq_and_not) (auto simp: bit_eq_iff bit_simps)
  also have "\<dots> = a AND NOT (mask 4)"
    by (rule bit_word_eqI) (auto simp: bit_simps)
  finally show "a AND NOT 15 = a - take_bit 4 a" by (simp add: m)
  have "unat (take_bit 4 a) = unat a mod 16"
    by (simp only: unsigned_take_bit_eq) (simp add: take_bit_eq_mod)
  then show "unat (take_bit 4 a) \<le> 15" by simp
qed

definition entry_words :: "u64 option \<Rightarrow> nat" where
  "entry_words err = (case err of None \<Rightarrow> 20 | Some _ \<Rightarrow> 21)"

lemma irq_entry_mem:
  assumes "cs c AND 3 = 3" "irq_entry kcs hnd err c m = (mem, p)"
  shows "p = (rsp0 (ktss m) AND NOT 15) - of_nat (8 * entry_words err)"
    "8 * entry_words err \<le> unat (x - p) \<Longrightarrow> mem x = cmem c x"
proof -
  define T where "T = rsp0 (ktss m) AND NOT 15"
  define ws where "ws = [ss c, regs c RSP, rflags c, cs c, rip c] @ (case err of None \<Rightarrow> [] | Some e \<Rightarrow> [e])"
  let ?i = "hw_interrupt kcs (rsp0 (ktss m)) hnd err c"
  have i: "cmem ?i = fst (push_all (cmem c, T) ws)" "regs ?i RSP = T - of_nat (8 * length ws)"
    using assms(1) by (simp_all add: hw_interrupt_def Let_def split_beta T_def ws_def push_all_sp split: option.split)
  let ?vs = "ws @ map (regs ?i) wrapper_pushes"
  have mem: "mem = fst (push_all (cmem c, T) ?vs)" and p: "p = regs ?i RSP - 120"
    using assms(2) i push_all_sp[of "cmem c" T ws]
    by (auto simp: irq_entry_def wrapper_frame_def exec_pushes_mem simp del: push_all_Cons) (metis prod.collapse)
  have n: "length ?vs = entry_words err" by (simp add: ws_def entry_words_def split: option.split)
  have w: "length ws + 15 = entry_words err" using n by simp
  have "T - of_nat (8 * length ws) - 120 = T - of_nat (8 * (length ws + 15))" by simp
  then show "p = (rsp0 (ktss m) AND NOT 15) - of_nat (8 * entry_words err)"
    unfolding p i(2) w T_def .
  then have pT: "p = T - of_nat (8 * length ?vs)" by (simp only: n T_def)
  show "mem x = cmem c x" if "8 * entry_words err \<le> unat (x - p)"
    unfolding mem
  proof (rule push_all_other)
    show "8 * length ?vs \<le> unat (x - (T - of_nat (8 * length ?vs)))" using that unfolding pT n .
    show "length ?vs < 2 ^ 59" unfolding n by (simp add: entry_words_def split: option.split)
  qed
qed

lemma irq_entry_place:
  assumes "cs c AND 3 = 3" "irq_entry kcs hnd err c m = (mem, p)" "rsp0 (ktss m) = t_kernel_stack_top t"
  shows "unat (p - kbase t) + 8 * entry_words err \<le> 0x8000" "\<not> in_kstack t x \<Longrightarrow> mem x = cmem c x"
proof -
  define n where "n = 8 * entry_words err"
  define r where "r = take_bit 4 (t_kernel_stack_top t)"
  have n: "n \<le> 168" by (simp add: n_def entry_words_def split: option.split)
  have r: "unat r \<le> 15" by (simp add: r_def align16(2))
  have p: "p = t_kernel_stack_top t - r - of_nat n"
    using irq_entry_mem(1)[OF assms(1,2)] by (simp only: assms(3) align16(1) r_def n_def)
  have un: "unat (of_nat n :: u64) = n" using n by (intro unat_of_nat64) simp
  have d: "p - kbase t = 0x8000 - (r + of_nat n)" by (simp add: p kbase_def)
  have rn: "unat (r + of_nat n) = unat r + n" using r n by (intro unat_add_of_nat) simp
  have "unat (p - kbase t) = 0x8000 - (unat r + n)"
    unfolding d using r n rn by (subst unat_sub) (simp_all add: word_le_nat_alt)
  then have pu: "unat (p - kbase t) + n \<le> 0x8000" using r n by linarith
  then show "unat (p - kbase t) + 8 * entry_words err \<le> 0x8000" by (simp add: n_def)
  show "mem x = cmem c x" if "\<not> in_kstack t x"
  proof (rule irq_entry_mem(2)[OF assms(1,2)], rule ccontr)
    assume "\<not> 8 * entry_words err \<le> unat (x - p)"
    then have less: "unat (x - p) < n" by (simp add: n_def)
    have "x - kbase t = (p - kbase t) + of_nat (unat (x - p))" by simp
    then have "unat (x - kbase t) = unat (p - kbase t) + unat (x - p)"
      using unat_add_of_nat[of "p - kbase t" "unat (x - p)"] less pu by simp
    then show False using that less pu by (simp add: in_kstack_def)
  qed
qed

lemma kstacks_apart:
  assumes "layout_ok m" "i < length (task_list m)" "j < length (task_list m)" "i \<noteq> j" "in_kstack (listed m i) x"
  shows "\<not> in_kstack (listed m j) x"
proof -
  have "0x8000 \<le> unat (kbase (listed m i) + of_nat (unat (x - kbase (listed m i))) - kbase (listed m j))"
    using assms by (intro unat_areas_apart[of _ "0x8000"]) (auto simp: layout_ok_def in_kstack_def)
  then show ?thesis by (simp add: in_kstack_def)
qed

lemma saved_at_keep:
  assumes "saved_at mem t ctx" "\<forall>x. in_kstack t x \<longrightarrow> mem' x = mem x"
  shows "saved_at mem' t ctx"
proof -
  have r: "unat (t_kernel_rsp t - kbase t) + 160 \<le> 0x8000" using assms(1) by (simp add: saved_at_def)
  have "frame mem' (t_kernel_rsp t) 20 = frame mem (t_kernel_rsp t) 20"
  proof (rule frame_cong)
    fix i :: nat assume i: "i < 8 * 20"
    have e: "t_kernel_rsp t + of_nat i - kbase t = (t_kernel_rsp t - kbase t) + of_nat i" by simp
    have "unat (t_kernel_rsp t + of_nat i - kbase t) = unat (t_kernel_rsp t - kbase t) + i"
      unfolding e using r i by (intro unat_add_of_nat) simp
    then have "in_kstack t (t_kernel_rsp t + of_nat i)" using r i by (simp add: in_kstack_def)
    then show "mem' (t_kernel_rsp t + of_nat i) = mem (t_kernel_rsp t + of_nat i)" using assms(2) by blast
  qed
  then show ?thesis using assms(1) by (simp add: saved_at_def)
qed

section \<open>What a handler does to the scheduler\<close>

definition near :: "('f, 'q, 'x) machine_scheme \<Rightarrow> ('f, 'q, 'x) machine_scheme \<Rightarrow> bool" where
  "near m m' \<longleftrightarrow> task_list m' = task_list m \<and> cur_idx m' = cur_idx m \<and> ktss m' = ktss m \<and> tl_locked m' = tl_locked m
     \<and> (\<forall>r. t_kernel_stack_top (heap m' r) = t_kernel_stack_top (heap m r) \<and> t_kernel_rsp (heap m' r) = t_kernel_rsp (heap m r))"

definition moved :: "('f, 'q, 'x) machine_scheme \<Rightarrow> u64 \<Rightarrow> u64 \<Rightarrow> ('f, 'q, 'x) machine_scheme \<Rightarrow> bool" where
  "moved m p q m' \<longleftrightarrow> task_list m' = task_list m
     \<and> (\<forall>k. t_kernel_stack_top (listed m' k) = t_kernel_stack_top (listed m k))
     \<and> (\<forall>k < length (task_list m). k \<noteq> unat (cur_idx m) \<longrightarrow> t_kernel_rsp (listed m' k) = t_kernel_rsp (listed m k))
     \<and> (if cur_idx m' = cur_idx m
        then q = p \<and> (ktss m' = ktss m \<or> rsp0 (ktss m') = t_kernel_stack_top (listed m (unat (cur_idx m))))
        else q = t_kernel_rsp (listed m (unat (cur_idx m'))) \<and> t_kernel_rsp (listed m' (unat (cur_idx m))) = p
           \<and> rsp0 (ktss m') = t_kernel_stack_top (listed m (unat (cur_idx m'))))"

lemma near_refl: "near m m"
  by (simp add: near_def)

lemma near_sched_ok: "near m m' \<Longrightarrow> sched_ok A m' = sched_ok A m"
  by (auto simp: near_def sched_ok_def)

lemma near_stay:
  assumes "near m m'"
  shows "moved m p p m'"
  using assms by (simp add: near_def moved_def listed_def)

lemma near_private:
  assumes "same_private m m'"
  shows "near m m'"
  using same_private_task[OF assms] assms by (simp add: near_def same_private_def)

lemma near_trans: "near m m' \<Longrightarrow> near m' m'' \<Longrightarrow> near m m''"
  by (simp add: near_def)

lemma schedule_moved:
  assumes "sched_ok A m" "near m m1" "schedule_next A p force m1 = Ok (q, m')"
  shows "sched_ok A m'" "moved m p q m'"
proof -
  have ok: "sched_ok A m1" using assms(1) near_sched_ok[OF assms(2)] by blast
  define i where "i = unat (cur_idx m1)"
  have i: "i < length (task_list m1)" using sched_okD(2)[OF ok] by (simp add: i_def)
  have l: "t_kernel_stack_top (listed m1 k) = t_kernel_stack_top (listed m k)"
    "t_kernel_rsp (listed m1 k) = t_kernel_rsp (listed m k)" for k
    using assms(2) by (simp_all add: near_def listed_def)
  have e: "task_list m1 = task_list m" "cur_idx m1 = cur_idx m" "ktss m1 = ktss m"
    using assms(2) by (simp_all add: near_def)
  consider (switch) j where "j = next_index m1 i" "q = (if i = j then p else t_kernel_rsp (listed m1 j))" "m' = after_switch i j p m1"
    | (stay) "q = p" "m' = m1"
    using schedule_next_cases[OF ok, of force p] assms(3) by (auto simp: i_def)
  then have "sched_ok A m' \<and> moved m p q m'"
  proof cases
    case switch
    have j: "j < length (task_list m1)" using next_index_less[OF i] switch(1) by simp
    then have "j < 2 ^ 64" using sched_okD(3)[OF ok] by linarith
    then have ju: "unat (of_nat j :: u64) = j" by simp
    have iu: "of_nat i = cur_idx m" and ic: "unat (cur_idx m) = i" by (simp_all add: i_def e)
    have same: "of_nat j = cur_idx m \<longleftrightarrow> i = j" using ju iu e(2) by (auto simp: i_def)
    have lu: "listed m' k = (if k = i then (listed m1 i)\<lparr>t_kernel_rsp := p\<rparr> else listed m1 k)"
      if "k < length (task_list m1)" for k
      using that i sched_okD(4)[OF ok] by (simp add: switch(3) listed_def nth_eq_iff_index_eq)
    have top: "t_kernel_stack_top (listed m' k) = t_kernel_stack_top (listed m1 k)" for k
      by (simp add: switch(3) listed_def)
    have tl: "task_list m' = task_list m" by (simp add: switch(3) e(1))
    have rsp: "t_kernel_rsp (listed m' k) = t_kernel_rsp (listed m k)" if "k < length (task_list m)" "k \<noteq> i" for k
      using lu[of k] that l(2) e(1) by simp
    have ci: "cur_idx m' = of_nat j" "rsp0 (ktss m') = t_kernel_stack_top (listed m j)" by (simp_all add: switch(3) l)
    have "moved m p q m'"
    proof (cases "i = j")
      case True
      then have "cur_idx m' = cur_idx m" "q = p" using ci(1) same switch(2) by simp_all
      then show ?thesis using tl top l rsp ci(2) True ic by (simp add: moved_def)
    next
      case False
      then have "cur_idx m' \<noteq> cur_idx m" "q = t_kernel_rsp (listed m j)" using ci(1) same switch(2) l(2) by simp_all
      moreover have "t_kernel_rsp (listed m' i) = p" using lu[OF i] by simp
      ultimately show ?thesis using tl top l rsp ci ju ic by (simp add: moved_def)
    qed
    then show ?thesis using after_switch_sched_ok[OF ok i j] switch(3) by blast
  next
    case stay
    then show ?thesis using near_stay[OF assms(2)] ok by simp
  qed
  then show "sched_ok A m'" "moved m p q m'" by simp_all
qed

lemma irq_moved:
  assumes "poll_private P" "sched_ok A m" "irq_result A Q P p m q m'"
  shows "sched_ok A m'" "moved m p q m'"
proof -
  have near_device: "near m x" if "poll_kernel_tasks Q P (notify_end_of_interrupt d (post_byte label data m)) = Some x" for d label data x
    using near_trans[OF _ near_private[OF poll_kernel_private[OF assms(1) that]], of m]
    by (simp add: near_def notify_end_of_interrupt_def post_byte_def)
  have near_timer: "near m (x\<lparr>tick_count := tick_count x + 1\<rparr>)" if "poll_kernel_tasks Q P (notify_end_of_interrupt Timer m) = Some x" for x
    using near_trans[OF _ near_private[OF poll_kernel_private[OF assms(1) that]], of m]
    by (simp add: near_def notify_end_of_interrupt_def)
  consider (timer) x where "poll_kernel_tasks Q P (notify_end_of_interrupt Timer m) = Some x"
      "schedule_next A p False (x\<lparr>tick_count := tick_count x + 1\<rparr>) = Ok (q, m')"
    | (device) d label data where "poll_kernel_tasks Q P (notify_end_of_interrupt d (post_byte label data m)) = Some m'" "q = p"
    using assms(3) unfolding irq_result_def timer_handler_inner_def serial_handler_inner_def keyboard_handler_inner_def
    by auto
  then have "sched_ok A m' \<and> moved m p q m'"
  proof cases
    case timer
    then show ?thesis using schedule_moved[OF assms(2) near_timer[OF timer(1)] timer(2)] by blast
  next
    case device
    then show ?thesis using near_stay[OF near_device[OF device(1)]] near_sched_ok[OF near_device[OF device(1)]] assms(2) by blast
  qed
  then show "sched_ok A m'" "moved m p q m'" by simp_all
qed

lemma kill_near:
  assumes "sched_ok A m" "kill_current report m = Ok m1"
  shows "near m m1"
  using assms by (auto simp: kill_current_def Let_def near_def println_def sched_ok_def split: if_splits)

lemma fault_moved:
  assumes "sched_ok A m" "fault_result A p m q m'"
  shows "sched_ok A m'" "moved m p q m'"
proof -
  obtain report m1 where "kill_current report m = Ok m1" "schedule_next A p True m1 = Ok (q, m')"
    using assms(2) by (auto simp: fault_result_def gpf_handler_inner_def page_fault_handler_inner_def)
  then show "sched_ok A m'" "moved m p q m'" using schedule_moved[OF assms(1) kill_near[OF assms(1)]] by blast+
qed

section \<open>Leaving the wrapper\<close>

lemma irq_exit_mem:
  assumes "irq_entry kcs hnd err c m = (mem, p)"
  shows "cmem (irq_exit kcs hnd err q junk scratch c m) = (\<lambda>x. if unat (x - p) < 160 then mem x else scratch x)"
    "saved_ctx (irq_exit kcs hnd err q junk scratch c m) = frame (cmem (irq_exit kcs hnd err q junk scratch c m)) q 20"
proof -
  let ?i = "hw_interrupt kcs (rsp0 (ktss m)) hnd err c" and ?h = "rust_call (\<lambda>_ _ _. q) junk scratch 20"
  obtain c1 where c1: "regs c1 RSP = regs ?i RSP - 120" "cmem c1 = cmem (exec (map Push wrapper_pushes) ?i)"
    "cmem (exec (handler_wrapper ?h) ?i) = cmem (?h c1)"
    "saved_ctx (exec (handler_wrapper ?h) ?i) = frame (cmem (?h c1)) (regs (?h c1) RAX) 20"
    using rust.wrapper_exit[where f = "\<lambda>_ _ _. q" and junk = junk and scratch = scratch and c = ?i] by auto
  have p: "regs ?i RSP - 120 = p" "cmem (exec (map Push wrapper_pushes) ?i) = mem"
    using assms by (simp_all add: irq_entry_def wrapper_frame_def)
  show "cmem (irq_exit kcs hnd err q junk scratch c m) = (\<lambda>x. if unat (x - p) < 160 then mem x else scratch x)"
    using c1(1-3) p by (simp add: irq_exit_def rust_call_def cong: if_cong)
  show "saved_ctx (irq_exit kcs hnd err q junk scratch c m) = frame (cmem (irq_exit kcs hnd err q junk scratch c m)) q 20"
    using c1(3,4) by (simp add: irq_exit_def rust_call_result)
qed

text \<open>The words saved on entry survive the handler; so do the other kernel stacks.\<close>

lemma irq_entry_frame:
  assumes "irq_entry kcs hnd err c m = (mem, p)"
  shows "frame mem p 20 = entry_ctx err c"
proof -
  let ?i = "hw_interrupt kcs (rsp0 (ktss m)) hnd err c"
  have mem: "mem = cmem (exec (map Push wrapper_pushes) ?i)" "p = regs ?i RSP - 120"
    using assms by (simp_all add: irq_entry_def wrapper_frame_def)
  have "frame mem p 20 = map (regs c) wrapper_pops @ frame (cmem ?i) (regs ?i RSP) 5"
    using wrapper_entry_frame[of 5 ?i] unfolding mem by (simp add: hw_interrupt_regs wrapper_pops_def)
  moreover have "frame (cmem ?i) (regs ?i RSP) 6 = frame (cmem ?i) (regs ?i RSP) 5 @ frame (cmem ?i) (regs ?i RSP + 40) 1"
    using frame_append[of "cmem ?i" "regs ?i RSP" 5 1] by simp
  ultimately show ?thesis
    using hw_interrupt_frame[of kcs "rsp0 (ktss m)" hnd err c]
    by (cases err) (simp_all add: entry_ctx_def saved_ctx_def eval_nat_numeral frame_Suc)
qed

lemma irq_exit_frame:
  assumes "irq_entry kcs hnd err c m = (mem, p)"
  shows "frame (cmem (irq_exit kcs hnd err q junk scratch c m)) p 20 = entry_ctx err c"
proof -
  have "frame (cmem (irq_exit kcs hnd err q junk scratch c m)) p 20 = frame mem p 20"
  proof (rule frame_cong)
    fix i :: nat assume i: "i < 8 * 20"
    then have "unat (of_nat i :: u64) < 160" using unat_of_nat64[of i] by simp
    then show "cmem (irq_exit kcs hnd err q junk scratch c m) (p + of_nat i) = mem (p + of_nat i)"
      by (simp add: irq_exit_mem(1)[OF assms])
  qed
  then show ?thesis using irq_entry_frame[OF assms] by simp
qed

lemma irq_exit_others:
  assumes "layout_ok m" "i < length (task_list m)" "rsp0 (ktss m) = t_kernel_stack_top (listed m i)"
    and "cs c AND 3 = 3" "irq_entry kcs hnd err c m = (mem, p)" "keeps_kstacks (\<lambda>k. k \<noteq> i) m mem scratch"
    and "k < length (task_list m)" "k \<noteq> i" "in_kstack (listed m k) x"
  shows "cmem (irq_exit kcs hnd err q junk scratch c m) x = cmem c x"
proof -
  have "mem x = cmem c x"
    using irq_entry_place(2)[OF assms(4,5,3)] kstacks_apart[OF assms(1,7,2,8,9)] by blast
  moreover have "scratch x = mem x" using assms(6-9) by (auto simp: keeps_kstacks_def)
  ultimately show ?thesis by (simp add: irq_exit_mem(1)[OF assms(5)])
qed

section \<open>Isolation is an invariant\<close>

lemma moved_layout:
  assumes "moved m p q m'"
  shows "layout_ok m' = layout_ok m" "kbase (listed m' k) = kbase (listed m k)" "in_kstack (listed m' k) = in_kstack (listed m k)"
proof -
  have b: "kbase (listed m' k) = kbase (listed m k)" for k using assms by (simp add: moved_def kbase_def)
  show "layout_ok m' = layout_ok m" using assms b by (simp add: layout_ok_def moved_def)
  show "kbase (listed m' k) = kbase (listed m k)" by (rule b)
  show "in_kstack (listed m' k) = in_kstack (listed m k)" by (simp add: in_kstack_def b fun_eq_iff)
qed

text \<open>An interrupt, with the context recorded for the interrupted process if it is switched away from.\<close>

lemma interrupt_isolated:
  assumes "isolated A (c, m, g)" "cs c AND 3 = 3" "irq_entry kcs hnd err c m = (mem, p)"
    and "sched_ok A m'" "moved m p q m'" "keeps_kstacks (\<lambda>k. k \<noteq> unat (cur_idx m)) m mem scratch"
    and g': "\<And>k. k \<noteq> unat (cur_idx m) \<Longrightarrow> g' k = g k"
    and own: "\<And>ctx. cur_idx m' \<noteq> cur_idx m \<Longrightarrow> g' (unat (cur_idx m)) = Some ctx \<Longrightarrow>
               frame (cmem (irq_exit kcs hnd err q junk scratch c m)) p 20 = ctx"
  shows "isolated A (irq_exit kcs hnd err q junk scratch c m, m', g')"
proof -
  define i where "i = unat (cur_idx m)"
  define c' where "c' = irq_exit kcs hnd err q junk scratch c m"
  have inv: "sched_ok A m" "layout_ok m" "rsp0 (ktss m) = t_kernel_stack_top (listed m i)"
    "\<And>k ctx. k < length (task_list m) \<Longrightarrow> k \<noteq> i \<Longrightarrow> g k = Some ctx \<Longrightarrow> saved_at (cmem c) (listed m k) ctx"
    using assms(1) by (auto simp: isolated_def i_def)
  have i: "i < length (task_list m)" using sched_okD(2)[OF inv(1)] by (simp add: i_def)
  have mv: "task_list m' = task_list m" "\<And>k. t_kernel_stack_top (listed m' k) = t_kernel_stack_top (listed m k)"
    "\<And>k. k < length (task_list m) \<Longrightarrow> k \<noteq> i \<Longrightarrow> t_kernel_rsp (listed m' k) = t_kernel_rsp (listed m k)"
    using assms(5) by (simp_all add: moved_def i_def)
  have tss: "rsp0 (ktss m') = t_kernel_stack_top (listed m' (unat (cur_idx m')))"
    using assms(5) inv(3) by (auto simp: moved_def i_def split: if_splits)
  have saved: "saved_at (cmem c') (listed m' k) ctx"
    if k: "k < length (task_list m)" "k \<noteq> unat (cur_idx m')" "g' k = Some ctx" for k ctx
  proof (cases "k = i")
    case False
    have "saved_at (cmem c) (listed m k) ctx" using inv(4)[OF k(1) False] g'[of k] False k(3) by (simp add: i_def)
    moreover have "\<forall>x. in_kstack (listed m k) x \<longrightarrow> cmem c' x = cmem c x"
      using irq_exit_others[OF inv(2) i inv(3) assms(2,3) _ k(1) False] assms(6) by (simp add: i_def c'_def)
    ultimately have "saved_at (cmem c') (listed m k) ctx" by (rule saved_at_keep)
    then show ?thesis using mv(3)[OF k(1) False] moved_layout(2)[OF assms(5)] by (simp add: saved_at_def)
  next
    case True
    then have ne: "cur_idx m' \<noteq> cur_idx m" using k(2) by (auto simp: i_def)
    then have r: "t_kernel_rsp (listed m' i) = p" using assms(5) by (simp add: moved_def i_def)
    have "unat (p - kbase (listed m i)) + 8 * entry_words err \<le> 0x8000"
      by (rule irq_entry_place(1)[OF assms(2,3) inv(3)])
    moreover have "160 \<le> 8 * entry_words err" by (simp add: entry_words_def split: option.split)
    ultimately have "unat (p - kbase (listed m i)) + 160 \<le> 0x8000" by linarith
    moreover have "frame (cmem c') p 20 = ctx" using own[OF ne] k(3) True by (simp add: i_def c'_def)
    ultimately show ?thesis using True r moved_layout(2)[OF assms(5)] by (simp add: saved_at_def)
  qed
  show ?thesis
    unfolding isolated_def c'_def[symmetric] using assms(4) inv(2) moved_layout(1)[OF assms(5)] tss saved mv(1) by simp
qed

lemma kmem_irrelevant [simp]:
  "sched_ok A (m\<lparr>kmem := x\<rparr>) = sched_ok A m" "moved (m\<lparr>kmem := x\<rparr>) p q m' = moved m p q m'"
  by (simp_all add: sched_ok_def moved_def listed_def)

lemma call_near:
  fixes m :: "('f, 'q, 'x) machine_scheme"
  assumes "handle_syscall Q acc i a b (m\<lparr>kmem := mem\<rparr>) = Sys_Return v m'"
  shows "near m m'"
proof -
  let ?s = "sys_state (handle_syscall Q acc i a b (m\<lparr>kmem := mem\<rparr>))"
  have "kernel_globals.more ?s = kernel_globals.more (m\<lparr>kmem := mem\<rparr>)"
    by (rule syscall_cases[where i = i and Q = Q and acc = acc and a = a and b = b and g = "m\<lparr>kmem := mem\<rparr>"];
        simp add: sys_defs split: sys_splits)
  then have "task_list ?s = task_list m \<and> cur_idx ?s = cur_idx m \<and> ktss ?s = ktss m \<and> tl_locked ?s = tl_locked m"
    by (cases m, cases ?s) simp
  moreover have "?s = m'" using assms by simp
  moreover have "t_kernel_stack_top (heap ?s r) = t_kernel_stack_top (heap m r)"
    "t_kernel_rsp (heap ?s r) = t_kernel_rsp (heap m r)" for r
    by (simp_all add: syscall_keeps_task)
  ultimately show ?thesis by (simp add: near_def)
qed

lemma isolated_memory:
  assumes "isolated A (c, m, g)" "near m m'" "keeps_kstacks (\<lambda>_. True) m (cmem c) (cmem c')"
  shows "isolated A (c', m', g)"
proof -
  have mv: "moved m 0 0 m'" by (rule near_stay[OF assms(2)])
  have inv: "sched_ok A m" "layout_ok m" "rsp0 (ktss m) = t_kernel_stack_top (listed m (unat (cur_idx m)))"
    using assms(1) by (simp_all add: isolated_def)
  have saved: "saved_at (cmem c') (listed m' k) ctx"
    if k: "k < length (task_list m)" "k \<noteq> unat (cur_idx m)" "g k = Some ctx" for k ctx
  proof -
    have "saved_at (cmem c) (listed m k) ctx" using assms(1) k by (simp add: isolated_def)
    moreover have "\<forall>x. in_kstack (listed m k) x \<longrightarrow> cmem c' x = cmem c x"
      using assms(3) k(1) by (simp add: keeps_kstacks_def)
    ultimately have "saved_at (cmem c') (listed m k) ctx" by (rule saved_at_keep)
    moreover have "t_kernel_rsp (listed m' k) = t_kernel_rsp (listed m k)"
      using assms(2) by (simp add: near_def listed_def)
    ultimately show ?thesis using moved_layout(2)[OF mv] by (simp add: saved_at_def)
  qed
  have "sched_ok A m'" using inv(1) near_sched_ok[OF assms(2)] by blast
  then show ?thesis
    unfolding isolated_def using inv(2,3) moved_layout(1)[OF mv] saved assms(2) by (simp add: near_def listed_def)
qed

lemma sys_step_isolated:
  assumes "poll_private P" "isolated A s" "sys_step A Q P acc s t"
  shows "isolated A t"
  using assms(3,2)
proof (induction rule: sys_step.induct)
  case (sys_user m c c' g)
  then show ?case using isolated_memory[OF _ near_refl] by blast
next
  case (sys_irq c kcs hnd m mem p q m' scratch g junk)
  have ok: "sched_ok A m" using sys_irq.prems by (simp add: isolated_def)
  have mv: "sched_ok A m'" "moved m p q m'" using irq_moved[OF assms(1) _ sys_irq.hyps(3)] ok by simp_all
  show ?case
    using irq_exit_frame[OF sys_irq.hyps(2)] entry_ctx_def[of None]
    by (intro interrupt_isolated[OF sys_irq.prems sys_irq.hyps(1,2) mv sys_irq.hyps(4)]) (auto split: if_splits)
next
  case (sys_fault c kcs hnd e m mem p q m' scratch g junk)
  have ok: "sched_ok A m" using sys_fault.prems by (simp add: isolated_def)
  have mv: "sched_ok A m'" "moved m p q m'" using fault_moved[OF _ sys_fault.hyps(3)] ok by simp_all
  show ?case
    using irq_exit_frame[OF sys_fault.hyps(2)]
    by (intro interrupt_isolated[OF sys_fault.prems sys_fault.hyps(1,2) mv sys_fault.hyps(4)]) simp_all
next
  case (sys_call c m v m' c' junk scratch g)
  show ?case by (rule isolated_memory[OF sys_call.prems call_near[OF sys_call.hyps(1)] sys_call.hyps(3)])
qed

interpretation isolation: invariant_system "isolated A" "sys_step A Q P acc" "\<lambda>s. poll_private P \<longrightarrow> isolated A s" for A Q P acc
  by unfold_locales (auto intro: sys_step_isolated)

section \<open>Contexts survive\<close>

lemma contexts_kept:
  assumes "poll_private P" and iso: "isolated A (c, m, g)" and "cs c AND 3 = 3"
    and "irq_entry kcs hnd err c m = (mem, p)" and "keeps_kstacks (\<lambda>k. k \<noteq> unat (cur_idx m)) m mem scratch"
    and "err = None \<and> irq_result A Q P p (m\<lparr>kmem := mem\<rparr>) q m' \<or> err \<noteq> None \<and> fault_result A p (m\<lparr>kmem := mem\<rparr>) q m'"
  shows "(cur_idx m' = cur_idx m \<longrightarrow> saved_ctx (irq_exit kcs hnd err q junk scratch c m) = entry_ctx err c)
     \<and> (cur_idx m' \<noteq> cur_idx m \<longrightarrow>
         (\<forall>ctx. g (unat (cur_idx m')) = Some ctx \<longrightarrow> saved_ctx (irq_exit kcs hnd err q junk scratch c m) = ctx))"
proof -
  define i j where "i = unat (cur_idx m)" and "j = unat (cur_idx m')"
  have inv: "sched_ok A m" "layout_ok m" "rsp0 (ktss m) = t_kernel_stack_top (listed m i)"
    using iso by (simp_all add: isolated_def i_def)
  have mv: "sched_ok A m'" "moved m p q m'"
    using assms(6) irq_moved[OF assms(1), of A "m\<lparr>kmem := mem\<rparr>"] fault_moved[of A "m\<lparr>kmem := mem\<rparr>"] inv(1) by auto
  have i: "i < length (task_list m)" and j: "j < length (task_list m)"
    using sched_okD(2)[OF inv(1)] sched_okD(2)[OF mv(1)] mv(2) by (simp_all add: i_def j_def moved_def)
  have stay: "saved_ctx (irq_exit kcs hnd err q junk scratch c m) = entry_ctx err c" if "cur_idx m' = cur_idx m"
    using irq_exit_mem(2)[OF assms(4)] irq_exit_frame[OF assms(4)] mv(2) that by (simp add: moved_def)
  have switch: "saved_ctx (irq_exit kcs hnd err q junk scratch c m) = ctx" if "cur_idx m' \<noteq> cur_idx m" "g j = Some ctx" for ctx
  proof -
    have ne: "j \<noteq> i" using that(1) by (simp add: i_def j_def word_unat_eq_iff)
    have "saved_at (cmem c) (listed m j) ctx" using iso j ne that(2) by (simp add: isolated_def i_def)
    moreover have "\<forall>x. in_kstack (listed m j) x \<longrightarrow> cmem (irq_exit kcs hnd err q junk scratch c m) x = cmem c x"
      using irq_exit_others[OF inv(2) i inv(3) assms(3,4) _ j ne] assms(5) by (simp add: i_def)
    ultimately have "saved_at (cmem (irq_exit kcs hnd err q junk scratch c m)) (listed m j) ctx" by (rule saved_at_keep)
    then show ?thesis
      using irq_exit_mem(2)[OF assms(4)] mv(2) that(1) by (simp add: moved_def j_def saved_at_def)
  qed
  show ?thesis using stay switch unfolding j_def by blast
qed



section \<open>The boot establishes it\<close>

definition booted_cpu :: "('m, 'h, ('f, 'q) machine) booted \<Rightarrow> cpu" where
  "booted_cpu r = exec (first_jump (bt_first_rsp r)) ((bt_cpu r)\<lparr>cmem := kmem (bt_machine r)\<rparr>)"

lemma first_jump_mem: "cmem (exec (first_jump rsp) c) = cmem c"
  by (simp add: first_jump_def pops_keep)

lemma two_processes_isolated:
  assumes "x86_api_ok (be_api E)" "kstacks_ok E" "two_processes E m" "cmem c = kmem m"
    and "rsp0 (ktss m) = be_kstack_a E + 0x8000"
    and "frame (kmem m) (t_kernel_rsp (listed m 1)) 20 = ctx"
  shows "isolated (be_api E) (c, m, [1 \<mapsto> ctx])"
proof -
  have l: "listed m 0 = process_of 1 (be_empty_future E) (be_kstack_a E)"
    "listed m (Suc 0) = process_of 2 (be_empty_future E) (be_kstack_b E)" "length (task_list m) = 2" "cur_idx m = 0"
    using assms(3) by (simp_all add: two_processes_def)
  have b: "kbase (listed m 0) = be_kstack_a E" "kbase (listed m (Suc 0)) = be_kstack_b E"
    by (simp_all add: l kbase_def process_of_def)
  have "layout_ok m"
    using assms(2) b l(3) by (auto simp: layout_ok_def kstacks_ok_def areas_apart_def less_2_cases_iff)
  moreover have "saved_at (cmem c) (listed m (Suc 0)) ctx"
    using assms(4,6) b(2) by (simp add: saved_at_def l(2) process_of_def)
  ultimately show ?thesis
    using two_processes_sched_ok[OF assms(1-3)] assms(5) l by (auto simp: isolated_def process_of_def less_2_cases_iff)
qed

lemma booted_isolated:
  fixes g :: "('f, 'q) machine"
  assumes "boot_env_ok E used items room" and "boot_data_ok E info hs entry" and "fresh_machine items room g"
  shows "\<exists>r. kernel_main E info h phys c g = Ok r \<and> rip (booted_cpu r) = entry \<and> cs (booted_cpu r) = 0x33
     \<and> two_processes E (bt_machine r)
     \<and> isolated (be_api E) (booted_cpu r, bt_machine r, [1 \<mapsto> process_frame entry 0x40008000])"
proof -
  obtain r where r: "kernel_main E info h phys c g = Ok r" "two_processes E (bt_machine r)"
    "rsp0 (ktss (bt_machine r)) = be_kstack_a E + 0x8000"
    "saved_ctx (booted_cpu r) = process_frame entry 0x30008000"
    "frame (kmem (bt_machine r)) (t_kernel_rsp (listed (bt_machine r) 1)) 20 = process_frame entry 0x40008000"
    unfolding booted_cpu_def using kernel_main_run[OF assms(1-3), of h phys c] by blast
  have A: "x86_api_ok (be_api E)" and K: "kstacks_ok E" using assms(1) by (simp_all add: boot_env_ok_def)
  have "isolated (be_api E) (booted_cpu r, bt_machine r, [1 \<mapsto> process_frame entry 0x40008000])"
    by (rule two_processes_isolated[OF A K r(2) _ r(3,5)]) (simp add: booted_cpu_def first_jump_mem)
  moreover have "rip (booted_cpu r) = entry" "cs (booted_cpu r) = 0x33"
    using r(4) by (simp_all add: saved_ctx_def process_frame_def wrapper_pops_def eval_nat_numeral)
  ultimately show ?thesis using r(1,2) by blast
qed


section \<open>What the kernel does not protect\<close>



section \<open>Witnesses\<close>

text \<open>
  The machine of two processes in ring 3 with the second one's context recorded; the timer tick that ends the
  first one's slice resumes the second.
\<close>

definition two_ctx :: "u64 list" where
  "two_ctx = frame (cmem user_cpu) 0x7F60 20"

definition late_procs :: "(unit, nat \<times> u64 list) machine" where
  "late_procs = two_procs\<lparr>tick_count := 4\<rparr>"

lemma late_procs_simps:
  "task_list late_procs = [0, 1]" "cur_idx late_procs = 0" "tick_count late_procs = 4"
  "listed late_procs = listed two_procs" "ktss late_procs = \<lparr>rsp0 = 0x10000, ist0 = 0\<rparr>"
  "ex_queue late_procs = (100, [])" "\<not> ex_locked late_procs"
  by (simp_all add: late_procs_def two_procs_simps listed_def fun_eq_iff) (simp add: two_procs_def)

lemma late_procs_isolated:
  assumes "g 1 = Some two_ctx"
  shows "isolated x86_ref (user_cpu, late_procs, g)"
proof -
  have b: "kbase (listed two_procs 0) = 0x8000" "kbase (listed two_procs (Suc 0)) = 0"
    by (simp_all add: kbase_def two_procs_listed)
  have "sched_ok x86_ref late_procs" using two_procs_ok by (simp add: late_procs_def sched_ok_def)
  moreover have "layout_ok late_procs"
    by (simp add: layout_ok_def late_procs_simps areas_apart_def All_less_Suc b)
  moreover have "saved_at (cmem user_cpu) (listed two_procs (Suc 0)) two_ctx"
    by (simp add: saved_at_def b) (simp add: two_procs_listed two_ctx_def)
  ultimately show ?thesis
    using assms by (simp add: isolated_def late_procs_simps All_less_Suc) (simp add: two_procs_listed)
qed

lemma late_timer:
  "\<exists>m'. timer_handler_inner x86_ref list_queue finish_now 0xFF60 (late_procs\<lparr>kmem := saved_mem\<rparr>) = Some (Ok (0x7F60, m'))
     \<and> cur_idx m' = 1"
proof -
  let ?m = "notify_end_of_interrupt Timer (late_procs\<lparr>kmem := saved_mem\<rparr>)"
  define t where "t = ?m\<lparr>cur_id := 0, ex_locked := False, tick_count := 5\<rparr>"
  have idle: "ex_queue ?m = (100, [])" "\<not> ex_locked ?m"
    by (simp_all add: notify_end_of_interrupt_def late_procs_simps)
  have l: "listed t = listed two_procs" "cur_idx t = 0" "task_list t = [0, 1]" "tick_count t = 5"
    using late_procs_simps by (simp_all add: t_def listed_def notify_end_of_interrupt_def fun_eq_iff)
  have ok: "sched_ok x86_ref t"
    using two_procs_ok by (simp add: t_def notify_end_of_interrupt_def late_procs_def sched_ok_def)
  have n: "next_index t 0 = 1"
    by (simp add: next_index_def Let_def l two_procs_listed ring_next_def eval_nat_numeral)
  have over: "slice_over t (listed t 0) False" by (simp add: slice_over_def l two_procs_listed blank_task_def)
  have "schedule_next x86_ref 0xFF60 False t = Ok (0x7F60, after_switch 0 1 0xFF60 t)"
    using schedule_next_switch[OF ok _ n[symmetric] over, of "0xFF60"] by (simp add: l two_procs_listed)
  moreover have "tick_count ?m + 1 = 5" by (simp add: notify_end_of_interrupt_def late_procs_simps)
  ultimately show ?thesis
    by (simp add: timer_handler_inner_def idle_poll[OF idle] t_def after_switch_def)
qed




definition serial_byte :: message where
  "serial_byte = \<lparr>msg_from = 0, msg_to = 1, msg_label = 3, msg_payload = (65, 0)\<rparr>"



end
