(* ===== verification/Privilege.thy ===== *)
theory Privilege
  imports Isolation
begin

text \<open>
  The privilege levels of the system of \<^verbatim>\<open>Isolation\<close>: a type discipline for saved contexts, under which the
  processor leaves the kernel in ring 3 only, and what happens to it when the scheduler runs out of
  processes that are alive.
\<close>

section \<open>Typed states\<close>

text \<open>The word of a frame that is loaded into CS asks for ring 3.\<close>

definition ring3_ctx :: "u64 list \<Rightarrow> bool" where
  "ring3_ctx ctx \<longleftrightarrow> ctx ! 16 AND 3 = 3"

definition alive :: "('f, 'q, 'x) machine_scheme \<Rightarrow> nat \<Rightarrow> bool" where
  "alive m k \<longleftrightarrow> t_state (listed m k) \<noteq> Terminated"

text \<open>The processor is in ring 3, and what is saved for a waiting process that is alive is a ring 3 context.\<close>

definition typed :: "x86_api \<Rightarrow> ('f, 'q) system \<Rightarrow> bool" where
  "typed A s \<longleftrightarrow> isolated A s \<and> (case s of (c, m, g) \<Rightarrow> cs c AND 3 = 3
     \<and> (\<forall>k < length (task_list m). k \<noteq> unat (cur_idx m) \<longrightarrow> alive m k \<longrightarrow> (\<exists>ctx. g k = Some ctx \<and> ring3_ctx ctx)))"

text \<open>A step after which the current process is alive.\<close>

definition live_step :: "x86_api \<Rightarrow> (u64, 'q) array_queue \<Rightarrow> ('f, 'q, unit) machine_poll \<Rightarrow> access \<Rightarrow>
    ('f, 'q) system \<Rightarrow> ('f, 'q) system \<Rightarrow> bool" where
  "live_step A Q P acc s t \<longleftrightarrow> sys_step A Q P acc s t \<and> (case t of (c, m, g) \<Rightarrow> alive m (unat (cur_idx m)))"

section \<open>Preservation\<close>

lemma saved_ctx_cs: "saved_ctx c ! 16 = cs c"
  by (simp add: saved_ctx_def nth_append)

lemma ring3_saved: "ring3_ctx (saved_ctx c) \<longleftrightarrow> cs c AND 3 = 3"
  by (simp add: ring3_ctx_def saved_ctx_cs)

lemma or3_and3: "(x OR 3) AND 3 = (3 :: u64)"
  by (rule bit_eqI) (auto simp: bit_and_iff bit_or_iff)

lemma syscall_exit_ring3: "cs (exec (syscall_entry (rust_call f junk scratch 20)) c) AND 3 = 3"
  by (rule syscall_entry_exec[of f junk scratch c]) (simp add: or3_and3)

text \<open>Every handler and every call is a step of the kernel's own state machine.\<close>

lemma irq_kstep: "irq_result A Q P p m q m' \<Longrightarrow> kstep A Q P acc m m'"
  by (auto simp: irq_result_def intro: kstep.intros)

lemma fault_kstep: "fault_result A p m q m' \<Longrightarrow> kstep A Q P acc m m'"
  by (auto simp: fault_result_def intro: kstep.intros)

lemma call_kstep: "handle_syscall Q acc i a b m = Sys_Return v m' \<Longrightarrow> kstep A Q P acc m m'"
  using step_syscall[of A Q P acc m i a b] by simp

lemma alive_before:
  assumes "poll_buries P" "kstep A Q P acc (m\<lparr>kmem := mem\<rparr>) m'" "task_list m' = task_list m" "alive m' k"
  shows "alive m k"
  using kstep_buried[OF assms(1) _ assms(2), of "task_list m ! k"] assms(3,4)
  by (auto simp: alive_def buried_def listed_def)

lemma fault_kills:
  assumes "sched_ok A m" "fault_result A p m q m'"
  shows "\<not> alive m' (unat (cur_idx m))"
proof -
  obtain report m1 where m1: "kill_current report m = Ok m1" "schedule_next A p True m1 = Ok (q, m')"
    using assms(2) by (auto simp: fault_result_def gpf_handler_inner_def page_fault_handler_inner_def)
  have "buried (task_list m ! unat (cur_idx m)) m1"
    using m1(1) sched_okD(1,2)[OF assms(1)] by (auto simp: kill_current_def Let_def buried_def)
  then have "buried (task_list m ! unat (cur_idx m)) m'" using schedule_buried[OF m1(2)] by blast
  moreover have "task_list m' = task_list m" using fault_moved(2)[OF assms] by (simp add: moved_def)
  ultimately show ?thesis by (simp add: alive_def buried_def listed_def)
qed

text \<open>One interrupt or fault: what is loaded is what was saved, and it is typed if its owner is alive.\<close>

lemma interrupt_typed:
  assumes P: "poll_private P" "poll_buries P" and t: "typed A (c, m, g)" and e: "irq_entry kcs hnd err c m = (mem, p)"
    and k: "keeps_kstacks (\<lambda>k. k \<noteq> unat (cur_idx m)) m mem scratch"
    and r: "err = None \<and> irq_result A Q P p (m\<lparr>kmem := mem\<rparr>) q m' \<or> err \<noteq> None \<and> fault_result A p (m\<lparr>kmem := mem\<rparr>) q m'"
    and live: "alive m' (unat (cur_idx m'))"
    and iso': "isolated A (irq_exit kcs hnd err q junk scratch c m, m', g')"
    and g': "\<And>k. k \<noteq> unat (cur_idx m) \<Longrightarrow> g' k = g k"
    and own: "err = None \<Longrightarrow> cur_idx m' \<noteq> cur_idx m \<Longrightarrow> g' (unat (cur_idx m)) = Some (saved_ctx c)"
  shows "typed A (irq_exit kcs hnd err q junk scratch c m, m', g')"
proof -
  let ?x = "irq_exit kcs hnd err q junk scratch c m"
  have iso: "isolated A (c, m, g)" and c3: "cs c AND 3 = 3" using t by (simp_all add: typed_def)
  have ok: "sched_ok A m" using iso by (simp add: isolated_def)
  have mv: "moved m p q m'" "sched_ok A m'"
    using r irq_moved[OF P(1), of A "m\<lparr>kmem := mem\<rparr>"] fault_moved[of A "m\<lparr>kmem := mem\<rparr>"] ok by auto
  have tl: "task_list m' = task_list m" using mv(1) by (simp add: moved_def)
  have "kstep A Q P acc (m\<lparr>kmem := mem\<rparr>) m'" for acc using r by (auto intro: irq_kstep fault_kstep)
  note before = alive_before[OF P(2) this tl]
  have dead: "\<not> alive m' (unat (cur_idx m))" if "err \<noteq> None"
    using that r fault_kills[of A "m\<lparr>kmem := mem\<rparr>" p q m'] ok by auto
  have saved: "\<exists>ctx. g k = Some ctx \<and> ring3_ctx ctx"
    if "k < length (task_list m)" "k \<noteq> unat (cur_idx m)" "alive m' k" for k
    using t that before[OF that(3)] by (simp add: typed_def)
  note exit = contexts_kept[OF P(1) iso c3 e k r, of junk]
  have "cs ?x AND 3 = 3"
  proof (cases "cur_idx m' = cur_idx m")
    case True
    then have "err = None" using dead live by (cases err) simp_all
    then show ?thesis using exit True c3 ring3_saved[of ?x] ring3_saved[of c] by (simp add: entry_ctx_def)
  next
    case False
    then have "unat (cur_idx m') \<noteq> unat (cur_idx m)" by (simp add: word_unat_eq_iff)
    moreover have "unat (cur_idx m') < length (task_list m)" using sched_okD(2)[OF mv(2)] tl by simp
    ultimately show ?thesis using saved[OF _ _ live] exit False ring3_saved[of ?x] by auto
  qed
  moreover have "\<exists>ctx. g' k = Some ctx \<and> ring3_ctx ctx"
    if "k < length (task_list m')" "k \<noteq> unat (cur_idx m')" "alive m' k" for k
  proof (cases "k = unat (cur_idx m)")
    case True
    then have "err = None" "cur_idx m' \<noteq> cur_idx m" using dead that by (cases err; auto)+
    then show ?thesis using own True c3 ring3_saved[of c] by simp
  next
    case False
    then show ?thesis using saved[OF _ False that(3)] that(1) g'[OF False] tl by simp
  qed
  ultimately show ?thesis using iso' by (simp add: typed_def)
qed

lemma live_step_typed:
  assumes "poll_private P" "poll_buries P" "typed A s" "live_step A Q P acc s t"
  shows "typed A t"
proof -
  have step: "sys_step A Q P acc s t" and live: "case t of (c, m, g) \<Rightarrow> alive m (unat (cur_idx m))"
    using assms(4) by (simp_all add: live_step_def)
  have iso: "isolated A t"
    using sys_step_isolated[OF assms(1) _ step] assms(3) by (auto simp: typed_def split: prod.splits)
  show ?thesis
    using step live iso assms(3)
  proof (induction rule: sys_step.induct)
    case (sys_user m c c' g)
    then show ?case by (simp add: typed_def)
  next
    case (sys_irq c kcs hnd m mem p q m' scratch g junk)
    then show ?case
      by (intro interrupt_typed[OF assms(1,2) sys_irq.prems(3) sys_irq.hyps(2,4)]) auto
  next
    case (sys_fault c kcs hnd e m mem p q m' scratch g junk)
    then show ?case
      by (intro interrupt_typed[OF assms(1,2) sys_fault.prems(3) sys_fault.hyps(2,4)]) auto
  next
    case (sys_call c m v m' c' junk scratch g)
    have near: "near m m'" by (rule call_near[OF sys_call.hyps(1)])
    then have same: "task_list m' = task_list m" "cur_idx m' = cur_idx m" by (simp_all add: near_def)
    have "alive m k" if "alive m' k" for k
      using alive_before[OF assms(2) call_kstep[OF sys_call.hyps(1)] same(1) that] .
    moreover have "cs c' AND 3 = 3" unfolding sys_call.hyps(2) by (rule syscall_exit_ring3)
    ultimately show ?case using sys_call.prems same by (simp add: typed_def)
  qed
qed

interpretation privilege: invariant_system "typed A" "live_step A Q P acc"
    "\<lambda>s. poll_private P \<longrightarrow> poll_buries P \<longrightarrow> typed A s" for A Q P acc
  by unfold_locales (auto intro: live_step_typed)

text \<open>A fault while another process is ready is such a step, so the discipline does not stop there.\<close>

lemma ready_fault_live:
  assumes "sched_ok A m" "fault_result A p m q m'"
    and "j < length (task_list m)" "j \<noteq> unat (cur_idx m)" "t_state (listed m j) = Ready"
  shows "alive m' (unat (cur_idx m'))"
proof -
  obtain result cr2 where r: "result = gpf_handler_inner A p m \<or> result = page_fault_handler_inner A cr2 p m"
    "result = Ok (q, m')" using assms(2) unfolding fault_result_def by metis
  then show ?thesis
    using faulting_process_is_killed[OF assms(1,3-5) r(1)] by (auto simp: alive_def)
qed


section \<open>When nobody is left\<close>

lemma entry_ctx_fault:
  assumes "saved_ctx c' = entry_ctx (Some e) c"
  shows "rip c' = e" "cs c' = rip c" "rflags c' = cs c" "regs c' RSP = rflags c" "ss c' = regs c RSP"
  using assms by (simp_all add: saved_ctx_def entry_ctx_def)

text \<open>With no other process ready the forced switch of a fault goes to the next slot, whatever is in it.\<close>

lemma fault_falls_through:
  assumes "sched_ok A m" "i = unat (cur_idx m)" "2 \<le> length (task_list m)"
    and "\<forall>j < length (task_list m). j \<noteq> i \<longrightarrow> t_state (listed m j) \<noteq> Ready"
    and "result = gpf_handler_inner A p m \<or> result = page_fault_handler_inner A cr2 p m"
  shows "\<exists>q m'. result = Ok (q, m') \<and> unat (cur_idx m') = (i + 1) mod length (task_list m) \<and> cur_idx m' \<noteq> cur_idx m"
proof -
  define n where "n = length (task_list m)"
  have i: "i < n" using sched_okD(2)[OF assms(1)] assms(2) by (simp add: n_def)
  obtain report where "result = bindo (kill_current report m) (schedule_next A p True)"
    using assms(5) by (auto simp: gpf_handler_inner_def page_fault_handler_inner_def)
  moreover obtain m1 where m1: "kill_current report m = Ok m1" "sched_ok A m1"
    "heap m1 = (heap m)(task_list m ! i := (listed m i)\<lparr>t_state := Terminated\<rparr>)"
    "task_list m1 = task_list m" "cur_idx m1 = cur_idx m"
    using kill_current_Ok[OF assms(1)] unfolding assms(2) by metis
  ultimately have res: "result = schedule_next A p True m1" by simp
  have "\<forall>j < n. t_state (listed m1 j) \<noteq> Ready"
    using assms(4) m1(3,4) i by (auto simp: listed_def n_def)
  then have nx: "next_index m1 i = (i + 1) mod n"
    using ring_search_all_busy[OF i, of "\<lambda>j. t_state (listed m1 j) = Ready"] m1(4)
    by (simp add: next_index_def Let_def n_def)
  define k where "k = (i + 1) mod n"
  have k: "k < n" unfolding k_def using i by (intro mod_less_divisor) linarith
  have ki: "k \<noteq> i" using i assms(3) by (cases "i + 1 = n") (simp_all add: k_def n_def)
  have "slice_over m1 (listed m1 i) True" by (simp add: slice_over_def)
  then have "result = Ok (t_kernel_rsp (listed m1 k), after_switch i k p m1)"
    unfolding res using schedule_next_switch[OF m1(2) _ _ _ , of i k True p] nx ki m1(5) assms(2) by (simp add: k_def)
  moreover have "k < 2 ^ 64" using k sched_okD(3)[OF assms(1)] n_def by linarith
  then have cur: "unat (cur_idx (after_switch i k p m1)) = k" by simp
  moreover have "cur_idx (after_switch i k p m1) \<noteq> cur_idx m" using cur ki assms(2) by metis
  ultimately show ?thesis by (auto simp: k_def n_def)
qed

text \<open>
  C21. The last fault runs a dead frame: if the running process faults while no other one is ready, and the
  process in the next slot was itself killed by a fault with error code \<open>e0\<close>, then the handler switches to
  it, and the registers that \<^verbatim>\<open>iretq\<close> loads are address \<open>e0\<close>, the dead process's instruction pointer as CS, its
  CS as flags and its flags as stack pointer: the program chose the code selector by where it faulted. (The
  checks that the processor makes on the selectors it loads are not modelled.)
\<close>

theorem last_fault_runs_dead_frame:
  assumes "poll_private P" and "reach (isolated A) (sys_step A Q P acc) (c, m, g)" and "cs c AND 3 = 3"
    and "irq_entry kcs hnd (Some e) c m = (mem, p)" and "keeps_kstacks (\<lambda>k. k \<noteq> unat (cur_idx m)) m mem scratch"
    and "2 \<le> length (task_list m)"
    and "\<forall>j < length (task_list m). j \<noteq> unat (cur_idx m) \<longrightarrow> t_state (listed m j) \<noteq> Ready"
    and "g ((unat (cur_idx m) + 1) mod length (task_list m)) = Some (entry_ctx (Some e0) c0)"
    and "result = gpf_handler_inner A p (m\<lparr>kmem := mem\<rparr>) \<or> result = page_fault_handler_inner A cr2 p (m\<lparr>kmem := mem\<rparr>)"
  shows "\<exists>q m'. result = Ok (q, m') \<and>
     (let c' = irq_exit kcs hnd (Some e) q junk scratch c m
      in rip c' = e0 \<and> cs c' = rip c0 \<and> rflags c' = cs c0 \<and> regs c' RSP = rflags c0 \<and> ss c' = regs c0 RSP)"
proof -
  let ?m = "m\<lparr>kmem := mem\<rparr>"
  have iso: "isolated A (c, m, g)" using isolation.reach_inv[OF assms(2)] assms(1) by blast
  then have ok: "sched_ok A ?m" by (simp add: isolated_def)
  have l: "listed ?m = listed m" by (simp add: listed_def fun_eq_iff)
  obtain q m' where r: "result = Ok (q, m')" "unat (cur_idx m') = (unat (cur_idx m) + 1) mod length (task_list m)"
    "cur_idx m' \<noteq> cur_idx m"
    using fault_falls_through[OF ok refl _ _ assms(9)] assms(6,7) by (auto simp: l)
  have "fault_result A p ?m q m'" using r(1) assms(9) by (auto simp: fault_result_def)
  then have "saved_ctx (irq_exit kcs hnd (Some e) q junk scratch c m) = entry_ctx (Some e0) c0"
    using contexts_kept[OF assms(1) iso assms(3-5)] r(2,3) assms(8) by auto
  from entry_ctx_fault[OF this] show ?thesis using r(1) by (intro exI[of _ q] exI[of _ m']) (simp add: Let_def)
qed

section \<open>Witnesses\<close>

lemma finish_now_buries: "poll_buries finish_now"
  by (simp add: poll_buries_def finish_now_def)


text \<open>
  The second of two processes is dead: it faulted at an address whose low sixteen bits are 8, the kernel's
  code selector. Its frame lies in its kernel stack; the first process runs.
\<close>

definition culprit :: cpu where
  "culprit = user_cpu\<lparr>rip := 0x20010008\<rparr>"

definition dead_words :: "u64 list" where
  "dead_words = entry_ctx (Some 0) culprit"

definition last_cpu :: cpu where
  "last_cpu = user_cpu\<lparr>cmem := fst (push_all (\<lambda>_. 0, 0x8000) (rev dead_words))\<rparr>"

definition last_procs :: "(unit, nat \<times> u64 list) machine" where
  "last_procs = upd_task 1 (\<lambda>t. t\<lparr>t_state := Terminated\<rparr>) two_procs"

lemma last_procs_simps:
  "task_list last_procs = [0, 1]" "cur_idx last_procs = 0" "ktss last_procs = \<lparr>rsp0 = 0x10000, ist0 = 0\<rparr>"
  "listed last_procs 0 = listed two_procs 0" "listed last_procs (Suc 0) = (listed two_procs 1)\<lparr>t_state := Terminated\<rparr>"
  by (simp_all add: last_procs_def two_procs_simps listed_def) (simp add: two_procs_def)

lemma dead_frame: "frame (cmem last_cpu) 0x7F60 20 = dead_words"
proof -
  have "length dead_words = 20" by (simp add: dead_words_def entry_ctx_def)
  then show ?thesis
    using push_all_frame[of "rev dead_words" "\<lambda>_. 0" "0x8000"] by (simp add: last_cpu_def)
qed

lemma last_isolated: "isolated x86_ref (last_cpu, last_procs, [1 \<mapsto> dead_words])"
proof -
  have b: "kbase (listed last_procs 0) = 0x8000" "kbase (listed last_procs (Suc 0)) = 0"
    by (simp_all add: kbase_def last_procs_simps two_procs_listed)
  have "sched_ok x86_ref last_procs" using two_procs_ok by (auto simp: last_procs_def sched_ok_def)
  moreover have "layout_ok last_procs" by (simp add: layout_ok_def last_procs_simps(1) areas_apart_def All_less_Suc b)
  moreover have "saved_at (cmem last_cpu) (listed last_procs (Suc 0)) dead_words"
    using dead_frame by (simp add: saved_at_def b) (simp add: last_procs_simps two_procs_listed)
  ultimately show ?thesis
    by (simp add: isolated_def last_procs_simps(1-3) All_less_Suc) (simp add: last_procs_simps two_procs_listed)
qed

theorem last_fault_runs_dead_frame_witness:
  "\<exists>mem p q m'. irq_entry 8 0 (Some 0) last_cpu last_procs = (mem, p)
     \<and> gpf_handler_inner x86_ref p (last_procs\<lparr>kmem := mem\<rparr>) = Ok (q, m')
     \<and> rip (irq_exit 8 0 (Some 0) q (\<lambda>_. 0) mem last_cpu last_procs) = 0
     \<and> cs (irq_exit 8 0 (Some 0) q (\<lambda>_. 0) mem last_cpu last_procs) = 0x20010008
     \<and> (0x20010008 :: u64) AND 0xFFFF = 8"
proof -
  obtain mem p where f: "irq_entry 8 0 (Some 0) last_cpu last_procs = (mem, p)" by (metis prod.collapse)
  have r: "reach (isolated x86_ref) (sys_step x86_ref list_queue finish_now open_access) (last_cpu, last_procs, [1 \<mapsto> dead_words])"
    by (rule reach_init, rule last_isolated)
  have c: "cs last_cpu AND 3 = 3" by (simp add: last_cpu_def user_cpu_def)
  have k: "keeps_kstacks (\<lambda>k. k \<noteq> unat (cur_idx last_procs)) last_procs mem mem" by (simp add: keeps_kstacks_def)
  have n: "2 \<le> length (task_list last_procs)"
    "\<forall>j < length (task_list last_procs). j \<noteq> unat (cur_idx last_procs) \<longrightarrow> t_state (listed last_procs j) \<noteq> Ready"
    "[1 \<mapsto> dead_words] ((unat (cur_idx last_procs) + 1) mod length (task_list last_procs)) = Some (entry_ctx (Some 0) culprit)"
    by (simp_all add: last_procs_simps All_less_Suc dead_words_def)
  let ?result = "gpf_handler_inner x86_ref p (last_procs\<lparr>kmem := mem\<rparr>)"
  obtain q m' where q: "?result = Ok (q, m')" "rip (irq_exit 8 0 (Some 0) q (\<lambda>_. 0) mem last_cpu last_procs) = 0"
    "cs (irq_exit 8 0 (Some 0) q (\<lambda>_. 0) mem last_cpu last_procs) = rip culprit"
    using last_fault_runs_dead_frame[OF finish_now_private r c f k n, of ?result "[]" "\<lambda>_. 0"] by (auto simp: Let_def)
  moreover have "rip culprit = 0x20010008" by (simp add: culprit_def)
  ultimately show ?thesis using f by (intro exI[of _ mem] exI[of _ p] exI[of _ q] exI[of _ m']) simp
qed

end
