(* ===== verification/Device_Channel.thy ===== *)
theory Device_Channel
  imports Kernel_Trace
begin

text \<open>
  The global mailbox as a channel from the devices to the receiver of \<^verbatim>\<open>SYS_RECV\<close>: what may ever be in it.
\<close>

text \<open>The message a device interrupt posts for a byte.\<close>

definition device_message :: "u64 \<Rightarrow> u8 \<Rightarrow> message" where
  "device_message label data = \<lparr>msg_from = 0, msg_to = 1, msg_label = label, msg_payload = (ucast data, 0)\<rparr>"

definition from_device :: "message \<Rightarrow> bool" where
  "from_device msg \<longleftrightarrow> (\<exists>data. msg = device_message 2 data \<or> msg = device_message 3 data)"

definition genuine :: "('f, 'q, 'x) machine_scheme \<Rightarrow> bool" where
  "genuine m \<longleftrightarrow> (\<forall>msg. init_mbox m = Some msg \<longrightarrow> from_device msg)"

lemma genuine_post:
  assumes "genuine m" "label = 2 \<or> label = 3"
  shows "genuine (notify_end_of_interrupt d (post_byte label data m))"
  using assms by (auto simp: genuine_def notify_end_of_interrupt_def post_byte_def from_device_def device_message_def)

lemma recv_mbox: "init_mbox (sys_state (handle_syscall Q acc 11 p b m)) \<in> {None, init_mbox m}"
  by (auto simp: sys_recv_def Let_def split: option.split)

lemma kstep_genuine:
  assumes "poll_private P" "genuine m" "kstep A Q P acc m m'"
  shows "genuine m'"
  using assms(3)
proof cases
  case (step_syscall i a b)
  then show ?thesis
    using assms(2) recv_mbox[of Q acc a b m] by (cases "i = 11") (auto simp: genuine_def syscall_mbox)
next
  case (step_timer rsp rsp')
  then show ?thesis
    using assms(2) poll_mbox[OF assms(1)] schedule_mbox
    by (fastforce simp: timer_handler_inner_def genuine_def notify_end_of_interrupt_def)
next
  case (step_keyboard data rsp rsp')
  then have "poll_kernel_tasks Q P (notify_end_of_interrupt Keyboard (post_byte 2 data m)) = Some m'"
    by (auto simp: keyboard_handler_inner_def)
  from poll_mbox(2)[OF assms(1) this] genuine_post[OF assms(2), of 2 Keyboard data]
  show ?thesis by (simp add: genuine_def)
next
  case (step_serial data rsp rsp')
  then have "poll_kernel_tasks Q P (notify_end_of_interrupt Serial (post_byte 3 data m)) = Some m'"
    by (auto simp: serial_handler_inner_def)
  from poll_mbox(2)[OF assms(1) this] genuine_post[OF assms(2), of 3 Serial data]
  show ?thesis by (simp add: genuine_def)
next
  case (step_gpf rsp rsp')
  then show ?thesis using assms(2) schedule_mbox kill_mbox by (fastforce simp: gpf_handler_inner_def genuine_def)
next
  case (step_page_fault cr2 rsp rsp')
  then show ?thesis using assms(2) schedule_mbox kill_mbox by (fastforce simp: page_fault_handler_inner_def genuine_def)
next
  case (step_breakpoint ip)
  then show ?thesis using assms(2) by (simp add: genuine_def breakpoint_handler_def println_def)
qed

interpretation channel: invariant_system genuine "kstep A Q P acc" "\<lambda>m. poll_private P \<longrightarrow> genuine m" for A Q P acc
  by unfold_locales (auto intro: kstep_genuine)



end
