(* ===== verification/Test_Images.thy ===== *)
theory Test_Images
  imports Boot
begin

text \<open>
  The two images that test the kernel in QEMU: the integration test \<^verbatim>\<open>tests/basic_boot.rs\<close>, which calls its
  test by hand, and the unit test image of \<^verbatim>\<open>lib.rs\<close>, which goes through the test framework. Both start with
  \<^verbatim>\<open>kernel::init\<close>; a panic there ends in the handler of the test build.
\<close>

section \<open>The images\<close>

text \<open>\<^verbatim>\<open>assert_eq!\<close> on numbers: the message of the panic, if there is one.\<close>

definition assert_eq :: "nat \<Rightarrow> nat \<Rightarrow> string option" where
  "assert_eq l r =
     (if l = r then None
      else Some (''assertion `left == right` failed'' @ [CHR 0x0A] @ ''  left: '' @ show_nat l @ [CHR 0x0A]
             @ '' right: '' @ show_nat r))"

definition test_kernel_boot_sequence :: "test_machine \<Rightarrow> test_machine \<times> string option" where
  "test_kernel_boot_sequence m =
     (let m = out (''basic_boot::test_kernel_boot_sequence...'' @ [CHR 0x09]) m
      in case assert_eq 1 1 of
           Some e \<Rightarrow> (m, Some e)
         | None \<Rightarrow> (out (esc ''[32m[ok]'' @ esc ''[0m'' @ [CHR 0x0A]) m, None))"

definition basic_boot_main :: "('m, 'g, 'f, 'q, 'h) boot_env \<Rightarrow> tss \<Rightarrow> cpu \<Rightarrow> test_machine \<Rightarrow> test_machine" where
  "basic_boot_main E t c m =
     (case kernel_init E t c of
        Panic e \<Rightarrow> test_panic_handler e m
      | Ok _ \<Rightarrow>
          let m = out (CHR 0x0A # esc ''[33;1m[TEST]'' @ esc ''[0m Running integration test: basic_boot'' @ [CHR 0x0A]) m
          in case test_kernel_boot_sequence m of
               (m, Some e) \<Rightarrow> test_panic_handler e m
             | (m, None) \<Rightarrow> exit_qemu Success (out (esc ''[32m[All tests passed!]'' @ esc ''[0m'' @ [CHR 0x0A]) m))"

definition trivial_assertion :: test where
  "trivial_assertion = (''kernel::trivial_assertion'', \<lambda>m. (m, assert_eq 1 1))"

text \<open>\<^verbatim>\<open>test_main\<close> is what the compiler generates for the one \<^verbatim>\<open>test_case\<close>: the runner on it.\<close>

definition test_kernel_main :: "('m, 'g, 'f, 'q, 'h) boot_env \<Rightarrow> tss \<Rightarrow> cpu \<Rightarrow> test_machine \<Rightarrow> test_machine" where
  "test_kernel_main E t c m =
     (case kernel_init E t c of Panic e \<Rightarrow> test_panic_handler e m | Ok _ \<Rightarrow> test_runner [trivial_assertion] m)"

section \<open>What they report\<close>

lemma assert_eq_refl [simp]: "assert_eq n n = None"
  by (simp add: assert_eq_def)

lemma exits_exit [simp]: "exits (exit_qemu c m) = exits m @ [exit_code c]"
  by (simp add: exit_qemu_def)

lemma basic_boot_exits:
  "exits (basic_boot_main E t c m) = exits m @ [case kernel_init E t c of Ok _ \<Rightarrow> 0x10 | Panic _ \<Rightarrow> 0x11]"
  by (simp add: basic_boot_main_def test_kernel_boot_sequence_def panics_exit_failed Let_def split: outcome.split)

lemma test_kernel_main_exits:
  "exits (test_kernel_main E t c m) = exits m @ [case kernel_init E t c of Ok _ \<Rightarrow> 0x10 | Panic _ \<Rightarrow> 0x11]"
  by (simp add: test_kernel_main_def trivial_assertion_def test_runner_def testable_run_def panics_exit_failed
        split: outcome.split)

text \<open>
  C36. The test images tell a kernel that initialises from one that does not: with sound descriptor tables and
  selectors both images write exactly the success code to the exit port, and the integration test ends its
  output with the line that all tests passed; if \<^verbatim>\<open>kernel::init\<close> panics, both write exactly the failure code.
\<close>

theorem test_images_report:
  "(boot_env_ok E used items room \<longrightarrow>
      exits (basic_boot_main E t c m) = exits m @ [exit_code Success]
    \<and> exits (test_kernel_main E t c m) = exits m @ [exit_code Success]
    \<and> (\<exists>s. serial_out (basic_boot_main E t c m) = s @ esc ''[32m[All tests passed!]'' @ esc ''[0m'' @ [CHR 0x0A]))
   \<and> (\<forall>e. kernel_init E t c = Panic e \<longrightarrow>
      exits (basic_boot_main E t c m) = exits m @ [exit_code Failed]
    \<and> exits (test_kernel_main E t c m) = exits m @ [exit_code Failed])"
proof -
  have "\<exists>s. serial_out (basic_boot_main E t c m) = s @ esc ''[32m[All tests passed!]'' @ esc ''[0m'' @ [CHR 0x0A]"
    if "kernel_init E t c = Ok r" for r
    using that by (simp add: basic_boot_main_def test_kernel_boot_sequence_def exit_qemu_def out_def Let_def)
  then show ?thesis
    using kernel_init_Ok[of E used items room t c] by (auto simp: basic_boot_exits test_kernel_main_exits)
qed

text \<open>A machine that initialises, and one on which the interrupt stack is not a canonical address.\<close>

definition bad_boot :: "((u64 \<rightharpoonup> u64 \<times> u64), descriptor list, unit, nat \<times> u64 list, (u64 \<times> u64) option) boot_env" where
  "bad_boot = tiny_boot\<lparr>be_rsp0_stack := 0x800000000000\<rparr>"

definition quiet_machine :: test_machine where
  "quiet_machine = \<lparr>serial_out = [], exits = []\<rparr>"

lemma bad_boot_panics: "kernel_init bad_boot t c = Panic ''VirtAddr::from_ptr''"
  by (simp add: kernel_init_def gdt_init_def bad_boot_def tiny_boot_def x86_ref_def expect_def)

theorem test_images_report_witness:
  "exits (basic_boot_main tiny_boot \<lparr>rsp0 = 0, ist0 = 0\<rparr> blank_cpu quiet_machine) = [0x10]
   \<and> exits (test_kernel_main bad_boot \<lparr>rsp0 = 0, ist0 = 0\<rparr> blank_cpu quiet_machine) = [0x11]"
  using test_images_report[of tiny_boot "\<lambda>ds. 1 + sum_list (map slots_of ds)" snd fst] tiny_boot_ok
    test_images_report[of bad_boot] bad_boot_panics
  by (simp add: quiet_machine_def)

end
