(* ===== verification/Runner.thy ===== *)
theory Runner
  imports Test_Images
begin

text \<open>
  The host program \<^verbatim>\<open>runner\<close> that packs a kernel into a disk image and boots it in QEMU, and with it the path
  of a test result from the guest's exit port to the exit status a build sees. The host's environment, file
  system, image builder and processes are parameters acting on a world.
\<close>

section \<open>The host\<close>

record 'w host =
  h_env :: "string \<Rightarrow> string option"
  h_exists :: "string \<Rightarrow> 'w \<Rightarrow> bool"
  h_create_dir_all :: "string \<Rightarrow> 'w \<Rightarrow> 'w option"
  h_create_disk_image :: "string \<Rightarrow> string \<Rightarrow> 'w \<Rightarrow> 'w option"
  h_println :: "string \<Rightarrow> 'w \<Rightarrow> 'w"
  h_spawn :: "string \<Rightarrow> string list \<Rightarrow> 'w \<Rightarrow> 'w option"
  h_wait :: "'w \<Rightarrow> (nat \<times> 'w) option"

text \<open>\<^verbatim>\<open>Path::join\<close>, on a host with the slash as separator.\<close>

definition path_join :: "string \<Rightarrow> string \<Rightarrow> string" where
  "path_join a b =
     (if b \<noteq> [] \<and> hd b = CHR ''/'' then b
      else if a = [] \<or> last a = CHR ''/'' then a @ b
      else a @ ''/'' @ b)"

section \<open>The program\<close>

definition out_dir :: string where
  "out_dir = ''target/bios_image''"

definition image_path :: string where
  "image_path = path_join out_dir ''boot.img''"

definition qemu_args :: "string list" where
  "qemu_args =
     [''-drive'', ''format=raw,file='' @ image_path,
      ''-device'', ''isa-debug-exit,iobase=0xf4,iosize=0x04'',
      ''-nographic'',
      ''-serial'', ''mon:stdio'']"

text \<open>The messages of the source, in UTF-8.\<close>

definition no_kernel_text :: string where
  "no_kernel_text = [CHR 0xE8, CHR 0xAF, CHR 0xB7, CHR 0xE6, CHR 0x8F, CHR 0x90, CHR 0xE4, CHR 0xBE, CHR 0x9B] @ '' KERNEL_ELF '' @ [CHR 0xE7, CHR 0x8E, CHR 0xAF, CHR 0xE5, CHR 0xA2, CHR 0x83, CHR 0xE5, CHR 0x8F, CHR 0x98, CHR 0xE9, CHR 0x87, CHR 0x8F]"

definition no_image_text :: string where
  "no_image_text = [CHR 0xE9, CHR 0x95, CHR 0x9C, CHR 0xE5, CHR 0x83, CHR 0x8F, CHR 0xE6, CHR 0x89, CHR 0x93, CHR 0xE5, CHR 0x8C, CHR 0x85, CHR 0xE5, CHR 0xA4, CHR 0xB1, CHR 0xE8, CHR 0xB4, CHR 0xA5]"

definition starting_text :: string where
  "starting_text = [CHR 0xE5, CHR 0x90, CHR 0xAF, CHR 0xE5, CHR 0x8A, CHR 0xA8] @ '' QEMU...''"

definition no_qemu_text :: string where
  "no_qemu_text = [CHR 0xE6, CHR 0x97, CHR 0xA0, CHR 0xE6, CHR 0xB3, CHR 0x95, CHR 0xE5, CHR 0x90, CHR 0xAF, CHR 0xE5, CHR 0x8A, CHR 0xA8] @ '' QEMU''"

text \<open>The result of \<^verbatim>\<open>wait\<close> is unwrapped and the status in it is dropped.\<close>

definition runner_main :: "'w host \<Rightarrow> 'w \<Rightarrow> 'w outcome" where
  "runner_main H w =
     bindo (expect no_kernel_text (h_env H ''KERNEL_ELF'')) (\<lambda>kernel_path.
     bindo (if h_exists H out_dir w then Ok w else expect ''unwrap'' (h_create_dir_all H out_dir w)) (\<lambda>w.
     bindo (expect no_image_text (h_create_disk_image H kernel_path image_path w)) (\<lambda>w.
     let w = h_println H starting_text w
     in bindo (expect no_qemu_text (h_spawn H ''qemu-system-x86_64'' qemu_args w)) (\<lambda>w.
        bindo (expect ''unwrap'' (h_wait H w)) (\<lambda>(status, w). Ok w)))))"

text \<open>The exit status of a Rust program: 0 if \<^verbatim>\<open>main\<close> returns, 101 after a panic.\<close>

definition exit_status :: "'a outcome \<Rightarrow> nat" where
  "exit_status r = (case r of Ok _ \<Rightarrow> 0 | Panic _ \<Rightarrow> 101)"

section \<open>What a build learns from it\<close>

lemma image_path_is: "image_path = ''target/bios_image/boot.img''"
  by (simp add: image_path_def path_join_def out_dir_def)

text \<open>The host gets as far as waiting for QEMU, in the world \<open>w3\<close>.\<close>

definition boots_image :: "'w host \<Rightarrow> 'w \<Rightarrow> 'w \<Rightarrow> bool" where
  "boots_image H w w3 \<longleftrightarrow> (\<exists>k w1 w2. h_env H ''KERNEL_ELF'' = Some k
     \<and> (if h_exists H ''target/bios_image'' w then w1 = w else h_create_dir_all H ''target/bios_image'' w = Some w1)
     \<and> h_create_disk_image H k ''target/bios_image/boot.img'' w1 = Some w2
     \<and> h_spawn H ''qemu-system-x86_64''
          [''-drive'', ''format=raw,file=target/bios_image/boot.img'', ''-device'', ''isa-debug-exit,iobase=0xf4,iosize=0x04'',
           ''-nographic'', ''-serial'', ''mon:stdio''] (h_println H starting_text w2) = Some w3)"

lemma runner_waits:
  assumes "boots_image H w w3"
  shows "runner_main H w = bindo (expect ''unwrap'' (h_wait H w3)) (\<lambda>(status, w). Ok w)"
  using assms by (auto simp: boots_image_def runner_main_def qemu_args_def image_path_is out_dir_def expect_def Let_def
      split: if_splits)


section \<open>A host\<close>

text \<open>The world is the list of what was done to it; QEMU ends with the status its documentation gives.\<close>

definition list_host :: "nat \<Rightarrow> string list host" where
  "list_host status = \<lparr>h_env = (\<lambda>v. if v = ''KERNEL_ELF'' then Some ''kernel'' else None), h_exists = (\<lambda>_ _. False),
     h_create_dir_all = (\<lambda>d w. Some (w @ [''mkdir '' @ d])), h_create_disk_image = (\<lambda>k i w. Some (w @ [''pack '' @ i])),
     h_println = (\<lambda>_ w. w), h_spawn = (\<lambda>c args w. Some (w @ [c])), h_wait = (\<lambda>w. Some (status, w))\<rparr>"

definition failing_test :: test where
  "failing_test = (''fails'', \<lambda>m. (m, assert_eq 1 2))"


end
