(* ===== verification/Round_Robin.thy ===== *)
theory Round_Robin
  imports Interrupts
begin

text \<open>
  The scheduler as the textbook has it: a running process and a queue of waiting ones with their saved stack
  pointers. No indices, no wrap-around, no references; \<^verbatim>\<open>schedule_next\<close> and its callers refine it.
\<close>

section \<open>The specification\<close>

record proc =
  p_id :: u64
  p_state :: task_state
  p_prio :: u64

record ready_ring =
  ticks :: u64
  running :: proc
  waiting :: "(proc \<times> u64) list"

text \<open>
  The running process goes to the end of the queue with its stack pointer \<open>p\<close>; the first ready process runs,
  those in front of it go to the end. Without a ready process the first of the queue runs.
\<close>

definition ring_switch :: "u64 \<Rightarrow> ready_ring \<Rightarrow> u64 \<times> ready_ring" where
  "ring_switch p R =
     (let ws = waiting R @ [(running R, p)];
          idle = (\<lambda>(x, _). p_state x \<noteq> Ready)
      in case dropWhile idle ws @ takeWhile idle ws of
           (x, q) # rest \<Rightarrow> (q, R\<lparr>running := x, waiting := rest\<rparr>)
         | [] \<Rightarrow> (p, R))"

definition ring_schedule :: "u64 \<Rightarrow> bool \<Rightarrow> ready_ring \<Rightarrow> u64 \<times> ready_ring" where
  "ring_schedule p force R =
     (if ticks R mod max (p_prio (running R)) 1 = 0 \<or> p_state (running R) = Terminated \<or> force
      then ring_switch p R else (p, R))"

definition ring_tick :: "u64 \<Rightarrow> ready_ring \<Rightarrow> u64 \<times> ready_ring" where
  "ring_tick p R = ring_schedule p False (R\<lparr>ticks := ticks R + 1\<rparr>)"

definition ring_kill :: "u64 \<Rightarrow> ready_ring \<Rightarrow> u64 \<times> ready_ring" where
  "ring_kill p R = ring_schedule p True (R\<lparr>running := (running R)\<lparr>p_state := Terminated\<rparr>\<rparr>)"

text \<open>The kernel tasks an interrupt polls may wake processes: only states change.\<close>

definition same_procs :: "ready_ring \<Rightarrow> ready_ring \<Rightarrow> bool" where
  "same_procs R S \<longleftrightarrow> ticks S = ticks R \<and> (\<exists>st. running S = (running R)\<lparr>p_state := st\<rparr>)
     \<and> list_all2 (\<lambda>(x, q) (y, r). r = q \<and> (\<exists>st. y = x\<lparr>p_state := st\<rparr>)) (waiting R) (waiting S)"

section \<open>The abstraction\<close>

definition proc_of :: "'f task \<Rightarrow> proc" where
  "proc_of t = \<lparr>p_id = t_id t, p_state = t_state t, p_prio = t_priority t\<rparr>"

definition waiting_refs :: "('f, 'q, 'x) machine_scheme \<Rightarrow> task_ref list" where
  "waiting_refs m = drop (Suc (unat (cur_idx m))) (task_list m) @ take (unat (cur_idx m)) (task_list m)"

definition ring_of :: "('f, 'q, 'x) machine_scheme \<Rightarrow> ready_ring" where
  "ring_of m = \<lparr>ticks = tick_count m, running = proc_of (listed m (unat (cur_idx m))),
     waiting = map (\<lambda>r. (proc_of (heap m r), t_kernel_rsp (heap m r))) (waiting_refs m)\<rparr>"

section \<open>Turning the ring\<close>

lemma rotate_split:
  assumes "xs \<noteq> []"
  shows "rotate k xs = xs ! (k mod length xs) # drop (Suc (k mod length xs)) xs @ take (k mod length xs) xs"
proof -
  have "k mod length xs < length xs" using assms by simp
  then show ?thesis by (simp add: rotate_drop_take Cons_nth_drop_Suc)
qed

lemma dropWhile_rotate: "dropWhile P xs @ takeWhile P xs = rotate (length (takeWhile P xs)) xs"
proof -
  have "rotate (length (takeWhile P xs)) (takeWhile P xs @ dropWhile P xs) = dropWhile P xs @ takeWhile P xs"
    by (simp only: rotate_append)
  then show ?thesis by simp
qed

lemma ring_refs:
  assumes "i < length xs"
  shows "rotate (Suc i) xs = drop (Suc i) xs @ take i xs @ [xs ! i]"
proof -
  have "xs \<noteq> []" using assms by auto
  have "rotate (Suc i) xs = rotate1 (rotate i xs)" by simp
  also have "rotate i xs = xs ! i # drop (Suc i) xs @ take i xs" using rotate_split[OF \<open>xs \<noteq> []\<close>, of i] assms by simp
  finally show ?thesis by simp
qed

text \<open>The circular search by index finds the slot at which the turned queue starts.\<close>

lemma next_index_turns:
  assumes "i < length (task_list m)"
  shows "next_index m i = (i + 1 + length (takeWhile (\<lambda>r. t_state (heap m r) \<noteq> Ready) (rotate (Suc i) (task_list m))))
     mod length (task_list m)"
proof -
  let ?n = "length (task_list m)" and ?ready = "\<lambda>j. t_state (listed m j) = Ready"
  let ?xs = "rotate (Suc i) (task_list m)"
  have at: "heap m (?xs ! e) = listed m ((i + 1 + e) mod ?n)" if "e < ?n" for e
    using that by (simp add: listed_def nth_rotate del: rotate_Suc)
  show ?thesis
  proof (cases "\<exists>j < ?n. ?ready j")
    case True
    obtain d where d: "d < ?n" "next_index m i = (i + 1 + d) mod ?n" "?ready ((i + 1 + d) mod ?n)"
      "\<forall>e < d. \<not> ?ready ((i + 1 + e) mod ?n)"
      using ring_search_nearest[OF assms True] unfolding next_index_def Let_def by blast
    have "takeWhile (\<lambda>r. t_state (heap m r) \<noteq> Ready) ?xs = take d ?xs"
      using d(1,3,4) at by (intro takeWhile_eq_take_P_nth) auto
    then show ?thesis using d(1,2) by simp
  next
    case False
    have "t_state (heap m r) \<noteq> Ready" if "r \<in> set ?xs" for r
      using that False by (auto simp: in_set_conv_nth listed_def)
    then have "takeWhile (\<lambda>r. t_state (heap m r) \<noteq> Ready) ?xs = ?xs" by (intro takeWhile_eq_all_conv[THEN iffD2]) blast
    then have "length (takeWhile (\<lambda>r. t_state (heap m r) \<noteq> Ready) ?xs) = ?n" by (simp only: length_rotate)
    moreover have "next_index m i = (i + 1) mod ?n"
      using ring_search_all_busy[OF assms, of ?ready] False by (simp add: next_index_def Let_def)
    ultimately show ?thesis by (simp only: mod_add_self2)
  qed
qed

text \<open>The specification's switch, in the terms of the task list.\<close>

lemma ring_switch_of:
  assumes "sched_ok A m" "i = unat (cur_idx m)" "j = next_index m i"
  shows "ring_switch p (ring_of m) = (if i = j then p else t_kernel_rsp (listed m j),
     \<lparr>ticks = tick_count m, running = proc_of (listed m j),
      waiting = map (\<lambda>r. (proc_of (heap m r), if r = task_list m ! i then p else t_kernel_rsp (heap m r)))
        (drop (Suc j) (task_list m) @ take j (task_list m))\<rparr>)"
proof -
  let ?l = "task_list m" and ?n = "length (task_list m)"
  let ?g = "\<lambda>r. (proc_of (heap m r), if r = ?l ! i then p else t_kernel_rsp (heap m r))"
  let ?idle = "\<lambda>(x :: proc, _ :: u64). p_state x \<noteq> Ready"
  have i: "i < ?n" and dist: "distinct ?l" using sched_okD(2,4)[OF assms(1)] assms(2) by simp_all
  have j: "j < ?n" using next_index_less[OF i] assms(3) by simp
  have out: "r \<noteq> ?l ! i" if "r \<in> set (drop (Suc i) ?l @ take i ?l)" for r
    using that dist i by (auto simp: in_set_conv_nth nth_eq_iff_index_eq)
  have "waiting (ring_of m) @ [(running (ring_of m), p)] = map ?g (rotate (Suc i) ?l)"
  proof -
    have "waiting (ring_of m) = map ?g (drop (Suc i) ?l @ take i ?l)"
      unfolding ring_of_def ready_ring.simps waiting_refs_def assms(2)[symmetric] by (rule map_cong) (use out in auto)
    moreover have "?g (?l ! i) = (running (ring_of m), p)" by (simp add: ring_of_def listed_def assms(2))
    ultimately show ?thesis by (simp add: ring_refs[OF i] del: rotate_Suc)
  qed
  moreover have "takeWhile ?idle (map ?g xs) = map ?g (takeWhile (\<lambda>r. t_state (heap m r) \<noteq> Ready) xs)" for xs
    by (simp add: takeWhile_map o_def proc_of_def)
  then have "dropWhile ?idle (map ?g (rotate (Suc i) ?l)) @ takeWhile ?idle (map ?g (rotate (Suc i) ?l))
     = map ?g (rotate (i + 1 + length (takeWhile (\<lambda>r. t_state (heap m r) \<noteq> Ready) (rotate (Suc i) ?l))) ?l)"
    unfolding dropWhile_rotate by (simp only: length_map rotate_map rotate_rotate) (simp only: Suc_eq_plus1 add.commute)
  moreover have "rotate (i + 1 + length (takeWhile (\<lambda>r. t_state (heap m r) \<noteq> Ready) (rotate (Suc i) ?l))) ?l
     = ?l ! j # drop (Suc j) ?l @ take j ?l"
    unfolding assms(3) next_index_turns[OF i] by (rule rotate_split) (use i in auto)
  moreover have "?l ! j = ?l ! i \<longleftrightarrow> i = j" using dist i j by (auto simp: nth_eq_iff_index_eq)
  ultimately show ?thesis
    by (simp add: ring_switch_def Let_def listed_def) (simp add: ring_of_def)
qed

section \<open>The refinement\<close>

lemma ring_of_after_switch:
  assumes "sched_ok A m" "i = unat (cur_idx m)" "j < length (task_list m)"
  shows "ring_of (after_switch i j p m) = \<lparr>ticks = tick_count m, running = proc_of (listed m j),
      waiting = map (\<lambda>r. (proc_of (heap m r), if r = task_list m ! i then p else t_kernel_rsp (heap m r)))
        (drop (Suc j) (task_list m) @ take j (task_list m))\<rparr>"
proof -
  have "j < 2 ^ 64" using sched_okD(3)[OF assms(1)] assms(3) by linarith
  then show ?thesis by (simp add: ring_of_def waiting_refs_def listed_def proc_of_def)
qed

lemma schedule_next_ring:
  assumes "sched_ok A m"
  shows "\<exists>q m'. schedule_next A p force m = Ok (q, m') \<and> sched_ok A m' \<and> (q, ring_of m') = ring_schedule p force (ring_of m)"
proof -
  define i j where "i = unat (cur_idx m)" and "j = next_index m i"
  have i: "i < length (task_list m)" using sched_okD(2)[OF assms] by (simp add: i_def)
  have j: "j < length (task_list m)" using next_index_less[OF i] by (simp add: j_def)
  have over: "slice_over m (listed m i) force \<longleftrightarrow>
      ticks (ring_of m) mod max (p_prio (running (ring_of m))) 1 = 0 \<or> p_state (running (ring_of m)) = Terminated \<or> force"
    by (simp add: slice_over_def ring_of_def proc_of_def i_def)
  note sw = ring_switch_of[OF assms i_def j_def, of p] ring_of_after_switch[OF assms i_def j, of p]
  consider (stay) "\<not> slice_over m (listed m i) force"
    | (own) "slice_over m (listed m i) force" "j = i" "t_state (listed m i) \<noteq> Terminated"
    | (switch) "slice_over m (listed m i) force" "j \<noteq> i \<or> t_state (listed m i) = Terminated"
    by blast
  then show ?thesis
  proof cases
    case stay
    have "schedule_next A p force m = Ok (p, m)" using schedule_next_stay[OF assms i_def] stay by blast
    moreover have "ring_schedule p force (ring_of m) = (p, ring_of m)"
      unfolding ring_schedule_def over[symmetric] using stay by simp
    ultimately show ?thesis using assms by simp
  next
    case own
    have "schedule_next A p force m = Ok (p, m)"
      using schedule_next_stay[OF assms i_def] own by (simp add: j_def)
    moreover have "r \<noteq> task_list m ! i" if "r \<in> set (drop (Suc i) (task_list m) @ take i (task_list m))" for r
      using that sched_okD(4)[OF assms] i by (auto simp: in_set_conv_nth nth_eq_iff_index_eq)
    then have "ring_switch p (ring_of m) = (p, ring_of m)"
      unfolding sw(1) own(2) by (simp add: ring_of_def waiting_refs_def i_def[symmetric])
    then have "ring_schedule p force (ring_of m) = (p, ring_of m)"
      unfolding ring_schedule_def over[symmetric] using own(1) by simp
    ultimately show ?thesis using assms by simp
  next
    case switch
    have "ring_schedule p force (ring_of m) = ring_switch p (ring_of m)"
      unfolding ring_schedule_def over[symmetric] using switch(1) by simp
    then show ?thesis
      using schedule_next_switch[OF assms i_def j_def switch(1)] switch(2) after_switch_sched_ok[OF assms i j] sw by auto
  qed
qed

lemma same_private_ring:
  assumes "same_private m m'"
  shows "same_procs (ring_of m) (ring_of m')"
proof -
  have "\<exists>st. proc_of (heap m' r) = (proc_of (heap m r))\<lparr>p_state := st\<rparr>" for r
    using same_private_task[OF assms, of r] by (intro exI[of _ "t_state (heap m' r)"]) (simp add: proc_of_def)
  moreover have e: "task_list m' = task_list m" "cur_idx m' = cur_idx m" "tick_count m' = tick_count m"
    using assms by (simp_all add: same_private_def)
  moreover have "waiting_refs m' = waiting_refs m" by (simp add: waiting_refs_def e)
  ultimately show ?thesis
    using same_private_task(2)[OF assms]
    by (simp add: same_procs_def ring_of_def listed_def list_all2_map1 list_all2_map2 list_all2_same)
qed

text \<open>What a handler does besides scheduling leaves the ring alone.\<close>

lemma ring_of_events [simp]:
  "ring_of (notify_end_of_interrupt d m) = ring_of m" "ring_of (post_byte label data m) = ring_of m"
  "ring_of (println s m) = ring_of m" "sched_ok A (notify_end_of_interrupt d m) = sched_ok A m"
  "ring_of (m\<lparr>tick_count := t\<rparr>) = (ring_of m)\<lparr>ticks := t\<rparr>" "ticks (ring_of m) = tick_count m"
  by (simp_all add: ring_of_def waiting_refs_def listed_def notify_end_of_interrupt_def post_byte_def println_def sched_ok_def)

lemma ring_of_killed:
  assumes "sched_ok A m" "i = unat (cur_idx m)"
  shows "ring_of (upd_task (task_list m ! i) (\<lambda>t. t\<lparr>t_state := Terminated\<rparr>) m)
     = (ring_of m)\<lparr>running := (running (ring_of m))\<lparr>p_state := Terminated\<rparr>\<rparr>"
proof -
  have i: "i < length (task_list m)" using sched_okD(2)[OF assms(1)] assms(2) by simp
  have "r \<noteq> task_list m ! i" if "r \<in> set (waiting_refs m)" for r
    using that sched_okD(4)[OF assms(1)] i by (auto simp: waiting_refs_def assms(2) in_set_conv_nth nth_eq_iff_index_eq)
  then show ?thesis
    by (simp add: ring_of_def waiting_refs_def listed_def proc_of_def assms(2))
qed

lemma kill_then_schedule:
  assumes "sched_ok A m"
  shows "\<exists>q m'. bindo (kill_current report m) (schedule_next A p True) = Ok (q, m') \<and> sched_ok A m'
     \<and> (q, ring_of m') = ring_kill p (ring_of m)"
proof -
  define i where "i = unat (cur_idx m)"
  let ?m0 = "println (report (t_id (listed m i))) m"
  let ?m1 = "upd_task (task_list m ! i) (\<lambda>t. t\<lparr>t_state := Terminated\<rparr>) ?m0"
  have ok0: "sched_ok A ?m0" and l0: "task_list ?m0 = task_list m" "cur_idx ?m0 = cur_idx m"
    using assms by (simp_all add: sched_ok_def println_def)
  then have ok: "sched_ok A ?m1" by (simp add: sched_ok_def)
  have "kill_current report m = Ok ?m1"
    using sched_okD(1,2)[OF assms] by (simp add: kill_current_def Let_def i_def)
  moreover have "ring_of ?m1 = (ring_of m)\<lparr>running := (running (ring_of m))\<lparr>p_state := Terminated\<rparr>\<rparr>"
    using ring_of_killed[OF ok0, of i] l0 by (simp add: i_def)
  ultimately show ?thesis using schedule_next_ring[OF ok, of p True] by (simp add: ring_kill_def)
qed

text \<open>
  C6. The scheduler implements the textbook round robin: seen as a running process and a queue of waiting
  ones, a fault kills the running process and turns the queue to the first ready one, a timer interrupt does
  the same when the running process's slice is over, and both return the stack pointer the queue holds for
  the process they pick; device interrupts return to the process they interrupted. No handler panics, and
  apart from this the kernel tasks an interrupt polls change nothing but process states.
\<close>

theorem scheduler_refines_round_robin:
  assumes "poll_private P" and "sched_ok A m"
  shows "(\<forall>x. timer_handler_inner A Q P p m = Some x \<longrightarrow> (\<exists>q m' R. x = Ok (q, m') \<and> sched_ok A m'
           \<and> same_procs (ring_of m) R \<and> (q, ring_of m') = ring_tick p R))
     \<and> (\<exists>q m'. gpf_handler_inner A p m = Ok (q, m') \<and> sched_ok A m' \<and> (q, ring_of m') = ring_kill p (ring_of m))
     \<and> (\<exists>q m'. page_fault_handler_inner A cr2 p m = Ok (q, m') \<and> sched_ok A m' \<and> (q, ring_of m') = ring_kill p (ring_of m))
     \<and> (\<forall>q m'. serial_handler_inner Q P data p m = Some (q, m') \<or> keyboard_handler_inner Q P data p m = Some (q, m')
           \<longrightarrow> q = p \<and> same_procs (ring_of m) (ring_of m'))"
proof -
  have "\<exists>q m' R. x = Ok (q, m') \<and> sched_ok A m' \<and> same_procs (ring_of m) R \<and> (q, ring_of m') = ring_tick p R"
    if x: "timer_handler_inner A Q P p m = Some x" for x
  proof -
    obtain m1 where m1: "poll_kernel_tasks Q P (notify_end_of_interrupt Timer m) = Some m1"
      "x = schedule_next A p False (m1\<lparr>tick_count := tick_count m1 + 1\<rparr>)"
      using x by (auto simp: timer_handler_inner_def)
    have same: "same_private (notify_end_of_interrupt Timer m) m1" by (rule poll_kernel_private[OF assms(1) m1(1)])
    have "sched_ok A (m1\<lparr>tick_count := tick_count m1 + 1\<rparr>)"
      using assms(2) same_private_task(3)[OF same] same
      by (simp add: same_private_def notify_end_of_interrupt_def sched_ok_def)
    from schedule_next_ring[OF this, of p False] obtain q m' where s: "x = Ok (q, m')" "sched_ok A m'"
      "(q, ring_of m') = ring_schedule p False ((ring_of m1)\<lparr>ticks := tick_count m1 + 1\<rparr>)"
      unfolding m1(2) by auto
    then show ?thesis
      using same_private_ring[OF same]
      by (intro exI[of _ q] exI[of _ m'] exI[of _ "ring_of m1"]) (simp add: ring_tick_def)
  qed
  moreover have "q = p \<and> same_procs (ring_of m) (ring_of m')"
    if dev: "serial_handler_inner Q P data p m = Some (q, m') \<or> keyboard_handler_inner Q P data p m = Some (q, m')" for q m'
  proof -
    obtain d label where "poll_kernel_tasks Q P (notify_end_of_interrupt d (post_byte label data m)) = Some m'" "q = p"
      using dev by (auto simp: serial_handler_inner_def keyboard_handler_inner_def)
    then show ?thesis using same_private_ring[OF poll_kernel_private[OF assms(1)]] by fastforce
  qed
  ultimately show ?thesis
    using kill_then_schedule[OF assms(2)] unfolding gpf_handler_inner_def page_fault_handler_inner_def by blast
qed

theorem scheduler_refines_round_robin_witness:
  "\<exists>m'. gpf_handler_inner x86_ref 0xABC two_procs = Ok (0x7F60, m')
     \<and> ring_of m' = \<lparr>ticks = 0, running = \<lparr>p_id = 2, p_state = Ready, p_prio = 5\<rparr>,
         waiting = [(\<lparr>p_id = 1, p_state = Terminated, p_prio = 5\<rparr>, 0xABC)]\<rparr>"
proof -
  have "ring_of two_procs = \<lparr>ticks = 0, running = \<lparr>p_id = 1, p_state = Ready, p_prio = 5\<rparr>,
         waiting = [(\<lparr>p_id = 2, p_state = Ready, p_prio = 5\<rparr>, 0x7F60)]\<rparr>"
    by (simp add: ring_of_def waiting_refs_def two_procs_simps listed_def proc_of_def) (simp add: two_procs_def blank_task_def)
  then have "ring_kill 0xABC (ring_of two_procs) = (0x7F60, \<lparr>ticks = 0, running = \<lparr>p_id = 2, p_state = Ready, p_prio = 5\<rparr>,
         waiting = [(\<lparr>p_id = 1, p_state = Terminated, p_prio = 5\<rparr>, 0xABC)]\<rparr>)"
    by (simp add: ring_kill_def ring_schedule_def ring_switch_def)
  moreover have "\<exists>q m'. gpf_handler_inner x86_ref 0xABC two_procs = Ok (q, m')
      \<and> (q, ring_of m') = ring_kill 0xABC (ring_of two_procs)"
    using scheduler_refines_round_robin[OF finish_now_private two_procs_ok, of list_queue "0xABC"] by blast
  ultimately show ?thesis by (elim exE conjE) simp
qed

end
