(* ===== verification/Spec2Isabelle.thy ===== *)
theory Spec2Isabelle
  imports Process_Layout Keypresses Init_Process Idle_Programs Memory_Separation Privilege Device_Channel Runner Round_Robin
begin

text \<open>
  A verification of a Rust microkernel for x86-64 and of the ring 3 program it starts.

  \<^bold>\<open>The program.\<close> \<^verbatim>\<open>kernel_main\<close> sets up descriptor tables, the system call registers, the physical frame
  allocator and the heap, loads the embedded ELF image, makes two user processes from it and jumps into the
  first. From then on the kernel runs only in interrupts and system calls. Every interrupt enters through one
  assembly wrapper that saves a twenty-word frame on the kernel stack of the current process, calls a Rust
  handler with the stack pointer and leaves through the pointer the handler returns; the scheduler switches
  processes by returning another process's saved pointer. Interrupt handlers also run the asynchronous
  executor for kernel tasks. Devices and processes talk through mailboxes and a name service.

  \<^bold>\<open>The theories\<close>, each with the source it translates:

  \<^item> \<^verbatim>\<open>Kernel_Prelude\<close>: word and list lemmas, \<open>outcome\<close> (a value or a panic), reachability and the locale
    \<open>invariant_system\<close>, which every state machine below interprets.
  \<^item> \<^verbatim>\<open>Byte_Memory\<close>, \<^verbatim>\<open>Naked_Asm\<close>: byte-addressed memory, the registers and instructions the assembly uses,
    interrupt delivery, \<^verbatim>\<open>syscall\<close>, \<^verbatim>\<open>sysretq\<close> and \<^verbatim>\<open>iretq\<close>; the locale \<open>sysv_call\<close> for calls into Rust.
  \<^item> \<^verbatim>\<open>Entry_Stubs\<close>: the assembly of \<^verbatim>\<open>interrupts.rs\<close>, \<^verbatim>\<open>syscall/mod.rs\<close>, \<^verbatim>\<open>arch/x86_64/switch.rs\<close>, \<^verbatim>\<open>gdt.rs\<close>
    and \<^verbatim>\<open>main.rs\<close>.
  \<^item> \<^verbatim>\<open>Machine_Api\<close>: the address types of the \<^verbatim>\<open>x86_64\<close> crate and the queue of \<^verbatim>\<open>crossbeam\<close>, as parameters
    with their documented laws and a concrete instance of each.
  \<^item> \<^verbatim>\<open>Descriptor_Tables\<close>: \<^verbatim>\<open>gdt.rs\<close> and \<^verbatim>\<open>syscall::init\<close>.
  \<^item> \<^verbatim>\<open>Tasks\<close>, \<^verbatim>\<open>Executor\<close>: \<^verbatim>\<open>task/mod.rs\<close> and \<^verbatim>\<open>task/executor.rs\<close>. A task is a record in a heap of tasks; an
    \<^verbatim>\<open>Arc<Task>\<close> is its index; the locale \<open>waker_sink\<close> says what waking a task may change.
  \<^item> \<^verbatim>\<open>Frame_Allocator\<close>, \<^verbatim>\<open>Paging\<close>: \<^verbatim>\<open>mem.rs\<close>, \<^verbatim>\<open>allocator.rs\<close>, \<^verbatim>\<open>loader.rs\<close> and \<^verbatim>\<open>setup_user_stack\<close>; the mapper of
    the \<^verbatim>\<open>x86_64\<close> crate is a parameter, the locale \<open>frame_source\<close> is what mapping code needs of an allocator.
  \<^item> \<^verbatim>\<open>Syscalls\<close>: \<^verbatim>\<open>handle_syscall\<close> and the printing of \<^verbatim>\<open>serial.rs\<close>.
  \<^item> \<^verbatim>\<open>Interrupts\<close>: the vectors, the scheduler and the handlers of \<^verbatim>\<open>interrupts.rs\<close>.
  \<^item> \<^verbatim>\<open>Kernel_Trace\<close>: system calls and interrupts in any order, as one step relation.
  \<^item> \<^verbatim>\<open>Keyboard_Stream\<close>, \<^verbatim>\<open>Keypresses\<close>: \<^verbatim>\<open>task/keyboard.rs\<close>, with the accesses of a poll interleaved with
    keyboard interrupts, and the task \<^verbatim>\<open>print_keypresses\<close>.
  \<^item> \<^verbatim>\<open>Devices\<close>: the UART and interrupt controller writes, the exit port and the test framework of \<^verbatim>\<open>lib.rs\<close>.
  \<^item> \<^verbatim>\<open>Boot\<close>: \<^verbatim>\<open>kernel_main\<close> as the composition of all of these.
  \<^item> \<^verbatim>\<open>Round_Robin\<close>: the abstract scheduler, a running process and a queue, and the refinement.
  \<^item> \<^verbatim>\<open>Isolation\<close>: ring 3 code, interrupts through the wrapper, faults and system calls on one memory, with the
    contexts of the processes that are not running.
  \<^item> \<^verbatim>\<open>Memory_Separation\<close>: what the page table of the boot lets ring 3 reach.
  \<^item> \<^verbatim>\<open>Privilege\<close>: a type discipline on top of \<^verbatim>\<open>Isolation\<close>, contexts that ask for ring 3, and the one way out
    of it, a switch to a dead process.
  \<^item> \<^verbatim>\<open>Device_Channel\<close>: what the global mailbox can hold after any sequence of kernel events.
  \<^item> \<^verbatim>\<open>Test_Images\<close>, \<^verbatim>\<open>Runner\<close>: the kernel images of \<^verbatim>\<open>tests/basic_boot.rs\<close> and of the unit tests of \<^verbatim>\<open>lib.rs\<close>, and
    \<^verbatim>\<open>runner\<close>, the host program that boots an image in QEMU; the host is a record of operations on a world.
  \<^item> \<^verbatim>\<open>Idle_Programs\<close>: \<^verbatim>\<open>user/shell\<close>, \<^verbatim>\<open>user/drivers/virtio_disk\<close> and the user panic handlers, endless loops.
  \<^item> \<^verbatim>\<open>Init_Process\<close>: \<^verbatim>\<open>user/init\<close>, whose calls go through \<open>handle_syscall\<close> with arbitrary activity in between.
  \<^item> \<^verbatim>\<open>Process_Layout\<close>: the unused declarations of \<^verbatim>\<open>process.rs\<close> and \<^verbatim>\<open>common\<close>.

  \<^bold>\<open>State.\<close> The statics of the program are the fields of one record that grows with the components:
  \<open>task_globals\<close> (tasks, counters, \<^verbatim>\<open>TASK_REGISTRY\<close>, memory), \<open>exec_globals\<close> (\<^verbatim>\<open>KERNEL_EXECUTOR\<close>, console),
  \<open>kernel_globals\<close> (\<^verbatim>\<open>SERVICE_REGISTRY\<close>, \<^verbatim>\<open>INIT_MAILBOX\<close>) and \<open>machine\<close> (\<^verbatim>\<open>TASK_LIST\<close>, \<^verbatim>\<open>CURRENT_TASK_IDX\<close>, the
  tick counter, the TSS). A lock that a handler only tries is a boolean of the state. Integers keep their
  width and wrap as in a release build. Panics are values of \<open>outcome\<close>.

  \<^bold>\<open>What is shown.\<close> From the boot on, in any order of ring 3 code, interrupts, faults and system calls, a
  process is resumed with exactly the context it was interrupted with. A fault kills its process
  and nothing else, and the dead never run again; as long as the current process is alive the processor leaves
  the kernel in ring 3 only. What a process receives was posted by a device. The scheduler refines a queue and is fair to the ready
  processes; its invariant holds after any sequence of events;
  frames are never handed out twice, the heap, the stacks and the program are mapped as promised, and ring 3
  cannot reach the heap; messages,
  wake-ups and device bytes arrive; the boot reaches ring 3 with all of these invariants established; and the
  user program echoes what is typed. Some theorems state defects of the code as it is: the wrappers do not
  drop hardware error codes, system calls and the halt of \<^verbatim>\<open>SYS_YIELD\<close> run on the user's stack, a receive buffer
  may lie in a kernel stack and overwrite a saved context, a self-waking future hangs the kernel, a timer tick
  clears the identity of the running process, a bad receive buffer locks the mailbox for good, the last fault
  resumes a dead process on a shifted frame, the processes can write each other's stacks, and the runner hides failed tests.

  \<^bold>\<open>What isolation assumes.\<close> The page tables keep ring 3 code from writing kernel stacks (\<^verbatim>\<open>Memory_Separation\<close> shows
  it of the boot's page table for the kernel heap, which the stacks are allocated from), the Rust code of a
  handler writes no other process's kernel stack, and the steps for system calls are those that return and
  stay off the kernel stacks: the two ways out of these assumptions are theorems of \<^verbatim>\<open>Isolation\<close>.

  \<^bold>\<open>Loops and bounds.\<close> The executor's loop and the keyboard task are partial functions whose value \<open>None\<close> is
  divergence, and termination or divergence is proved. The user program's endless loop is counted in rounds
  and never gets stuck. The fairness bound is the number of processes times the longest time slice. The boot
  needs 164 usable frames and four per program page: four is the most a new page can need with its tables.

  \<^bold>\<open>Not modelled.\<close> The build scripts \<^verbatim>\<open>run.sh\<close> and \<^verbatim>\<open>test.sh\<close>, the target description and the linker script are
  build configuration. The crates (\<^verbatim>\<open>x86_64\<close>, \<^verbatim>\<open>xmas_elf\<close>,
  \<^verbatim>\<open>crossbeam\<close>, \<^verbatim>\<open>futures\<close>, \<^verbatim>\<open>pc_keyboard\<close>, the heap) are parameters. The lock of the interrupt controllers and
  of the serial port is taken and released with interrupts masked and is not a state. Kernel memory and the
  physical memory the loader fills are two memories: the kernel's own addresses are identity in the first,
  and translation matters only in the second. A write that faults half way is not modelled.
\<close>

end
